(* ===== verification/Lwip_Prelude.thy ===== *)
theory Lwip_Prelude
  imports Main "HOL-Library.Word"
begin

unbundle bit_operations_syntax

section \<open>Prelude: machine types, error codes, shared lemmas\<close>

text \<open>
  The vocabulary that every other theory uses: the fixed-width integer types of lwIP's
  \<^verbatim>\<open>arch.h\<close> as words, the error codes of \<^verbatim>\<open>err.h\<close>, the rounding of sizes, the byte view of 16- and 32-bit
  values on a little-endian host (all targets of the package are little-endian), and the
  generic lemmas on words and lists that the component proofs share.
\<close>

named_theorems byte_order \<open>facts on the byte view of words\<close>

type_synonym u8 = "8 word"
type_synonym u16 = "16 word"
type_synonym u32 = "32 word"
type_synonym u64 = "64 word"

subsection \<open>Error codes\<close>

datatype err_t =
    ERR_OK | ERR_MEM | ERR_BUF | ERR_TIMEOUT | ERR_RTE | ERR_INPROGRESS | ERR_VAL
  | ERR_WOULDBLOCK | ERR_USE | ERR_ALREADY | ERR_ISCONN | ERR_CONN | ERR_IF
  | ERR_ABRT | ERR_RST | ERR_CLSD | ERR_ARG

subsection \<open>Alignment\<close>

definition MEM_ALIGNMENT :: nat where "MEM_ALIGNMENT = 8"

definition LWIP_MEM_ALIGN_SIZE :: "nat \<Rightarrow> nat" where
  "LWIP_MEM_ALIGN_SIZE sz = (sz + MEM_ALIGNMENT - 1) mod 2 ^ 32 div MEM_ALIGNMENT * MEM_ALIGNMENT"

subsection \<open>Words and their bytes\<close>

text \<open>\<open>le16 a b\<close> is the 16-bit value whose byte at the lower address is \<open>a\<close>.\<close>

definition le16 :: "u8 \<Rightarrow> u8 \<Rightarrow> nat" where
  "le16 a b = unat a + 256 * unat b"

text \<open>The bytes in memory of an IPv4 address, which is kept in network byte order.\<close>

definition addr_bytes :: "u32 \<Rightarrow> u8 list" where
  "addr_bytes a = [ucast a, ucast (drop_bit 8 a), ucast (drop_bit 16 a), ucast (drop_bit 24 a)]"

lemma unat_u8_less [simp]: "unat (a :: u8) < 256"
  using unsigned_less [of a, where ?'a = nat] by simp

lemma unat_u16_less [simp]: "unat (a :: u16) < 65536"
  using unsigned_less [of a, where ?'a = nat] by simp

lemma unat_u32_less [simp]: "unat (a :: u32) < 4294967296"
  using unsigned_less [of a, where ?'a = nat] by simp

lemma le16_less [simp]: "le16 a b < 65536"
  using unat_u8_less [of a] unat_u8_less [of b] unfolding le16_def by linarith

lemma unat_u16_of_nat: "unat (of_nat n :: u16) = n mod 65536"
  by (simp add: unat_of_nat)

lemma unat_u32_of_nat: "unat (of_nat n :: u32) = n mod 4294967296"
  by (simp add: unat_of_nat)

lemma unat_u8_of_nat: "unat (of_nat n :: u8) = n mod 256"
  by (simp add: unat_of_nat)

lemma unat_ucast_u16_u32 [simp]: "unat (ucast (a :: u16) :: u32) = unat a"
  by (simp add: unsigned_ucast_eq take_bit_nat_eq_self order_less_trans [OF unsigned_less])

lemma unat_ucast_u8_u32 [simp]: "unat (ucast (a :: u8) :: u32) = unat a"
  by (simp add: unsigned_ucast_eq take_bit_nat_eq_self order_less_trans [OF unsigned_less])

lemma unat_ucast_u8_u16 [simp]: "unat (ucast (a :: u8) :: u16) = unat a"
  by (simp add: unsigned_ucast_eq take_bit_nat_eq_self order_less_trans [OF unsigned_less])

lemma unat_ucast_u32_u16: "unat (ucast (a :: u32) :: u16) = unat a mod 65536"
  by (simp add: unsigned_ucast_eq take_bit_eq_mod)

lemma unat_u16_add: "unat (a + b :: u16) = (unat a + unat b) mod 65536"
  by (simp add: unat_word_ariths)

lemma unat_u32_add: "unat (a + b :: u32) = (unat a + unat b) mod 4294967296"
  by (simp add: unat_word_ariths)

lemma unat_u16_sub: "b \<le> a \<Longrightarrow> unat (a - b :: u16) = unat a - unat b"
  by (rule unat_sub)

lemma unat_u32_sub: "b \<le> a \<Longrightarrow> unat (a - b :: u32) = unat a - unat b"
  by (rule unat_sub)

lemma unat_drop_bit: "unat (drop_bit n (a :: 'a::len word)) = unat a div 2 ^ n"
  by (simp add: unat_drop_bit_eq flip: drop_bit_eq_div)

lemma unat_take_mask: "unat (a AND mask n :: 'a::len word) = unat a mod 2 ^ n"
  by (metis take_bit_eq_mask take_bit_eq_mod unsigned_take_bit_eq)

end
