(* ===== verification/Lwip_Def.thy ===== *)
theory Lwip_Def
  imports Lwip_Prelude
begin

section \<open>Byte order and string helpers (def.c)\<close>

text \<open>
  The functions of \<^verbatim>\<open>src/core/def.c\<close>. A C string is the list of its bytes before the
  terminating NUL, so a pointer into it is a suffix of that list and reading through the
  pointer is \<open>char_at\<close>, which gives 0 at the end. \<open>char\<close> is signed on the targets of the
  package, so comparisons with \<open>'a'\<close> and \<open>'z'\<close> go through \<open>sint\<close>. \<open>size_t\<close> is 64 bits wide.
\<close>

subsection \<open>Byte order\<close>

definition lwip_htons :: "u16 \<Rightarrow> u16" where
  "lwip_htons n = push_bit 8 (n AND 0x00ff) OR drop_bit 8 (n AND 0xff00)"

definition lwip_htonl :: "u32 \<Rightarrow> u32" where
  "lwip_htonl n =
     push_bit 24 (n AND 0x000000ff) OR push_bit 8 (n AND 0x0000ff00) OR
     drop_bit 8 (n AND 0x00ff0000) OR drop_bit 24 (n AND 0xff000000)"

text \<open>\<open>lwip_ntohs\<close> and \<open>lwip_ntohl\<close> are macros for the same functions.\<close>

abbreviation lwip_ntohs :: "u16 \<Rightarrow> u16" where
  "lwip_ntohs \<equiv> lwip_htons"

abbreviation lwip_ntohl :: "u32 \<Rightarrow> u32" where
  "lwip_ntohl \<equiv> lwip_htonl"

subsection \<open>Strings\<close>

definition char_at :: "u8 list \<Rightarrow> u8" where
  "char_at s = (case s of [] \<Rightarrow> 0 | c # _ \<Rightarrow> c)"

text \<open>The body of the comparison loops: the two characters differ also after
  down-casing, or are no letters.\<close>

definition char_differs :: "u8 \<Rightarrow> u8 \<Rightarrow> bool" where
  "char_differs c1 c2 =
     (c1 \<noteq> c2 \<and>
      (let c1_upc = c1 OR 0x20 in
       if 97 \<le> sint c1_upc \<and> sint c1_upc \<le> 122
       then (let c2_upc = c2 OR 0x20 in c1_upc \<noteq> c2_upc)
       else True))"

fun lwip_stricmp :: "u8 list \<Rightarrow> u8 list \<Rightarrow> int" where
  "lwip_stricmp [] str2 = (if char_differs 0 (char_at str2) then 1 else 0)"
| "lwip_stricmp (c1 # str1) str2 =
     (if char_differs c1 (char_at str2) then 1
      else if c1 \<noteq> 0 then lwip_stricmp str1 (tl str2)
      else 0)"

fun lwip_strnicmp :: "u8 list \<Rightarrow> u8 list \<Rightarrow> u64 \<Rightarrow> int" where
  "lwip_strnicmp [] str2 len = (if char_differs 0 (char_at str2) then 1 else 0)"
| "lwip_strnicmp (c1 # str1) str2 len =
     (if char_differs c1 (char_at str2) then 1
      else let len' = len - 1 in
        if len' \<noteq> 0 \<and> c1 \<noteq> 0 then lwip_strnicmp str1 (tl str2) len'
        else 0)"

text \<open>The C library's \<open>strncmp\<close>, reduced to the test for equality that the source makes.\<close>

fun strncmp_eq :: "u8 list \<Rightarrow> u8 list \<Rightarrow> nat \<Rightarrow> bool" where
  "strncmp_eq s1 s2 0 = True"
| "strncmp_eq s1 s2 (Suc n) =
     (char_at s1 = char_at s2 \<and> (char_at s1 = 0 \<or> strncmp_eq (tl s1) (tl s2) n))"

text \<open>The search loops return the offset of \<open>p\<close> from \<open>buffer\<close>, \<open>None\<close> for NULL.\<close>

fun strnstr_loop :: "(u8 list \<Rightarrow> bool) \<Rightarrow> nat \<Rightarrow> nat \<Rightarrow> nat \<Rightarrow> u8 list \<Rightarrow> nat option" where
  "strnstr_loop hit tokenlen n i [] = None"
| "strnstr_loop hit tokenlen n i (c # p) =
     (if c \<noteq> 0 \<and> i + tokenlen \<le> n
      then if hit (c # p) then Some i else strnstr_loop hit tokenlen n (Suc i) p
      else None)"

definition lwip_strnstr :: "u8 list \<Rightarrow> u8 list \<Rightarrow> nat \<Rightarrow> nat option" where
  "lwip_strnstr buffer token n =
     (let tokenlen = length token in
      if tokenlen = 0 then Some 0
      else strnstr_loop
             (\<lambda>p. char_at p = char_at token \<and> strncmp_eq p token tokenlen) tokenlen n 0 buffer)"

definition lwip_strnistr :: "u8 list \<Rightarrow> u8 list \<Rightarrow> nat \<Rightarrow> nat option" where
  "lwip_strnistr buffer token n =
     (let tokenlen = length token in
      if tokenlen = 0 then Some 0
      else strnstr_loop (\<lambda>p. lwip_strnicmp p token (of_nat tokenlen) = 0) tokenlen n 0 buffer)"

subsection \<open>Integer to string\<close>

text \<open>
  The buffer is the list of its \<open>bufsize\<close> bytes, \<open>res\<close> and \<open>tmp\<close> are offsets into it.
  \<open>-number\<close> overflows for the least \<open>int\<close>, which C leaves undefined: \<open>None\<close>.
\<close>

fun itoa_loop :: "u8 list \<Rightarrow> nat \<Rightarrow> nat \<Rightarrow> nat \<Rightarrow> u8 list \<times> nat \<times> nat" where
  "itoa_loop buf res 0 n = (buf, 0, n)"
| "itoa_loop buf res (Suc t) n =
     (if n \<noteq> 0 \<and> res < Suc t
      then itoa_loop (buf[t := of_nat (48 + n mod 10)]) res t (n div 10)
      else (buf, Suc t, n))"

definition memmove :: "u8 list \<Rightarrow> nat \<Rightarrow> nat \<Rightarrow> nat \<Rightarrow> u8 list" where
  "memmove buf dst src len =
     take dst buf @ take len (drop src buf) @ drop (dst + len) buf"

definition lwip_itoa :: "u8 list \<Rightarrow> int \<Rightarrow> u8 list option" where
  "lwip_itoa result number =
     (if number = - (2 ^ 31) then None
      else
        let bufsize = length result; n = nat \<bar>number\<bar> in
        if bufsize < 2 then Some (if bufsize = 1 then result[0 := 0] else result)
        else
          let (buf, res) = (if number < 0 then (result[0 := 45], 1) else (result, 0));
              buf = buf[bufsize - 1 := 0];
              (buf, tmp, n) = itoa_loop buf res (bufsize - 1) n
          in if n \<noteq> 0 then Some (buf[0 := 0])
             else if buf ! tmp = 0 then Some (buf[res := 48, Suc res := 0])
             else Some (memmove buf res tmp (bufsize - tmp)))"

subsection \<open>Constant-time comparison\<close>

fun memcmp_loop :: "u8 \<Rightarrow> u8 list \<Rightarrow> u8 list \<Rightarrow> u8" where
  "memcmp_loop ret (a # as) (b # bs) = memcmp_loop (ret OR (a XOR b)) as bs"
| "memcmp_loop ret _ _ = ret"

definition lwip_memcmp_consttime :: "u8 list \<Rightarrow> u8 list \<Rightarrow> nat \<Rightarrow> u8" where
  "lwip_memcmp_consttime s1 s2 len = memcmp_loop 0 (take len s1) (take len s2)"

lemma mask8_u16: "(0xff :: u16) = mask 8" "(0xff00 :: u16) = push_bit 8 (mask 8)"
  by (simp_all add: mask_eq_exp_minus_1 push_bit_eq_mult)

lemma mask8_u32:
  "(0xff :: u32) = mask 8" "(0xff00 :: u32) = push_bit 8 (mask 8)"
  "(0xff0000 :: u32) = push_bit 16 (mask 8)" "(0xff000000 :: u32) = push_bit 24 (mask 8)"
  by (simp_all add: mask_eq_exp_minus_1 push_bit_eq_mult)

lemma bit_lwip_htons:
  "bit (lwip_htons x) n \<longleftrightarrow> (if n < 8 then bit x (n + 8) else n < 16 \<and> bit x (n - 8))"
  unfolding lwip_htons_def mask8_u16
  by (auto simp: bit_simps add.commute dest: bit_imp_le_length)

lemma bit_lwip_htonl:
  "bit (lwip_htonl x) n \<longleftrightarrow>
     (if n < 8 then bit x (n + 24) else if n < 16 then bit x (n + 8)
      else if n < 24 then bit x (n - 8) else n < 32 \<and> bit x (n - 24))"
  unfolding lwip_htonl_def mask8_u32
  by (auto simp: bit_simps add.commute dest: bit_imp_le_length)

lemma lwip_htons_involution [simp]: "lwip_htons (lwip_htons x) = x"
  by (rule bit_word_eqI) (auto simp: bit_lwip_htons)

lemma lwip_htonl_involution [simp]: "lwip_htonl (lwip_htonl x) = x"
  by (rule bit_word_eqI) (auto simp: bit_lwip_htonl)


lemma byte_lwip_htonl:
  "take_bit 8 (lwip_htonl x) = take_bit 8 (drop_bit 24 x)"
  "take_bit 8 (drop_bit 8 (lwip_htonl x)) = take_bit 8 (drop_bit 16 x)"
  "take_bit 8 (drop_bit 16 (lwip_htonl x)) = take_bit 8 (drop_bit 8 x)"
  "take_bit 8 (drop_bit 24 (lwip_htonl x)) = take_bit 8 x"
  by (rule bit_word_eqI; auto simp: bit_simps bit_lwip_htonl add.commute)+

lemma unat_lwip_htons: "unat (lwip_htons x) = 256 * (unat x mod 256) + unat x div 256"
proof -
  have "lwip_htons x = push_bit 8 (take_bit 8 x) OR drop_bit 8 x"
    by (rule bit_word_eqI) (auto simp: bit_simps bit_lwip_htons add.commute dest: bit_imp_le_length)
  also have "\<dots> = push_bit 8 (take_bit 8 x) + drop_bit 8 x"
    by (rule disjunctive_add_eq_or [symmetric], rule bit_word_eqI) (auto simp: bit_simps dest: bit_imp_le_length)
  finally have e: "lwip_htons x = push_bit 8 (take_bit 8 x) + drop_bit 8 x" .
  have "unat (push_bit 8 (take_bit 8 x)) = 256 * (unat x mod 256)"
  proof -
    have "unat (push_bit 8 (take_bit 8 x)) = take_bit LENGTH(16) (push_bit 8 (take_bit 8 (unat x)))"
      by (simp only: unsigned_push_bit_eq unsigned_take_bit_eq)
    then show ?thesis by (simp add: push_bit_eq_mult take_bit_eq_mod)
  qed
  moreover have "unat (drop_bit 8 x) = unat x div 256" by (simp add: unat_drop_bit)
  moreover have "256 * (unat x mod 256) + unat x div 256 < 65536"
    using unat_u16_less [of x] by linarith
  ultimately show ?thesis unfolding e by (simp add: unat_u16_add)
qed

subsection \<open>Strings\<close>

definition to_lower :: "u8 \<Rightarrow> u8" where
  "to_lower c = (if 65 \<le> c \<and> c \<le> 90 then c + 32 else c)"

definition letter :: "u8 \<Rightarrow> bool" where
  "letter c = (97 \<le> to_lower c \<and> to_lower c \<le> 122)"


lemma unat_or_0x20: "unat (c OR 0x20 :: u8) = (if odd (unat c div 32) then unat c else unat c + 32)"
proof -
  have "unat (c OR 0x20) = unat c OR push_bit 5 1" by (simp add: unsigned_or_eq push_bit_eq_mult)
  also have "\<dots> = set_bit 5 (unat c)" by (simp add: set_bit_eq_or)
  also have "\<dots> = unat c + of_bool (\<not> bit (unat c) 5) * 2 ^ 5" by (rule set_bit_eq)
  finally show ?thesis by (simp add: bit_iff_odd)
qed

lemma unat_to_lower: "unat (to_lower c) = (if 65 \<le> unat c \<and> unat c \<le> 90 then unat c + 32 else unat c)"
proof (cases "65 \<le> c \<and> c \<le> 90")
  case True
  then have "65 \<le> unat c \<and> unat c \<le> 90" by (simp add: word_le_nat_alt)
  moreover have "unat (c + 32) = (unat c + 32) mod 256" by (simp add: unat_word_ariths)
  ultimately show ?thesis using True by (simp add: to_lower_def)
next
  case False
  then have "\<not> (65 \<le> unat c \<and> unat c \<le> 90)" by (simp add: word_le_nat_alt)
  then show ?thesis using False by (simp only: to_lower_def if_False)
qed


lemma sint_u8: "sint (c :: u8) = (if unat c < 128 then int (unat c) else int (unat c) - 256)"
proof -
  define u where "u = uint c"
  have r: "0 \<le> u" "u < 256" using uint_lt2p [of c] by (simp_all add: u_def)
  have "sint c = take_bit 8 u - 256 * of_bool (bit u 7)"
    by (simp add: sint_uint signed_take_bit_eq_take_bit_minus u_def)
  also have "take_bit 8 u = u"
    using r by (simp add: take_bit_eq_mod)
  also have "bit u 7 \<longleftrightarrow> \<not> u < 128"
    using r by (cases "u < 128") (auto simp: bit_iff_odd div_pos_geq)
  finally have "sint c = (if u < 128 then u else u - 256)" by simp
  moreover have "unat c = nat u" by (simp add: u_def)
  ultimately show ?thesis using r by auto
qed

lemma letter_cases:
  "(97 \<le> sint (c OR 0x20) \<and> sint (c OR 0x20) \<le> 122) = letter c
   \<and> (letter c \<longrightarrow> c OR 0x20 = to_lower c) \<and> (\<not> letter c \<longrightarrow> to_lower c = c)"
proof -
  have d: "odd (n div 32) \<longleftrightarrow> 32 \<le> n \<and> n < 64 \<or> 96 \<le> n \<and> n < 128 \<or> 160 \<le> n \<and> n < 192 \<or> 224 \<le> n"
    if "n < 256" for n :: nat
  proof -
    have "n div 32 < 8" using that by (simp add: less_mult_imp_div_less)
    then have "n div 32 \<in> {0, 1, 2, 3, 4, 5, 6, 7}" by auto
    moreover have "n = 32 * (n div 32) + n mod 32" "n mod 32 < 32" by simp_all
    ultimately show ?thesis by auto
  qed
  define n where "n = unat c"
  have "n < 256" by (simp add: n_def unat_u8_less)
  then show ?thesis
    unfolding letter_def sint_u8 word_le_nat_alt word_unat_eq_iff unat_or_0x20 unat_to_lower
      n_def [symmetric] by (auto simp: d split: if_splits)
qed

lemmas letter_sint = letter_cases [THEN conjunct1]
lemmas letter_upc = letter_cases [THEN conjunct2, THEN conjunct1, THEN mp]
lemmas letter_not = letter_cases [THEN conjunct2, THEN conjunct2, THEN mp]

lemma upc_eq_to_lower: "letter c1 \<Longrightarrow> c2 OR 0x20 = to_lower c1 \<longleftrightarrow> to_lower c2 = to_lower c1"
proof (cases "letter c2")
  case False
  assume l1: "letter c1"
  have "c2 OR 0x20 \<noteq> to_lower c1"
  proof
    assume "c2 OR 0x20 = to_lower c1"
    then have "c2 OR 0x20 = c1 OR 0x20" by (simp add: letter_upc [OF l1])
    then show False using False l1 letter_sint [of c1] letter_sint [of c2] by simp
  qed
  moreover have "to_lower c2 \<noteq> to_lower c1"
    using False l1 unfolding letter_def by argo
  ultimately show ?thesis by blast
qed (simp add: letter_upc)

lemma char_differs_iff: "char_differs c1 c2 \<longleftrightarrow> to_lower c1 \<noteq> to_lower c2"
proof (cases "letter c1")
  case True
  then have "char_differs c1 c2 \<longleftrightarrow> c1 \<noteq> c2 \<and> to_lower c1 \<noteq> c2 OR 0x20"
    unfolding char_differs_def Let_def letter_sint by (simp add: letter_upc [OF True])
  then show ?thesis using upc_eq_to_lower [OF True, of c2] by metis
next
  case False
  then have "char_differs c1 c2 \<longleftrightarrow> c1 \<noteq> c2"
    unfolding char_differs_def Let_def letter_sint by simp
  moreover have "to_lower c1 = to_lower c2 \<longrightarrow> c1 = c2"
    using False letter_not [of c1] letter_not [of c2] unfolding letter_def by metis
  ultimately show ?thesis by blast
qed

lemma to_lower_0 [simp]: "to_lower 0 = 0" and to_lower_eq_0 [simp]: "to_lower c = 0 \<longleftrightarrow> c = 0"
  unfolding word_unat_eq_iff unat_to_lower by auto

lemma lwip_stricmp_spec:
  assumes "0 \<notin> set str1" "0 \<notin> set str2"
  shows "lwip_stricmp str1 str2 = (if map to_lower str1 = map to_lower str2 then 0 else 1)"
  using assms
proof (induction str1 str2 rule: lwip_stricmp.induct)
  case (1 str2)
  then show ?case by (cases str2) (auto simp: char_differs_iff char_at_def)
next
  case (2 c1 str1 str2)
  then show ?case by (cases str2) (auto simp: char_differs_iff char_at_def)
qed

lemma lwip_strnicmp_spec:
  assumes "0 \<notin> set str1" "0 \<notin> set str2" "len \<noteq> 0"
  shows "lwip_strnicmp str1 str2 len =
    (if map to_lower (take (unat len) str1) = map to_lower (take (unat len) str2) then 0 else 1)"
  using assms
proof (induction str1 str2 len rule: lwip_strnicmp.induct)
  case (1 str2 len)
  then show ?case
    by (cases str2) (auto simp: char_differs_iff char_at_def unat_eq_zero)
next
  case (2 c1 str1 str2 len)
  have len: "unat len = Suc (unat (len - 1))"
    using "2.prems"(3) by (simp add: unat_minus_one) (metis Suc_pred unat_gt_0)
  show ?case
  proof (cases "char_differs c1 (char_at str2)")
    case True
    then show ?thesis using "2.prems" len by (cases str2) (auto simp: char_differs_iff char_at_def)
  next
    case False
    with "2.prems" obtain c2 str2' where s2: "str2 = c2 # str2'" "to_lower c1 = to_lower c2"
      by (cases str2) (auto simp: char_differs_iff char_at_def)
    show ?thesis
    proof (cases "len - 1 = 0")
      case True
      then show ?thesis using False s2 len by simp
    next
      case F: False
      have "lwip_strnicmp str1 str2' (len - 1) =
        (if map to_lower (take (unat (len - 1)) str1) = map to_lower (take (unat (len - 1)) str2') then 0 else 1)"
        using "2.IH" [of "len - 1"] False F "2.prems" s2 by auto
      then show ?thesis using False F s2 len "2.prems" by auto
    qed
  qed
qed

lemma strncmp_eq_iff:
  assumes "0 \<notin> set s1" "0 \<notin> set s2"
  shows "strncmp_eq s1 s2 n \<longleftrightarrow> take n s1 = take n s2"
  using assms
proof (induction s1 s2 n rule: strncmp_eq.induct)
  case (2 s1 s2 n)
  then show ?case by (cases s1; cases s2) (auto simp: char_at_def)
qed simp

lemma strnstr_loop_Some:
  assumes "0 \<notin> set p" "strnstr_loop hit m n i p = Some k"
  shows "i \<le> k \<and> k + m \<le> n \<and> k - i < length p \<and> hit (drop (k - i) p)
    \<and> (\<forall>j. i \<le> j \<and> j < k \<longrightarrow> \<not> hit (drop (j - i) p))"
  using assms
proof (induction hit m n i p rule: strnstr_loop.induct)
  case (2 hit m n i c p)
  show ?case
  proof (cases "hit (c # p)")
    case True
    then show ?thesis using "2.prems" by (auto split: if_splits)
  next
    case False
    then have "Suc i \<le> k \<and> k + m \<le> n \<and> k - Suc i < length p \<and> hit (drop (k - Suc i) p)
      \<and> (\<forall>j. Suc i \<le> j \<and> j < k \<longrightarrow> \<not> hit (drop (j - Suc i) p))"
      using "2.IH" "2.prems" by (auto split: if_splits)
    then show ?thesis using False
      by (auto simp: drop_Cons' Suc_le_eq)
  qed
qed simp

lemma strnstr_loop_None:
  assumes "0 \<notin> set p" "strnstr_loop hit m n i p = None"
    and "i \<le> j" "j - i < length p" "j + m \<le> n"
  shows "\<not> hit (drop (j - i) p)"
  using assms
proof (induction hit m n i p arbitrary: j rule: strnstr_loop.induct)
  case (2 hit m n i c p)
  show ?case
  proof (cases "j = i")
    case True
    then show ?thesis using "2.prems" by (auto split: if_splits)
  next
    case False
    then show ?thesis using "2.IH" [of j] "2.prems"
      by (auto simp: drop_Cons' split: if_splits)
  qed
qed simp


definition occurs_at :: "u8 list \<Rightarrow> u8 list \<Rightarrow> nat \<Rightarrow> bool" where
  "occurs_at buffer token k \<longleftrightarrow> take (length token) (drop k buffer) = token"

lemma strnstr_loop_first:
  assumes "0 \<notin> set buffer" and P: "\<And>k. k < length buffer \<Longrightarrow> hit (drop k buffer) = P k"
    and inside: "\<And>k. P k \<Longrightarrow> k < length buffer"
  shows "case strnstr_loop hit m n 0 buffer of
      Some k \<Rightarrow> k + m \<le> n \<and> P k \<and> (\<forall>j<k. \<not> P j)
    | None \<Rightarrow> \<forall>j. j + m \<le> n \<longrightarrow> \<not> P j"
proof (cases "strnstr_loop hit m n 0 buffer")
  case None
  then show ?thesis
    using strnstr_loop_None [OF assms(1) None, of j for j] P inside by auto
next
  case (Some k)
  then show ?thesis
    using strnstr_loop_Some [OF assms(1) Some] P inside by auto
qed

text \<open>\<open>lwip_strnstr\<close> returns the first position within the first \<open>n\<close> bytes at which the token
  occurs, and NULL only when there is none.\<close>

theorem lwip_strnstr_spec:
  assumes "0 \<notin> set buffer" "0 \<notin> set token" "token \<noteq> []"
  shows "case lwip_strnstr buffer token n of
      Some k \<Rightarrow> k + length token \<le> n \<and> occurs_at buffer token k
        \<and> (\<forall>j<k. \<not> occurs_at buffer token j)
    | None \<Rightarrow> \<forall>j. j + length token \<le> n \<longrightarrow> \<not> occurs_at buffer token j"
proof -
  let ?hit = "\<lambda>p. char_at p = char_at token \<and> strncmp_eq p token (length token)"
  have "?hit (drop k buffer) \<longleftrightarrow> occurs_at buffer token k" for k
  proof -
    have z: "0 \<notin> set (drop k buffer)" using assms(1) by (meson in_set_dropD)
    have "strncmp_eq (drop k buffer) token (length token) \<longleftrightarrow> occurs_at buffer token k"
      unfolding occurs_at_def strncmp_eq_iff [OF z assms(2)] by simp
    moreover have "occurs_at buffer token k \<longrightarrow> char_at (drop k buffer) = char_at token"
      using assms(3) by (cases token; cases "drop k buffer") (auto simp: occurs_at_def char_at_def)
    ultimately show ?thesis by blast
  qed
  moreover have "occurs_at buffer token j \<Longrightarrow> j < length buffer" for j
    using assms(3) by (cases "j < length buffer") (auto simp: occurs_at_def)
  ultimately show ?thesis
    using strnstr_loop_first [OF assms(1), of ?hit "occurs_at buffer token" "length token" n] assms(3)
    by (simp add: lwip_strnstr_def Let_def)
qed

lemma lwip_strnicmp_occurs:
  assumes "0 \<notin> set p" "0 \<notin> set token" "token \<noteq> []" "length token < 2 ^ 64"
  shows "lwip_strnicmp p token (of_nat (length token)) = 0
    \<longleftrightarrow> occurs_at (map to_lower p) (map to_lower token) 0"
proof -
  have u: "unat (of_nat (length token) :: u64) = length token"
    using assms(4) by (simp add: unsigned_of_nat take_bit_eq_mod)
  then have "(of_nat (length token) :: u64) \<noteq> 0" using assms(3) by (metis length_0_conv unat_0)
  then show ?thesis
    unfolding occurs_at_def using lwip_strnicmp_spec [OF assms(1,2)] u by (simp add: take_map)
qed

text \<open>C25. \<open>lwip_strnistr\<close> returns the first position within the first \<open>n\<close> bytes at which the
  token occurs up to the case of letters, and NULL only when there is none.\<close>

theorem lwip_strnistr_spec:
  assumes "0 \<notin> set buffer" "0 \<notin> set token" "token \<noteq> []" "length token < 2 ^ 64"
  shows "case lwip_strnistr buffer token n of
      Some k \<Rightarrow> k + length token \<le> n \<and> occurs_at (map to_lower buffer) (map to_lower token) k
        \<and> (\<forall>j<k. \<not> occurs_at (map to_lower buffer) (map to_lower token) j)
    | None \<Rightarrow> \<forall>j. j + length token \<le> n \<longrightarrow> \<not> occurs_at (map to_lower buffer) (map to_lower token) j"
proof -
  let ?hit = "\<lambda>p. lwip_strnicmp p token (of_nat (length token)) = 0"
  let ?P = "occurs_at (map to_lower buffer) (map to_lower token)"
  have "?hit (drop k buffer) \<longleftrightarrow> ?P k" for k
  proof -
    have z: "0 \<notin> set (drop k buffer)" using assms(1) by (meson in_set_dropD)
    show ?thesis
      using lwip_strnicmp_occurs [OF z assms(2-4)] by (simp add: occurs_at_def drop_map)
  qed
  moreover have "?P j \<Longrightarrow> j < length buffer" for j
    using assms(3) by (cases "j < length buffer") (auto simp: occurs_at_def)
  ultimately show ?thesis
    using strnstr_loop_first [OF assms(1), of ?hit ?P "length token" n] assms(3)
    by (simp add: lwip_strnistr_def Let_def)
qed

theorem lwip_strnistr_spec_witness:
  "lwip_strnistr [65, 66, 67] [98, 99] 3 = Some 1
   \<and> occurs_at (map to_lower [65, 66, 67]) (map to_lower [98, 99]) 1"
proof -
  have c: "lwip_strnistr [65, 66, 67] [98, 99] 3 = Some 1" by code_simp
  then show ?thesis using lwip_strnistr_spec [of "[65, 66, 67]" "[98, 99]" 3] by simp
qed

text \<open>A length of 0 does not stop the comparison: the first characters are compared before the
  length is, and the length then wraps.\<close>

lemma lwip_strnicmp_len0: "lwip_strnicmp [97] [98] 0 = 1"
  by (simp add: char_differs_iff char_at_def to_lower_def)

text \<open>The decimal text of a number.\<close>

fun digits :: "nat \<Rightarrow> u8 list" where
  "digits n = (if n = 0 then [] else digits (n div 10) @ [of_nat (48 + n mod 10)])"

declare digits.simps [simp del]

lemma digits_0 [simp]: "digits 0 = []" by (simp add: digits.simps)

lemma digits_pos: "0 < n \<Longrightarrow> digits n = digits (n div 10) @ [of_nat (48 + n mod 10)]"
  by (subst digits.simps) simp

lemma digits_eq_Nil [simp]: "digits n = [] \<longleftrightarrow> n = 0"
  by (cases "n = 0") (simp_all add: digits_pos)

definition itoa_text :: "int \<Rightarrow> u8 list" where
  "itoa_text number = (if number = 0 then [48]
     else (if number < 0 then [45] else []) @ digits (nat \<bar>number\<bar>))"

lemma digit_nonzero: "(of_nat (48 + n mod 10) :: u8) \<noteq> 0"
proof -
  have "unat (of_nat (48 + n mod 10) :: u8) = 48 + n mod 10"
    using mod_less_divisor [of 10 n] by (simp add: unat_u8_of_nat del: of_nat_add)
  then show ?thesis by (metis add_is_0 unat_0 zero_neq_numeral)
qed

lemma digits_nonzero: "0 \<notin> set (digits n)"
proof (induction n rule: digits.induct)
  case (1 n)
  then show ?case
    using digit_nonzero [of n] by (cases "n = 0") (auto simp: digits_pos simp del: of_nat_add)
qed

lemma itoa_loop_spec:
  assumes "itoa_loop buf res t n = (buf', t', n')" "res \<le> t" "t \<le> length buf"
  shows "res \<le> t' \<and> t' \<le> t \<and> length buf' = length buf \<and> take t' buf' = take t' buf
    \<and> drop t buf' = drop t buf \<and> (n' = 0 \<or> t' = res)
    \<and> digits n = digits n' @ take (t - t') (drop t' buf')"
  using assms
proof (induction buf res t n arbitrary: buf' t' n' rule: itoa_loop.induct)
  case (2 buf res t n)
  show ?case
  proof (cases "n \<noteq> 0 \<and> res < Suc t")
    case True
    let ?d = "of_nat (48 + n mod 10) :: u8"
    have rec: "itoa_loop (buf[t := ?d]) res t (n div 10) = (buf', t', n')"
      using True "2.prems"(1) by simp
    have IH: "res \<le> t' \<and> t' \<le> t \<and> length buf' = length buf \<and> take t' buf' = take t' buf
      \<and> drop t buf' = drop t (buf[t := ?d]) \<and> (n' = 0 \<or> t' = res)
      \<and> digits (n div 10) = digits n' @ take (t - t') (drop t' buf')"
      using "2.IH" [OF True rec] True "2.prems"(3) by (auto simp del: of_nat_add)
    have lt: "t < length buf" using "2.prems"(3) by simp
    have dt: "drop t buf' = ?d # drop (Suc t) buf"
      using IH lt by (simp add: drop_update_swap upd_conv_take_nth_drop del: of_nat_add) 
    have "buf' ! t = ?d" using dt lt IH by (metis hd_drop_conv_nth list.sel(1))
    then have "take (Suc t - t') (drop t' buf') = take (t - t') (drop t' buf') @ [?d]"
    proof -
      have "t - t' < length (drop t' buf')" "drop t' buf' ! (t - t') = buf' ! t"
        using IH lt by auto
      moreover have "Suc t - t' = Suc (t - t')" using IH by (simp add: Suc_diff_le)
      ultimately show ?thesis using \<open>buf' ! t = ?d\<close> by (simp only: take_Suc_conv_app_nth)
    qed
    moreover have "drop (Suc t) buf' = drop (Suc t) buf"
      using dt by (metis drop_Suc list.sel(3) tl_drop)
    ultimately show ?thesis using IH True by (auto simp: digits_pos [of n] simp del: of_nat_add)
  next
    case False
    then show ?thesis using "2.prems" by auto
  qed
qed auto


text \<open>The string a buffer holds: its bytes before the first NUL.\<close>

definition cstring :: "u8 list \<Rightarrow> u8 list" where
  "cstring buf = takeWhile (\<lambda>c. c \<noteq> 0) buf"

lemma cstring_append: "0 \<notin> set xs \<Longrightarrow> cstring (xs @ 0 # ys) = xs"
  unfolding cstring_def by (induction xs) auto

lemma cstring_zero: "buf \<noteq> [] \<Longrightarrow> cstring (buf[0 := 0]) = []"
  unfolding cstring_def by (cases buf) auto

lemma lwip_itoa_fits:
  assumes loop: "itoa_loop buf res (length buf - 1) n = (buf', tmp, 0)"
    and "0 < n" "res < length buf" "buf ! (length buf - 1) = 0" "0 \<notin> set (take res buf)"
  shows "buf' ! tmp \<noteq> 0 \<and> length buf' = length buf
    \<and> length (memmove buf' res tmp (length buf - tmp)) = length buf
    \<and> cstring (memmove buf' res tmp (length buf - tmp)) = take res buf @ digits n"
proof -
  let ?t = "length buf - 1"
  have S: "res \<le> tmp" "tmp \<le> ?t" "length buf' = length buf" "take tmp buf' = take tmp buf"
    "drop ?t buf' = drop ?t buf" "digits n = take (?t - tmp) (drop tmp buf')"
    using itoa_loop_spec [OF loop] assms(3) by auto
  have "drop ?t buf = [0]"
    using assms(3,4) by (metis Cons_nth_drop_Suc One_nat_def Suc_diff_1 Suc_lessD diff_less drop_all
        gr_implies_not0 le_refl length_greater_0_conv list.size(3) zero_less_Suc not_gr_zero)
  then have seg: "drop tmp buf' = digits n @ [0]"
    using S by (metis append_take_drop_id drop_drop le_add_diff_inverse2)
  then have nz: "buf' ! tmp \<noteq> 0"
    using digits_nonzero [of n] \<open>0 < n\<close> S(2,3) assms(3)
    by (metis (no_types, lifting) Suc_diff_1 append_is_Nil_conv digits_eq_Nil gr_implies_not0 hd_append2
        hd_drop_conv_nth hd_in_set le_imp_less_Suc length_greater_0_conv list.size(3) not_less_zero)
  have r: "take res buf' = take res buf"
    using S by (metis min.absorb1 take_take)
  have len: "length (digits n) + 1 = length buf - tmp"
    using arg_cong [OF seg, of length] S(3) by simp
  have mm: "memmove buf' res tmp (length buf - tmp) =
      take res buf @ digits n @ 0 # drop (res + (length buf - tmp)) buf'"
    unfolding memmove_def r seg using len by simp
  show ?thesis
    using nz S(1,2,3) assms(3,5) digits_nonzero [of n] len
    unfolding mm by (auto simp: cstring_append [of "take res buf @ digits n", simplified])
qed

text \<open>C24. For every \<open>int\<close> but the least, and a buffer of at least two bytes, \<open>lwip_itoa\<close> leaves
  the decimal text of the number in the buffer as a C string, and the empty string when the
  text and its NUL do not fit.\<close>

theorem lwip_itoa_spec:
  assumes "- (2 ^ 31) < number" "number < 2 ^ 31" "2 \<le> length result"
  shows "\<exists>buf. lwip_itoa result number = Some buf \<and> length buf = length result
    \<and> cstring buf = (if length (itoa_text number) < length result then itoa_text number else [])"
proof -
  define n where "n = nat \<bar>number\<bar>"
  define res where "res = (if number < 0 then 1 else 0 :: nat)"
  define buf where "buf = (if number < 0 then result[0 := 45] else result)[length result - 1 := 0]"
  obtain buf' tmp n' where loop: "itoa_loop buf res (length result - 1) n = (buf', tmp, n')"
    by (metis prod_cases3)
  have lb: "length buf = length result" by (simp add: buf_def)
  have code: "lwip_itoa result number =
     (if n' \<noteq> 0 then Some (buf'[0 := 0])
      else if buf' ! tmp = 0 then Some (buf'[res := 48, Suc res := 0])
      else Some (memmove buf' res tmp (length result - tmp)))"
    using assms loop unfolding lwip_itoa_def n_def res_def buf_def
    by (cases "number < 0") (simp_all add: Let_def)
  have tk: "take res buf = (if number < 0 then [45] else [])"
    using assms(3) unfolding res_def buf_def
    by (cases result; cases "tl result") (auto split: nat.splits)
  have last: "buf ! (length buf - 1) = 0"
    using assms(3) by (cases "result = []") (auto simp: buf_def)
  have rl: "res < length buf" using assms(3) by (auto simp: lb res_def)
  have S: "res \<le> tmp" "tmp \<le> length result - 1" "length buf' = length buf" "n' = 0 \<or> tmp = res"
    "drop (length result - 1) buf' = drop (length result - 1) buf"
    "digits n = digits n' @ take (length result - 1 - tmp) (drop tmp buf')"
    using itoa_loop_spec [OF loop] rl lb by auto
  have seglen: "length (digits n) = length (digits n') + (length result - 1 - tmp)"
    using arg_cong [OF S(6), of length] S(2,3) lb by simp
  show ?thesis
  proof (cases "n = 0")
    case True
    then have "number = 0" "res = 0" "n' = 0" "tmp = length result - 1" "buf' = buf"
      using S(6) loop by (auto simp: n_def res_def elim: itoa_loop.elims)
    then show ?thesis
      using code last lb assms(3)
      by (cases buf; cases "tl buf") (auto simp: itoa_text_def cstring_def)
  next
    case False
    then have txt1: "itoa_text number = take res buf @ digits n"
      unfolding itoa_text_def tk n_def by simp
    have tl: "length (itoa_text number) = res + length (digits n)" using txt1 rl by simp
    show ?thesis
    proof (cases "n' = 0")
      case True
      have z: "0 \<notin> set (take res buf)" by (simp add: tk)
      note F = lwip_itoa_fits [OF _ _ rl last z, of n buf' tmp]
      show ?thesis using F loop True False code txt1 tl seglen S(1,2) rl lb by auto
    next
      case nz: False
      have "0 < length (digits n')" using nz by simp
      then have "\<not> length (itoa_text number) < length result"
        using S(2,4) seglen nz tl assms(3) by linarith
      moreover have "buf' \<noteq> []" using S(3) rl by auto
      ultimately show ?thesis using code nz S(3) lb by (simp add: cstring_zero)
    qed
  qed
qed

theorem lwip_itoa_spec_witness:
  "\<exists>buf. lwip_itoa (replicate 5 7) (- 305) = Some buf \<and> length buf = 5
    \<and> cstring buf = [45, 51, 48, 53]"
proof -
  have "itoa_text (- 305) = [45, 51, 48, 53]" by code_simp
  then show ?thesis using lwip_itoa_spec [of "- 305" "replicate 5 7"] by simp
qed

lemma xor_eq_0_u8: "a XOR b = 0 \<longleftrightarrow> a = (b :: u8)"
  by (metis bit.xor_self xor.assoc xor.right_neutral xor_self_eq)

lemma memcmp_loop_zero:
  "length as = length bs \<Longrightarrow> memcmp_loop ret as bs = 0 \<longleftrightarrow> ret = 0 \<and> as = bs"
proof (induction ret as bs rule: memcmp_loop.induct)
  case (1 ret a as b bs)
  then show ?case by (auto simp: or_eq_0_iff xor_eq_0_u8)
qed auto

theorem lwip_memcmp_consttime_spec:
  assumes "len \<le> length s1" "len \<le> length s2"
  shows "lwip_memcmp_consttime s1 s2 len = 0 \<longleftrightarrow> take len s1 = take len s2"
  unfolding lwip_memcmp_consttime_def using assms by (simp add: memcmp_loop_zero)

end
