(* ===== verification/Inet_Chksum.thy ===== *)
theory Inet_Chksum
  imports Lwip_Def
begin

section \<open>Internet checksum (inet\_chksum.c)\<close>

text \<open>
  The three implementations of \<open>lwip_standard_chksum\<close>, of which the configuration picks one
  (number 2 by default), and the checksums built on it: over a buffer, over a pbuf chain and
  over a chain with the IPv4 pseudo header, whole or in part. Memory is read on a
  little-endian host. A buffer is its address, of which the alignment matters, and its bytes;
  a chain is the list of its buffers. The reference is the sum of RFC 1071, the
  ones'-complement sum of the big-endian 16-bit words of the zero-padded data: every
  implementation computes it, at every alignment and for every way to cut the data into
  buffers.
\<close>

type_synonym buffer = "nat \<times> u8 list"

subsection \<open>Folding and swapping\<close>

definition FOLD_U32T :: "u32 \<Rightarrow> u32" where
  "FOLD_U32T u = drop_bit 16 u + (u AND 0x0000ffff)"

definition SWAP_BYTES_IN_WORD :: "u32 \<Rightarrow> u32" where
  "SWAP_BYTES_IN_WORD w = push_bit 8 (w AND 0xff) OR drop_bit 8 (w AND 0xff00)"

subsection \<open>The three implementations\<close>

text \<open>Version 1: big-endian words, the sum is byte-swapped at the end.\<close>

fun chksum1_loop :: "u32 \<Rightarrow> u8 list \<Rightarrow> u32" where
  "chksum1_loop acc (a # b # octets) =
     (let src = push_bit 8 (ucast a) OR (ucast b :: u16) in chksum1_loop (acc + ucast src) octets)"
| "chksum1_loop acc [a] = (let src = push_bit 8 (ucast a :: u16) in acc + ucast src)"
| "chksum1_loop acc [] = acc"

definition lwip_standard_chksum1 :: "u8 list \<Rightarrow> u16" where
  "lwip_standard_chksum1 data =
     (let acc = chksum1_loop 0 data;
          acc = drop_bit 16 acc + (acc AND 0x0000ffff);
          acc = (if acc AND 0xffff0000 \<noteq> 0 then drop_bit 16 acc + (acc AND 0x0000ffff) else acc)
      in lwip_htons (ucast acc))"

text \<open>Version 2: aligned 16-bit reads. A leading odd byte and a trailing byte are collected in
  \<open>t\<close>, of which \<open>t0\<close> is the byte at the lower address.\<close>

fun chksum_u16_loop :: "u32 \<Rightarrow> u8 list \<Rightarrow> u32 \<times> u8 list" where
  "chksum_u16_loop su (a # b # ps) = chksum_u16_loop (su + of_nat (le16 a b)) ps"
| "chksum_u16_loop su ps = (su, ps)"

definition lwip_standard_chksum2 :: "nat \<Rightarrow> u8 list \<Rightarrow> u16" where
  "lwip_standard_chksum2 addr data =
     (let is_odd = odd addr;
          (t1, pb) = (if is_odd \<and> data \<noteq> [] then (hd data, tl data) else (0, data));
          (su, ps) = chksum_u16_loop 0 pb;
          t0 = (if ps \<noteq> [] then hd ps else 0);
          su = su + of_nat (le16 t0 t1);
          su = FOLD_U32T su;
          su = FOLD_U32T su
      in ucast (if is_odd then SWAP_BYTES_IN_WORD su else su))"

text \<open>Version 3: aligned 32-bit reads, two per iteration, with the carry added back.\<close>

definition le32 :: "u8 \<Rightarrow> u8 \<Rightarrow> u8 \<Rightarrow> u8 \<Rightarrow> nat" where
  "le32 a b c d = le16 a b + 65536 * le16 c d"

definition add_carry :: "u32 \<Rightarrow> u32 \<Rightarrow> u32" where
  "add_carry su v = (let tmp = su + v in if tmp < su then tmp + 1 else tmp)"

fun chksum_u32_loop :: "u32 \<Rightarrow> u8 list \<Rightarrow> u32 \<times> u8 list" where
  "chksum_u32_loop su (a # b # c # d # e # f # g # h # pl) =
     (let tmp = add_carry su (of_nat (le32 a b c d))
      in chksum_u32_loop (add_carry tmp (of_nat (le32 e f g h))) pl)"
| "chksum_u32_loop su pl = (su, pl)"

definition lwip_standard_chksum3 :: "nat \<Rightarrow> u8 list \<Rightarrow> u16" where
  "lwip_standard_chksum3 addr data =
     (let is_odd = odd addr;
          (t1, addr, ps) =
            (if is_odd \<and> data \<noteq> [] then (hd data, addr + 1, tl data) else (0, addr, data));
          (su, pl) =
            (if addr mod 4 \<noteq> 0 \<and> 1 < length ps then (of_nat (le16 (ps ! 0) (ps ! 1)), drop 2 ps)
             else (0, ps));
          (su, ps) = chksum_u32_loop su pl;
          su = FOLD_U32T su;
          (su, ps) = chksum_u16_loop su ps;
          t0 = (if ps \<noteq> [] then hd ps else 0);
          su = su + of_nat (le16 t0 t1);
          su = FOLD_U32T su;
          su = FOLD_U32T su
      in ucast (if is_odd then SWAP_BYTES_IN_WORD su else su))"

text \<open>\<open>LWIP_CHKSUM\<close> is version 2 unless the port defines another one.\<close>

definition LWIP_CHKSUM :: "nat \<Rightarrow> u8 list \<Rightarrow> u16" where
  "LWIP_CHKSUM = lwip_standard_chksum2"

subsection \<open>Checksums over buffers and chains\<close>

definition inet_chksum :: "nat \<Rightarrow> u8 list \<Rightarrow> u16" where
  "inet_chksum addr data = NOT (LWIP_CHKSUM addr data)"

text \<open>The loop over a chain, shared by the checksums below: the accumulator and \<open>swapped\<close>.\<close>

fun chain_loop :: "u32 \<Rightarrow> bool \<Rightarrow> buffer list \<Rightarrow> u32 \<times> bool" where
  "chain_loop acc swapped [] = (acc, swapped)"
| "chain_loop acc swapped ((addr, data) # q) =
     (let acc = acc + ucast (LWIP_CHKSUM addr data);
          acc = FOLD_U32T acc
      in if length data mod 2 \<noteq> 0
         then chain_loop (SWAP_BYTES_IN_WORD acc) (\<not> swapped) q
         else chain_loop acc swapped q)"

definition inet_chksum_pbuf :: "buffer list \<Rightarrow> u16" where
  "inet_chksum_pbuf p =
     (let (acc, swapped) = chain_loop 0 False p;
          acc = (if swapped then SWAP_BYTES_IN_WORD acc else acc)
      in ucast (NOT (acc AND 0xffff)))"

definition inet_cksum_pseudo_base :: "buffer list \<Rightarrow> u8 \<Rightarrow> u16 \<Rightarrow> u32 \<Rightarrow> u16" where
  "inet_cksum_pseudo_base p proto proto_len acc =
     (let (acc, swapped) = chain_loop acc False p;
          acc = (if swapped then SWAP_BYTES_IN_WORD acc else acc);
          acc = acc + ucast (lwip_htons (ucast proto));
          acc = acc + ucast (lwip_htons proto_len);
          acc = FOLD_U32T acc;
          acc = FOLD_U32T acc
      in ucast (NOT (acc AND 0xffff)))"

text \<open>The addresses are in network byte order, as in \<open>ip4_addr_t\<close>.\<close>

definition pseudo_addr_acc :: "u32 \<Rightarrow> u32 \<Rightarrow> u32" where
  "pseudo_addr_acc src dest =
     (let acc = src AND 0xffff;
          acc = acc + (drop_bit 16 src AND 0xffff);
          acc = acc + (dest AND 0xffff);
          acc = acc + (drop_bit 16 dest AND 0xffff);
          acc = FOLD_U32T acc
      in FOLD_U32T acc)"

definition inet_chksum_pseudo :: "buffer list \<Rightarrow> u8 \<Rightarrow> u16 \<Rightarrow> u32 \<Rightarrow> u32 \<Rightarrow> u16" where
  "inet_chksum_pseudo p proto proto_len src dest =
     inet_cksum_pseudo_base p proto proto_len (pseudo_addr_acc src dest)"

definition ip_chksum_pseudo :: "buffer list \<Rightarrow> u8 \<Rightarrow> u16 \<Rightarrow> u32 \<Rightarrow> u32 \<Rightarrow> u16" where
  "ip_chksum_pseudo = inet_chksum_pseudo"

text \<open>The partial checksum stops after \<open>chksum_len\<close> bytes. \<open>None\<close> is a failed assertion on the
  bytes that are left after a buffer.\<close>

fun partial_loop :: "u32 \<Rightarrow> bool \<Rightarrow> u16 \<Rightarrow> buffer list \<Rightarrow> (u32 \<times> bool) option" where
  "partial_loop acc swapped chksum_len [] = Some (acc, swapped)"
| "partial_loop acc swapped chksum_len ((addr, data) # q) =
     (if chksum_len > 0 then
        let chklen = (if length data > unat chksum_len then unat chksum_len else length data);
            acc = acc + ucast (LWIP_CHKSUM addr (take chklen data));
            chksum_len = of_nat (unat chksum_len - chklen)
        in if \<not> chksum_len < 0x7fff then None
           else
             let acc = FOLD_U32T acc
             in if length data mod 2 \<noteq> 0
                then partial_loop (SWAP_BYTES_IN_WORD acc) (\<not> swapped) chksum_len q
                else partial_loop acc swapped chksum_len q
      else Some (acc, swapped))"

definition inet_cksum_pseudo_partial_base ::
    "buffer list \<Rightarrow> u8 \<Rightarrow> u16 \<Rightarrow> u16 \<Rightarrow> u32 \<Rightarrow> u16 option" where
  "inet_cksum_pseudo_partial_base p proto proto_len chksum_len acc =
     (case partial_loop acc False chksum_len p of
        None \<Rightarrow> None
      | Some (acc, swapped) \<Rightarrow>
          let acc = (if swapped then SWAP_BYTES_IN_WORD acc else acc);
              acc = acc + ucast (lwip_htons (ucast proto));
              acc = acc + ucast (lwip_htons proto_len);
              acc = FOLD_U32T acc;
              acc = FOLD_U32T acc
          in Some (ucast (NOT (acc AND 0xffff))))"

definition inet_chksum_pseudo_partial ::
    "buffer list \<Rightarrow> u8 \<Rightarrow> u16 \<Rightarrow> u16 \<Rightarrow> u32 \<Rightarrow> u32 \<Rightarrow> u16 option" where
  "inet_chksum_pseudo_partial p proto proto_len chksum_len src dest =
     inet_cksum_pseudo_partial_base p proto proto_len chksum_len (pseudo_addr_acc src dest)"

definition ip_chksum_pseudo_partial ::
    "buffer list \<Rightarrow> u8 \<Rightarrow> u16 \<Rightarrow> u16 \<Rightarrow> u32 \<Rightarrow> u32 \<Rightarrow> u16 option" where
  "ip_chksum_pseudo_partial = inet_chksum_pseudo_partial"

text \<open>Copy and checksum: the destination is a buffer of at least \<open>len\<close> bytes.\<close>

definition lwip_chksum_copy :: "buffer \<Rightarrow> u8 list \<Rightarrow> u16 \<Rightarrow> u8 list \<times> u16" where
  "lwip_chksum_copy dst src len =
     (let dst' = take (unat len) src @ drop (unat len) (snd dst)
      in (dst', LWIP_CHKSUM (fst dst) (take (unat len) dst')))"

subsection \<open>The reference sum\<close>

definition ones_add :: "nat \<Rightarrow> nat \<Rightarrow> nat" where
  "ones_add a b = (if a + b < 65536 then a + b else a + b - 65535)"

fun rfc1071 :: "u8 list \<Rightarrow> nat" where
  "rfc1071 (a # b # data) = ones_add (256 * unat a + unat b) (rfc1071 data)"
| "rfc1071 [a] = 256 * unat a"
| "rfc1071 [] = 0"

text \<open>Ones'-complement arithmetic modulo 65535, with 65535 for a nonzero multiple.\<close>

definition oc16 :: "nat \<Rightarrow> nat" where
  "oc16 n = (if n = 0 then 0 else (n - 1) mod 65535 + 1)"

fun le_num :: "u8 list \<Rightarrow> nat" where
  "le_num [] = 0"
| "le_num (a # data) = unat a + 256 * le_num data"

lemma unat_u16_le: "unat (a :: u16) \<le> 65535"
  using unat_u16_less [of a] by linarith

lemma oc16_cong: "oc16 n mod 65535 = n mod 65535"
proof (cases n)
  case (Suc m)
  have "(m mod 65535 + 1) mod 65535 = (m + 1) mod 65535" by (rule mod_add_left_eq)
  then show ?thesis unfolding oc16_def Suc by simp
qed (simp add: oc16_def)

lemma oc16_zero [simp]: "oc16 n = 0 \<longleftrightarrow> n = 0"
  by (simp add: oc16_def)

lemma oc16_le: "oc16 n \<le> 65535"
proof -
  have "(n - 1) mod 65535 < 65535" by simp
  then show ?thesis unfolding oc16_def by (simp add: Suc_le_eq)
qed

lemma oc16_less: "oc16 n < 65536"
  using oc16_le [of n] by linarith

lemma oc16_id: "n \<le> 65535 \<Longrightarrow> oc16 n = n"
  by (auto simp: oc16_def)

text \<open>Two numbers have the same ones'-complement value.\<close>

definition oceq :: "nat \<Rightarrow> nat \<Rightarrow> bool" where
  "oceq m n \<longleftrightarrow> m mod 65535 = n mod 65535 \<and> (m = 0 \<longleftrightarrow> n = 0)"

lemma oceq_oc16: "oceq m n \<longleftrightarrow> oc16 m = oc16 n"
proof
  assume o: "oceq m n"
  show "oc16 m = oc16 n"
  proof (cases "n = 0")
    case False
    then obtain m' n' where mn: "m = Suc m'" "n = Suc n'"
      using o by (metis oceq_def not0_implies_Suc)
    then have "(m' + 1) mod 65535 = (n' + 1) mod 65535" using o by (simp add: oceq_def)
    then have "(m' + 1 + 65534) mod 65535 = (n' + 1 + 65534) mod 65535" by (metis mod_add_left_eq)
    then have "m' mod 65535 = n' mod 65535" by simp
    then show ?thesis by (simp add: oc16_def mn)
  qed (use o in \<open>simp add: oceq_def\<close>)
next
  assume "oc16 m = oc16 n"
  then show "oceq m n" unfolding oceq_def by (metis oc16_cong oc16_zero)
qed

lemma oceq_refl [simp]: "oceq n n" by (simp add: oceq_oc16)

lemma oceq_sym: "oceq m n \<Longrightarrow> oceq n m" by (simp add: oceq_oc16)

lemma oceq_trans [trans]: "oceq m n \<Longrightarrow> oceq n k \<Longrightarrow> oceq m k" by (simp add: oceq_oc16)

lemma oceq_add: "oceq a b \<Longrightarrow> oceq c d \<Longrightarrow> oceq (a + c) (b + d)"
  unfolding oceq_def using mod_add_cong [of a 65535 b c d] by simp

lemma oceq_256: "oceq a b \<Longrightarrow> oceq (256 * a) (256 * b)"
  unfolding oceq_def by (metis mod_mult_right_eq mult_is_0)

lemma oceq_65536: "oceq (65536 * a + b) (a + b)"
proof -
  have "65536 * a + b = a + b + 65535 * a" by simp
  then have "(65536 * a + b) mod 65535 = (a + b) mod 65535" by (metis mod_mult_self2)
  then show ?thesis by (auto simp: oceq_def)
qed

lemma oceq_256_256: "oceq (256 * (256 * a)) a"
  using oceq_65536 [of a 0] by (simp add: algebra_simps)

lemma oceq_le: "oceq m n \<Longrightarrow> m \<le> 65535 \<Longrightarrow> m = oc16 n"
  by (metis oceq_oc16 oc16_id)

subsection \<open>Folding and swapping\<close>

lemma unat_and_ffff: "unat (u AND 0xffff :: u32) = unat u mod 65536"
  using unat_take_mask [of u 16] by (simp add: mask_eq_exp_minus_1)

lemma unat_FOLD: "unat (FOLD_U32T u) = unat u div 65536 + unat u mod 65536"
proof -
  have "unat u div 65536 < 65536" using unat_u32_less [of u] by (simp add: less_mult_imp_div_less)
  moreover have "unat u mod 65536 < 65536" by simp
  ultimately have "(unat u div 65536 + unat u mod 65536) mod 4294967296 = unat u div 65536 + unat u mod 65536"
    by simp
  then show ?thesis by (simp add: FOLD_U32T_def unat_u32_add unat_drop_bit unat_and_ffff)
qed

lemma FOLD_oceq: "oceq (unat (FOLD_U32T u)) (unat u)"
  using oceq_65536 [of "unat u div 65536" "unat u mod 65536"] by (simp add: unat_FOLD oceq_sym)

lemma FOLD_le: "unat u < 65536 * k \<Longrightarrow> unat (FOLD_U32T u) \<le> 65535 + (k - 1)"
proof -
  assume "unat u < 65536 * k"
  then have "unat u div 65536 < k" by (simp add: less_mult_imp_div_less mult.commute)
  moreover have "unat u mod 65536 < 65536" by simp
  ultimately show ?thesis unfolding unat_FOLD by linarith
qed

lemma FOLD_le_131070: "unat u \<le> 131070 \<Longrightarrow> unat (FOLD_U32T u) \<le> 65535"
  unfolding unat_FOLD by (cases "unat u < 65536") (auto simp: le_div_geq le_mod_geq)

lemma FOLD_FOLD: "unat (FOLD_U32T (FOLD_U32T u)) = oc16 (unat u)"
proof (rule oceq_le)
  show "oceq (unat (FOLD_U32T (FOLD_U32T u))) (unat u)"
    by (rule oceq_trans [OF FOLD_oceq FOLD_oceq])
  have "unat (FOLD_U32T u) \<le> 131070"
    using FOLD_le [of u 65536] by simp
  then show "unat (FOLD_U32T (FOLD_U32T u)) \<le> 65535" by (rule FOLD_le_131070)
qed

lemma unat_SWAP: "unat u < 65536 \<Longrightarrow> unat (SWAP_BYTES_IN_WORD u) = 256 * (unat u mod 256) + unat u div 256"
proof -
  assume a: "unat u < 65536"
  define v where "v = (ucast u :: u16)"
  have uv: "u = ucast v"
    using a by (simp add: v_def word_unat_eq_iff unat_ucast_u32_u16)
  have "SWAP_BYTES_IN_WORD (ucast v) = ucast (lwip_htons v)"
    unfolding SWAP_BYTES_IN_WORD_def mask8_u32
    by (rule bit_word_eqI) (auto simp: bit_simps bit_lwip_htons add.commute)
  then show ?thesis using uv by (simp add: unat_lwip_htons)
qed

lemma SWAP_oceq: "unat u < 65536 \<Longrightarrow> oceq (unat (SWAP_BYTES_IN_WORD u)) (256 * unat u)"
proof -
  assume "unat u < 65536"
  moreover have "256 * unat u = 65536 * (unat u div 256) + 256 * (unat u mod 256)"
    using mult_div_mod_eq [of 256 "unat u"] by linarith
  ultimately show ?thesis
    using oceq_65536 [of "unat u div 256" "256 * (unat u mod 256)"]
    by (simp add: unat_SWAP add.commute oceq_sym)
qed

lemma SWAP_le: "unat u < 65536 \<Longrightarrow> unat (SWAP_BYTES_IN_WORD u) \<le> 65535"
proof -
  assume a: "unat u < 65536"
  then have "unat u div 256 < 256" by (simp add: less_mult_imp_div_less)
  moreover have "unat u mod 256 < 256" by simp
  ultimately show ?thesis unfolding unat_SWAP [OF a] by linarith
qed

subsection \<open>The data as a number\<close>

lemma le_num_append: "oceq (le_num (xs @ ys)) (le_num xs + 256 ^ (length xs mod 2) * le_num ys)"
proof (induction xs)
  case (Cons a xs)
  let ?y = "le_num ys"
  have "oceq (le_num ((a # xs) @ ys)) (unat a + 256 * (le_num xs + 256 ^ (length xs mod 2) * ?y))"
    using oceq_add [OF oceq_refl oceq_256 [OF Cons.IH]] by simp
  also have "unat a + 256 * (le_num xs + 256 ^ (length xs mod 2) * ?y)
      = le_num (a # xs) + 256 * (256 ^ (length xs mod 2) * ?y)"
    by simp
  also have "oceq \<dots> (le_num (a # xs) + 256 ^ (length (a # xs) mod 2) * ?y)"
  proof (cases "even (length xs)")
    case False
    then show ?thesis using oceq_add [OF oceq_refl oceq_256_256 [of ?y]] by (simp add: odd_iff_mod_2_eq_one)
  qed (simp add: even_iff_mod_2_eq_zero mod_Suc)
  finally show ?case .
qed simp

lemma le_num_pair: "oceq (le_num (a # b # xs)) (le16 a b + le_num xs)"
  using oceq_65536 [of "le_num xs" "le16 a b"] by (simp add: le16_def algebra_simps)

lemma le_num_pair_2: "2 \<le> length ps \<Longrightarrow> oceq (le_num ps) (le16 (ps ! 0) (ps ! 1) + le_num (drop 2 ps))"
  using le_num_pair by (cases ps; cases "tl ps") (auto simp: numeral_2_eq_2)

lemma chksum_u16_loop_spec:
  assumes "chksum_u16_loop su data = (su', ps)"
    and "unat su + 65535 * (length data div 2) < 4294967296"
  shows "oceq (unat su + le_num data) (unat su' + le_num ps) \<and> length ps = length data mod 2
    \<and> unat su' \<le> unat su + 65535 * (length data div 2)"
  using assms
proof (induction su data rule: chksum_u16_loop.induct)
  case (1 su a b data)
  have u: "unat (su + of_nat (le16 a b)) = unat su + le16 a b"
  proof -
    have "le16 a b \<le> 65535" using le16_less [of a b] by linarith
    then have "unat su + le16 a b < 4294967296" using "1.prems"(2) by simp
    then show ?thesis by (simp add: unat_u32_add unat_u32_of_nat)
  qed
  have b: "le16 a b \<le> 65535" using le16_less [of a b] by linarith
  have IH: "oceq (unat su + le16 a b + le_num data) (unat su' + le_num ps)
      \<and> length ps = length data mod 2
      \<and> unat su' \<le> unat su + le16 a b + 65535 * (length data div 2)"
    using "1.IH" "1.prems" b u by simp
  have "oceq (unat su + le_num (a # b # data)) (unat su + le16 a b + le_num data)"
    using oceq_add [OF oceq_refl le_num_pair] by (simp only: add.assoc)
  then show ?case using IH b oceq_trans by (auto intro: order_trans)
qed auto

lemma le16_tail: "length ps \<le> 1 \<Longrightarrow> le16 (if ps \<noteq> [] then hd ps else 0) t = le_num ps + 256 * unat t"
  by (cases ps) (auto simp: le16_def)

text \<open>The common end of versions 2 and 3: the end bytes are added, the sum folded and swapped.\<close>

lemma chksum_end:
  fixes su :: u32 and t :: u8
  assumes "length ps \<le> 1" "unat su \<le> 4294901760"
  defines "r \<equiv> FOLD_U32T (FOLD_U32T (su + of_nat (le16 (if ps \<noteq> [] then hd ps else 0) t)))"
  shows "unat r = oc16 (unat su + le_num ps + 256 * unat t)"
    and "unat (SWAP_BYTES_IN_WORD r) = oc16 (256 * (unat su + le_num ps) + unat t)"
proof -
  let ?e = "le16 (if ps \<noteq> [] then hd ps else 0) t"
  have "?e < 65536" by (rule le16_less)
  then have "unat (su + of_nat ?e) = unat su + ?e"
    using assms(2) by (simp add: unat_u32_add unat_u32_of_nat del: le16_less)
  then show r: "unat r = oc16 (unat su + le_num ps + 256 * unat t)"
    unfolding r_def FOLD_FOLD le16_tail [OF assms(1)] by (simp add: add.assoc)
  then have lt: "unat r < 65536" by (simp add: oc16_less)
  have "oceq (unat r) (unat su + le_num ps + 256 * unat t)"
    by (metis r oceq_oc16 oc16_id oc16_le)
  then have "oceq (256 * unat r) (256 * (unat su + le_num ps) + 256 * (256 * unat t))"
    using oceq_256 by fastforce
  also have "oceq \<dots> (256 * (unat su + le_num ps) + unat t)"
    by (rule oceq_add [OF oceq_refl oceq_256_256])
  finally show "unat (SWAP_BYTES_IN_WORD r) = oc16 (256 * (unat su + le_num ps) + unat t)"
    using oceq_le [OF oceq_trans [OF SWAP_oceq [OF lt]] SWAP_le [OF lt]] by blast
qed

lemma unat_ucast_small: "unat (u :: u32) < 65536 \<Longrightarrow> unat (ucast u :: u16) = unat u"
  by (simp add: unat_ucast_u32_u16)

lemma lwip_standard_chksum2_oc16:
  assumes "length data \<le> 131072"
  shows "unat (lwip_standard_chksum2 addr data) = oc16 (le_num data)"
proof (cases "odd addr \<and> data \<noteq> []")
  case False
  obtain su ps where l: "chksum_u16_loop 0 data = (su, ps)" by fastforce
  have S: "oceq (le_num data) (unat su + le_num ps)" "length ps = length data mod 2"
      "unat su \<le> 65535 * (length data div 2)"
    using chksum_u16_loop_spec [OF l] assms by auto
  have p: "length ps \<le> 1" "unat su \<le> 4294901760" using S assms by auto
  have e: "oc16 (unat su + le_num ps) = oc16 (le_num data)" using S(1) by (simp add: oceq_oc16)
  show ?thesis
  proof (cases "odd addr")
    case True
    then have "data = []" using False by blast
    then show ?thesis using True
      by (simp add: lwip_standard_chksum2_def le16_def FOLD_U32T_def SWAP_BYTES_IN_WORD_def oc16_def)
  next
    case False
    then have "lwip_standard_chksum2 addr data
       = ucast (FOLD_U32T (FOLD_U32T (su + of_nat (le16 (if ps \<noteq> [] then hd ps else 0) 0))))"
      by (simp add: lwip_standard_chksum2_def l Let_def)
    then show ?thesis
      using chksum_end(1) [OF p, of 0] e by (simp add: unat_ucast_small oc16_less)
  qed
next
  case True
  then obtain t data' where d: "data = t # data'" by (cases data) auto
  obtain su ps where l: "chksum_u16_loop 0 data' = (su, ps)" by fastforce
  have S: "oceq (le_num data') (unat su + le_num ps)" "length ps = length data' mod 2"
      "unat su \<le> 65535 * (length data' div 2)"
    using chksum_u16_loop_spec [OF l] assms d by auto
  have p: "length ps \<le> 1" "unat su \<le> 4294901760" using S assms d by auto
  have e: "oc16 (256 * (unat su + le_num ps) + unat t) = oc16 (le_num data)"
    using oceq_add [OF oceq_256 [OF S(1)] oceq_refl [of "unat t"]]
    by (simp add: oceq_oc16 d add.commute)
  have "lwip_standard_chksum2 addr data
     = ucast (SWAP_BYTES_IN_WORD (FOLD_U32T (FOLD_U32T (su + of_nat (le16 (if ps \<noteq> [] then hd ps else 0) t)))))"
    using True by (simp add: lwip_standard_chksum2_def l Let_def d)
  then show ?thesis
    using chksum_end(2) [OF p, of t] e by (simp add: unat_ucast_small oc16_less)
qed

text \<open>Version 3.\<close>

lemma add_carry_oceq: "oceq (unat (add_carry su v)) (unat su + unat v)"
proof (cases "unat su + unat v < 4294967296")
  case True
  then have "unat (su + v) = unat su + unat v" by (simp add: unat_u32_add)
  then show ?thesis by (simp add: add_carry_def Let_def word_less_nat_alt)
next
  case False
  let ?s = "unat su + unat v - 4294967296"
  have lt: "?s < unat su" using False unat_u32_less [of v] by linarith
  then have "?s < 4294967296" using unat_u32_less [of su] by linarith
  then have u: "unat (su + v) = ?s" using False by (simp add: unat_u32_add le_mod_geq)
  then have "unat (add_carry su v) = (?s + 1) mod 4294967296"
    using lt by (simp add: add_carry_def Let_def word_less_nat_alt unat_u32_add)
  also have "?s + 1 < 4294967296" using lt unat_u32_less [of su] by linarith
  then have "(?s + 1) mod 4294967296 = ?s + 1" by (rule mod_less)
  finally have r: "unat (add_carry su v) = ?s + 1" .
  have "unat su + unat v = ?s + 1 + 65535 * 65537" using False by simp
  then have "(unat su + unat v) mod 65535 = (?s + 1) mod 65535" by (metis mod_mult_self2)
  then show ?thesis using False unfolding oceq_def r by auto
qed

lemma le32_oceq: "oceq (le32 a b c d) (le16 a b + le16 c d)"
  using oceq_65536 [of "le16 c d" "le16 a b"] by (simp add: le32_def add.commute)

lemma unat_le32: "unat (of_nat (le32 a b c d) :: u32) = le32 a b c d"
  using le16_less [of a b] le16_less [of c d] unfolding le32_def unat_u32_of_nat
  by (intro mod_less) linarith

lemma add_carry_le32:
  assumes "oceq (unat su + le_num (a # b # c # d # xs)) n"
  shows "oceq (unat (add_carry su (of_nat (le32 a b c d))) + le_num xs) n"
proof -
  have "oceq (le_num (a # b # c # d # xs)) (le16 a b + (le16 c d + le_num xs))"
    by (rule oceq_trans [OF le_num_pair oceq_add [OF oceq_refl le_num_pair]])
  also have "\<dots> = le16 a b + le16 c d + le_num xs" by simp
  also have "oceq \<dots> (le32 a b c d + le_num xs)"
    by (rule oceq_add [OF oceq_sym [OF le32_oceq] oceq_refl])
  finally have "oceq (unat su + le_num (a # b # c # d # xs)) (unat su + le32 a b c d + le_num xs)"
    using oceq_add [OF oceq_refl [of "unat su"]] by (simp only: add.assoc)
  moreover have "oceq (unat (add_carry su (of_nat (le32 a b c d))) + le_num xs) (unat su + le32 a b c d + le_num xs)"
    using oceq_add [OF add_carry_oceq oceq_refl, of su "of_nat (le32 a b c d)"] by (simp only: unat_le32)
  ultimately show ?thesis using assms by (meson oceq_sym oceq_trans)
qed

lemma chksum_u32_loop_spec:
  "chksum_u32_loop su data = (su', ps) \<Longrightarrow>
   oceq (unat su + le_num data) (unat su' + le_num ps) \<and> length ps < 8"
proof (induction su data rule: chksum_u32_loop.induct)
  case (1 su a b c d e f g h pl)
  let ?x = "add_carry su (of_nat (le32 a b c d))"
  let ?y = "add_carry ?x (of_nat (le32 e f g h))"
  have "oceq (unat ?y + le_num pl) (unat su + le_num (a # b # c # d # e # f # g # h # pl))"
    by (rule add_carry_le32, rule add_carry_le32) (rule oceq_refl)
  then show ?case using "1.IH" "1.prems" by (auto simp: Let_def intro: oceq_sym oceq_trans)
qed auto

text \<open>The 32-bit part of version 3, with the 16-bit word before it.\<close>

lemma chksum3_middle:
  assumes "(su, pl) = (if al \<and> 1 < length ps then (of_nat (le16 (ps ! 0) (ps ! 1)), drop 2 ps) else (0 :: u32, ps))"
    and "chksum_u32_loop su pl = (su1, ps1)" "chksum_u16_loop (FOLD_U32T su1) ps1 = (su2, ps2)"
  shows "oceq (le_num ps) (unat su2 + le_num ps2)" "length ps2 \<le> 1" "unat su2 \<le> 4294901760"
proof -
  have "oceq (le_num ps) (unat su + le_num pl)"
    using assms(1) le_num_pair_2 [of ps] by (auto simp: unat_u32_of_nat less_trans [OF le16_less] split: if_splits)
  moreover have r: "oceq (unat su + le_num pl) (unat su1 + le_num ps1)" "length ps1 < 8"
    using chksum_u32_loop_spec [OF assms(2)] by auto
  moreover have "oceq (unat su1 + le_num ps1) (unat (FOLD_U32T su1) + le_num ps1)"
    by (rule oceq_add [OF oceq_sym [OF FOLD_oceq] oceq_refl])
  moreover have f: "unat (FOLD_U32T su1) \<le> 131070" using FOLD_le [of su1 65536] by simp
  have "length ps1 div 2 \<le> 3" using r(2) by simp
  then have b: "unat (FOLD_U32T su1) + 65535 * (length ps1 div 2) \<le> 327675" using f by simp
  have S: "oceq (unat (FOLD_U32T su1) + le_num ps1) (unat su2 + le_num ps2)" "length ps2 = length ps1 mod 2"
    "unat su2 \<le> unat (FOLD_U32T su1) + 65535 * (length ps1 div 2)"
    using chksum_u16_loop_spec [OF assms(3)] b by auto
  ultimately show "oceq (le_num ps) (unat su2 + le_num ps2)" by (meson oceq_trans)
  show "length ps2 \<le> 1" using S(2) by simp
  show "unat su2 \<le> 4294901760" using S(3) b by simp
qed

lemma lwip_standard_chksum3_oc16: "unat (lwip_standard_chksum3 addr data) = oc16 (le_num data)"
proof -
  define t1 addr' ps where "t1 = (if odd addr \<and> data \<noteq> [] then hd data else 0)"
    and "addr' = (if odd addr \<and> data \<noteq> [] then addr + 1 else addr)"
    and "ps = (if odd addr \<and> data \<noteq> [] then tl data else data)"
  obtain su pl where m: "(su, pl) = (if addr' mod 4 \<noteq> 0 \<and> 1 < length ps then
      (of_nat (le16 (ps ! 0) (ps ! 1)), drop 2 ps) else (0 :: u32, ps))" by (metis surj_pair)
  obtain su1 ps1 where l: "chksum_u32_loop su pl = (su1, ps1)" by fastforce
  obtain su2 ps2 where k: "chksum_u16_loop (FOLD_U32T su1) ps1 = (su2, ps2)" by fastforce
  define r where "r = FOLD_U32T (FOLD_U32T (su2 + of_nat (le16 (if ps2 \<noteq> [] then hd ps2 else 0) t1)))"
  have split: "(if odd addr \<and> data \<noteq> [] then (hd data, addr + 1, tl data) else (0, addr, data)) = (t1, addr', ps)"
    by (simp add: t1_def addr'_def ps_def)
  have code: "lwip_standard_chksum3 addr data = ucast (if odd addr then SWAP_BYTES_IN_WORD r else r)"
    unfolding lwip_standard_chksum3_def split Let_def r_def prod.case m [symmetric] l k ..
  note M = chksum3_middle [OF m l k]
  note E = chksum_end [OF M(2,3), of t1, folded r_def]
  show ?thesis
  proof (cases "odd addr")
    case False
    then have "ps = data" "t1 = 0" by (simp_all add: ps_def t1_def)
    then show ?thesis using code False E(1) M(1) by (simp add: unat_ucast_small oc16_less oceq_oc16)
  next
    case True
    have "oceq (le_num data) (256 * le_num ps + unat t1)"
      using True by (cases data) (auto simp: ps_def t1_def add.commute)
    also have "oceq \<dots> (256 * (unat su2 + le_num ps2) + unat t1)"
      by (rule oceq_add [OF oceq_256 [OF M(1)] oceq_refl])
    finally show ?thesis using code True E(2) by (simp add: unat_ucast_small oc16_less oceq_oc16)
  qed
qed

text \<open>Version 1 and the reference.\<close>

lemma htons_oceq: "oceq (unat (lwip_htons x)) (256 * unat x)"
proof -
  have "256 * unat x = 65536 * (unat x div 256) + 256 * (unat x mod 256)"
    using mult_div_mod_eq [of 256 "unat x"] by linarith
  then show ?thesis
    using oceq_65536 [of "unat x div 256" "256 * (unat x mod 256)"]
    by (simp only: unat_lwip_htons oceq_oc16 add.commute)
qed

lemma be_pair_oceq: "oceq (256 * unat a + unat b + 256 * n) (256 * (le16 a b + n))"
  using oceq_65536 [of "unat b" "256 * unat a + 256 * n"]
  by (simp add: le16_def oceq_oc16 algebra_simps)

lemma unat_be16: "unat (push_bit 8 (ucast a) OR (ucast b :: u16)) = 256 * unat (a :: u8) + unat (b :: u8)"
proof -
  have d: "push_bit 8 (ucast a) AND (ucast b :: u16) = 0"
    by (rule bit_word_eqI) (auto simp: bit_simps dest: bit_imp_le_length)
  have "push_bit 8 (ucast a) OR (ucast b :: u16) = push_bit 8 (ucast a) + ucast b"
    by (rule disjunctive_add [symmetric]) (metis d bit_and_iff bit_0_eq bot_apply bot_bool_def)
  moreover have "unat (push_bit 8 (ucast a :: u16)) = 256 * unat a"
    using unat_u8_less [of a] by (simp add: push_bit_eq_mult unat_word_ariths)
  moreover have "256 * unat a + unat b < 65536" using unat_u8_less [of a] unat_u8_less [of b] by linarith
  ultimately show ?thesis by (simp add: unat_u16_add)
qed

lemma chksum1_loop_spec:
  assumes "unat acc + 65535 * ((length data + 1) div 2) < 4294967296"
  shows "oceq (unat (chksum1_loop acc data)) (unat acc + 256 * le_num data)"
  using assms
proof (induction acc data rule: chksum1_loop.induct)
  case (1 acc a b data)
  let ?w = "256 * unat a + unat b"
  have "?w \<le> 65535" using unat_u8_less [of a] unat_u8_less [of b] by linarith
  then have u: "unat (acc + ucast (push_bit 8 (ucast a) OR (ucast b :: u16))) = unat acc + ?w"
    using "1.prems" by (simp add: unat_u32_add unat_be16)
  have "oceq (unat (chksum1_loop acc (a # b # data))) (unat acc + (?w + 256 * le_num data))"
    using "1.IH" [OF refl] "1.prems" \<open>?w \<le> 65535\<close> u by (simp add: add.assoc)
  also have "oceq \<dots> (unat acc + 256 * (le16 a b + le_num data))"
    by (rule oceq_add [OF oceq_refl be_pair_oceq])
  also have "oceq \<dots> (unat acc + 256 * le_num (a # b # data))"
    by (rule oceq_add [OF oceq_refl oceq_256 [OF oceq_sym [OF le_num_pair]]])
  finally show ?case .
next
  case (2 acc a)
  have "unat (push_bit 8 (ucast a :: u16)) = 256 * unat a"
    using unat_be16 [of a 0] by simp
  moreover have "unat acc + 256 * unat a < 4294967296"
    using "2.prems" unat_u8_less [of a] by (simp del: unat_u8_less)
  ultimately show ?case by (simp add: unat_u32_add)
qed simp

lemma lwip_standard_chksum1_oc16:
  assumes "length data \<le> 131072"
  shows "unat (lwip_standard_chksum1 data) = oc16 (le_num data)"
proof -
  let ?acc = "chksum1_loop 0 data"
  have "oceq (unat ?acc) (256 * le_num data)"
    using chksum1_loop_spec [of 0 data] assms by simp
  moreover have "lwip_standard_chksum1 data = lwip_htons (ucast (FOLD_U32T (FOLD_U32T ?acc)))"
  proof -
    have "(if x AND 0xffff0000 \<noteq> 0 then FOLD_U32T x else x) = FOLD_U32T x" for x :: u32
    proof (cases "x AND 0xffff0000 = 0")
      case True
      have "x AND 0xffffffff = x"
        using unat_take_mask [of x 32] by (simp add: word_unat_eq_iff mask_eq_exp_minus_1)
      then have "x = (x AND 0xffff0000) OR (x AND 0xffff)" by (simp flip: bit.conj_disj_distrib)
      then have "unat x = unat (x AND 0xffff)" using True by simp
      then have "unat x < 65536" by (simp add: unat_and_ffff)
      then show ?thesis using True by (simp add: word_unat_eq_iff unat_FOLD)
    qed simp
    then show ?thesis unfolding lwip_standard_chksum1_def Let_def by (fold FOLD_U32T_def) simp
  qed
  moreover have "unat (ucast (FOLD_U32T (FOLD_U32T ?acc)) :: u16) = oc16 (unat ?acc)"
    by (simp add: FOLD_FOLD unat_ucast_small oc16_less)
  ultimately have "oceq (unat (lwip_standard_chksum1 data)) (256 * oc16 (256 * le_num data))"
    using htons_oceq [of "ucast (FOLD_U32T (FOLD_U32T ?acc))"] by (simp add: oceq_oc16)
  also have "oceq \<dots> (256 * (256 * le_num data))"
    by (rule oceq_256) (simp add: oceq_oc16 oc16_id oc16_le)
  finally have "oceq (unat (lwip_standard_chksum1 data)) (le_num data)"
    by (rule oceq_trans [OF _ oceq_256_256])
  then show ?thesis by (rule oceq_le) (rule unat_u16_le)
qed

lemma ones_add_oceq: "oceq (ones_add a b) (a + b)"
proof (cases "a + b < 65536")
  case False
  then have "a + b = ones_add a b + 65535 * 1" by (simp add: ones_add_def)
  then have "(a + b) mod 65535 = ones_add a b mod 65535" by (metis mod_mult_self2)
  then show ?thesis using False by (auto simp: oceq_def ones_add_def)
qed (simp add: ones_add_def)

lemma rfc1071_less: "rfc1071 data < 65536"
proof (induction data rule: rfc1071.induct)
  case (1 a b data)
  have "256 * unat a + unat b < 65536" using unat_u8_less [of a] unat_u8_less [of b] by linarith
  then show ?case using 1 by (auto simp: ones_add_def)
qed auto

lemma rfc1071_oceq: "oceq (rfc1071 data) (256 * le_num data)"
proof (induction data rule: rfc1071.induct)
  case (1 a b data)
  let ?w = "256 * unat a + unat b"
  have "oceq (rfc1071 (a # b # data)) (?w + 256 * le_num data)"
    using oceq_trans [OF ones_add_oceq oceq_add [OF oceq_refl 1]] by simp
  also have "oceq \<dots> (256 * (le16 a b + le_num data))" by (rule be_pair_oceq)
  also have "oceq \<dots> (256 * le_num (a # b # data))"
    by (rule oceq_256 [OF oceq_sym [OF le_num_pair]])
  finally show ?case .
qed auto

lemma htons_rfc1071: "unat (lwip_htons (of_nat (rfc1071 data))) = oc16 (le_num data)"
proof -
  have "unat (of_nat (rfc1071 data) :: u16) = rfc1071 data"
    using rfc1071_less [of data] by (simp add: unat_u16_of_nat)
  then have "oceq (unat (lwip_htons (of_nat (rfc1071 data)))) (256 * (256 * le_num data))"
    using oceq_trans [OF htons_oceq [of "of_nat (rfc1071 data)"]] oceq_256 [OF rfc1071_oceq, of data]
    by simp
  then have "oceq (unat (lwip_htons (of_nat (rfc1071 data)))) (le_num data)"
    by (rule oceq_trans [OF _ oceq_256_256])
  then show ?thesis
    by (rule oceq_le) (rule unat_u16_le)
qed

text \<open>C26. The three implementations of the checksum agree with each other and with the reference
  sum of RFC 1071, at every alignment, for data of up to 128 KiB.\<close>

theorem lwip_standard_chksum_rfc1071:
  assumes "length data \<le> 0x20000"
  shows "lwip_standard_chksum1 data = lwip_htons (of_nat (rfc1071 data))
    \<and> lwip_standard_chksum2 addr data = lwip_htons (of_nat (rfc1071 data))
    \<and> lwip_standard_chksum3 addr data = lwip_htons (of_nat (rfc1071 data))"
  using assms by (simp add: word_unat_eq_iff htons_rfc1071 lwip_standard_chksum1_oc16
      lwip_standard_chksum2_oc16 lwip_standard_chksum3_oc16)

theorem lwip_standard_chksum_rfc1071_witness:
  "lwip_standard_chksum3 5 [1, 2, 3, 255, 254, 6, 7] = lwip_htons 0x0a08
   \<and> rfc1071 [1, 2, 3, 255, 254, 6, 7] = 0x0a08"
  using lwip_standard_chksum_rfc1071 [of "[1, 2, 3, 255, 254, 6, 7]" 5]
  by (simp add: ones_add_def)

subsection \<open>Chains\<close>

definition flat :: "buffer list \<Rightarrow> u8 list" where
  "flat p = concat (map snd p)"

lemma flat_simps [simp]: "flat [] = []" "flat ((addr, data) # q) = data @ flat q"
  by (simp_all add: flat_def)

abbreviation fits_u16 :: "buffer list \<Rightarrow> bool" where
  "fits_u16 p \<equiv> (\<forall>q\<in>set p. length (snd q) \<le> 65535)"

definition swap_if :: "bool \<Rightarrow> nat \<Rightarrow> nat" where
  "swap_if b n = (if b then 256 * n else n)"

lemma swap_if_False [simp]: "swap_if False n = n" by (simp add: swap_if_def)

lemma swap_if_oceq: "oceq m n \<Longrightarrow> oceq (swap_if b m) (swap_if b n)"
  by (simp add: swap_if_def oceq_256)

lemma swap_if_add: "swap_if b (m + n) = swap_if b m + swap_if b n"
  by (simp add: swap_if_def)

lemma swap_if_swap_if: "oceq (swap_if a (swap_if b n)) (swap_if (a \<noteq> b) n)"
  using oceq_256_256 [of n] by (auto simp: swap_if_def)

lemma le_num_append_swap: "oceq (le_num (xs @ ys)) (le_num xs + swap_if (odd (length xs)) (le_num ys))"
  using le_num_append [of xs ys] by (cases "odd (length xs)") (auto simp: swap_if_def odd_iff_mod_2_eq_one)

lemma LWIP_CHKSUM_oc16: "length data \<le> 131072 \<Longrightarrow> unat (LWIP_CHKSUM addr data) = oc16 (le_num data)"
  by (simp add: LWIP_CHKSUM_def lwip_standard_chksum2_oc16)

text \<open>One buffer: its sum is added, and the accumulator swapped when its length is odd.\<close>

lemma chain_step:
  fixes acc :: u32 and addr :: nat
  assumes "unat acc \<le> 65535" "length data \<le> 131072"
  defines "acc1 \<equiv> FOLD_U32T (acc + ucast (LWIP_CHKSUM addr data))"
  shows "unat (if b then SWAP_BYTES_IN_WORD acc1 else acc1) \<le> 65535"
    and "oceq (unat (if b then SWAP_BYTES_IN_WORD acc1 else acc1)) (swap_if b (unat acc + le_num data))"
proof -
  have c: "unat (LWIP_CHKSUM addr data) = oc16 (le_num data)" using assms(2) by (rule LWIP_CHKSUM_oc16)
  then have s: "unat (acc + ucast (LWIP_CHKSUM addr data)) = unat acc + oc16 (le_num data)"
    using assms(1) oc16_le [of "le_num data"] by (simp add: unat_u32_add)
  then have le: "unat acc1 \<le> 65535"
    unfolding acc1_def using assms(1) oc16_le [of "le_num data"] by (intro FOLD_le_131070) simp
  have "oceq (unat acc1) (unat acc + oc16 (le_num data))"
    unfolding acc1_def using FOLD_oceq s by metis
  also have "oceq \<dots> (unat acc + le_num data)"
    by (rule oceq_add [OF oceq_refl]) (simp add: oceq_oc16 oc16_id oc16_le)
  finally have o: "oceq (unat acc1) (unat acc + le_num data)" .
  from le have lt: "unat acc1 < 65536" by simp
  show "unat (if b then SWAP_BYTES_IN_WORD acc1 else acc1) \<le> 65535" using le SWAP_le [OF lt] by simp
  show "oceq (unat (if b then SWAP_BYTES_IN_WORD acc1 else acc1)) (swap_if b (unat acc + le_num data))"
    using o oceq_trans [OF SWAP_oceq [OF lt] oceq_256 [OF o]] by (simp add: swap_if_def)
qed

lemma chain_loop_spec:
  assumes "chain_loop acc sw p = (acc', sw')" "unat acc \<le> 65535" "fits_u16 p"
  shows "unat acc' \<le> 65535 \<and> sw' = (sw \<noteq> odd (length (flat p)))
    \<and> oceq (unat acc') (swap_if (odd (length (flat p))) (unat acc + le_num (flat p)))"
  using assms
proof (induction acc sw p rule: chain_loop.induct)
  case (2 acc sw addr data q)
  let ?b = "odd (length data)" and ?c = "odd (length (flat q))"
  let ?a = "FOLD_U32T (acc + ucast (LWIP_CHKSUM addr data))"
  let ?a2 = "if ?b then SWAP_BYTES_IN_WORD ?a else ?a"
  have run: "chain_loop ?a2 (sw \<noteq> ?b) q = (acc', sw')"
    using "2.prems"(1) by (simp add: Let_def odd_iff_mod_2_eq_one split: if_splits)
  have len: "length data \<le> 131072" using "2.prems"(3) by simp
  note st = chain_step [OF "2.prems"(2) len, where addr = addr and b = ?b]
  have IH: "unat acc' \<le> 65535 \<and> sw' = ((sw \<noteq> ?b) \<noteq> ?c)
      \<and> oceq (unat acc') (swap_if ?c (unat ?a2 + le_num (flat q)))"
    using "2.IH" run st(1) "2.prems"(3) by (cases ?b) (auto simp: odd_iff_mod_2_eq_one Let_def)
  have "oceq (unat ?a2 + le_num (flat q)) (swap_if ?b (unat acc + le_num data) + swap_if ?b (swap_if ?b (le_num (flat q))))"
    using oceq_add [OF st(2) oceq_sym [OF swap_if_swap_if [of ?b ?b "le_num (flat q)"]]] by simp
  also have "\<dots> = swap_if ?b (unat acc + (le_num data + swap_if ?b (le_num (flat q))))"
    by (simp add: swap_if_add)
  also have "oceq \<dots> (swap_if ?b (unat acc + le_num (data @ flat q)))"
    by (rule swap_if_oceq [OF oceq_add [OF oceq_refl oceq_sym [OF le_num_append_swap]]])
  finally have "oceq (swap_if ?c (unat ?a2 + le_num (flat q)))
      (swap_if ?c (swap_if ?b (unat acc + le_num (data @ flat q))))"
    by (rule swap_if_oceq)
  also have "oceq \<dots> (swap_if (?c \<noteq> ?b) (unat acc + le_num (data @ flat q)))"
    by (rule swap_if_swap_if)
  finally have "oceq (unat acc') (swap_if (?c \<noteq> ?b) (unat acc + le_num (data @ flat q)))"
    using IH oceq_trans by blast
  moreover have "odd (length (flat ((addr, data) # q))) = (?c \<noteq> ?b)" by auto
  ultimately show ?case using IH by auto
qed simp

text \<open>The accumulator after the final swap.\<close>

lemma chain_sum:
  assumes "chain_loop acc False p = (acc', sw')" "unat acc \<le> 65535" "fits_u16 p"
  shows "unat (if sw' then SWAP_BYTES_IN_WORD acc' else acc') = oc16 (unat acc + le_num (flat p))"
proof (rule oceq_le)
  let ?b = "odd (length (flat p))"
  have S: "unat acc' \<le> 65535" "sw' = ?b" "oceq (unat acc') (swap_if ?b (unat acc + le_num (flat p)))"
    using chain_loop_spec [OF assms] by auto
  have lt: "unat acc' < 65536" using S(1) by simp
  show "unat (if sw' then SWAP_BYTES_IN_WORD acc' else acc') \<le> 65535" using S(1) SWAP_le [OF lt] by simp
  have "oceq (unat (if sw' then SWAP_BYTES_IN_WORD acc' else acc')) (swap_if ?b (unat acc'))"
    using SWAP_oceq [OF lt] S(2) by (simp add: swap_if_def)
  also have "oceq \<dots> (swap_if ?b (swap_if ?b (unat acc + le_num (flat p))))"
    by (rule swap_if_oceq [OF S(3)])
  also have "oceq \<dots> (unat acc + le_num (flat p))"
    using swap_if_swap_if [of ?b ?b] by simp
  finally show "oceq (unat (if sw' then SWAP_BYTES_IN_WORD acc' else acc')) (unat acc + le_num (flat p))" .
qed

lemma unat_not_u16: "unat (NOT w :: u16) = 65535 - unat w"
proof -
  have "NOT w = - 1 - w" by (simp add: not_eq_complement)
  moreover have "unat (- 1 - w) = unat (- 1 :: u16) - unat w" by (rule unat_sub) simp
  ultimately show ?thesis by (simp add: unsigned_minus_1_eq_mask mask_eq_exp_minus_1)
qed

lemma ucast_not_ffff: "ucast (NOT (acc AND 0xffff :: u32)) = NOT (ucast acc :: u16)"
proof -
  have m: "(0xffff :: u32) = mask 16" by (simp add: mask_eq_exp_minus_1)
  show ?thesis unfolding m by (rule bit_word_eqI) (auto simp: bit_simps)
qed

lemma inet_chksum_pbuf_spec:
  assumes "fits_u16 p"
  shows "inet_chksum_pbuf p = NOT (lwip_htons (of_nat (rfc1071 (flat p))))"
proof -
  obtain acc sw where c: "chain_loop 0 False p = (acc, sw)" by fastforce
  have "unat (if sw then SWAP_BYTES_IN_WORD acc else acc) = oc16 (le_num (flat p))"
    using chain_sum [OF c _ assms] by simp
  then have "ucast (if sw then SWAP_BYTES_IN_WORD acc else acc) = lwip_htons (of_nat (rfc1071 (flat p)))"
    by (simp only: word_unat_eq_iff htons_rfc1071 unat_ucast_small oc16_less)
  then show ?thesis unfolding inet_chksum_pbuf_def c Let_def prod.case ucast_not_ffff by simp
qed

lemma inet_chksum_spec:
  "length data \<le> 65535 \<Longrightarrow> inet_chksum addr data = NOT (lwip_htons (of_nat (rfc1071 data)))"
  unfolding inet_chksum_def by (simp add: word_unat_eq_iff htons_rfc1071 LWIP_CHKSUM_oc16 unat_not_u16)

subsection \<open>The pseudo header\<close>

definition be16_bytes :: "u16 \<Rightarrow> u8 list" where
  "be16_bytes w = [ucast (drop_bit 8 w), ucast w]"

definition pseudo_header :: "u32 \<Rightarrow> u32 \<Rightarrow> u8 \<Rightarrow> u16 \<Rightarrow> u8 list" where
  "pseudo_header src dest proto len = addr_bytes src @ addr_bytes dest @ [0, proto] @ be16_bytes len"

lemma le_num_addr_bytes: "le_num (addr_bytes a) = unat a"
proof -
  have "unat a = unat a mod 256 + 256 * (unat a div 256 mod 256)
      + 65536 * (unat a div 65536 mod 256) + 16777216 * (unat a div 16777216)"
  proof -
    have "unat a = 256 * (unat a div 256) + unat a mod 256" by simp
    moreover have "unat a div 256 = 256 * (unat a div 65536) + unat a div 256 mod 256"
      using mult_div_mod_eq [of 256 "unat a div 256"] by (simp add: div_mult2_eq [symmetric])
    moreover have "unat a div 65536 = 256 * (unat a div 16777216) + unat a div 65536 mod 256"
      using mult_div_mod_eq [of 256 "unat a div 65536"] by (simp add: div_mult2_eq [symmetric])
    ultimately show ?thesis by linarith
  qed
  moreover have "unat a div 16777216 mod 256 = unat a div 16777216"
    using unat_u32_less [of a] by (intro mod_less) (simp add: less_mult_imp_div_less del: unat_u32_less)
  ultimately show ?thesis
    by (simp add: addr_bytes_def unsigned_ucast_eq take_bit_eq_mod unat_drop_bit)
qed

lemma le_num_be16_bytes: "le_num (be16_bytes w) = unat (lwip_htons w)"
proof -
  have "unat w div 256 < 256" using unat_u16_less [of w] by (simp add: less_mult_imp_div_less)
  then show ?thesis
    by (simp add: be16_bytes_def unsigned_ucast_eq take_bit_eq_mod unat_drop_bit unat_lwip_htons)
qed

lemma le_num_even_append:
  "even (length xs) \<Longrightarrow> oceq (le_num (xs @ ys)) (le_num xs + le_num ys)"
  using le_num_append_swap [of xs ys] by simp

lemma le_num_pseudo_header:
  "oceq (le_num (pseudo_header src dest proto len @ data))
     (unat src + unat dest + 256 * unat proto + unat (lwip_htons len) + le_num data)"
proof -
  let ?l = "be16_bytes len @ data"
  have e: "even (length (addr_bytes a))" "even (length (be16_bytes w))" for a w
    by (simp_all add: addr_bytes_def be16_bytes_def)
  have "oceq (le_num ?l) (unat (lwip_htons len) + le_num data)"
    using le_num_even_append [OF e(2)] by (simp add: le_num_be16_bytes)
  then have "oceq (le_num ([0, proto] @ ?l)) (256 * unat proto + (unat (lwip_htons len) + le_num data))"
    using oceq_trans [OF le_num_even_append [of "[0, proto]" ?l] oceq_add [OF oceq_refl]] by simp
  then have "oceq (le_num (addr_bytes dest @ [0, proto] @ ?l))
      (unat dest + (256 * unat proto + (unat (lwip_htons len) + le_num data)))"
    using oceq_trans [OF le_num_even_append [OF e(1)] oceq_add [OF oceq_refl]] by (simp add: le_num_addr_bytes)
  then have "oceq (le_num (addr_bytes src @ addr_bytes dest @ [0, proto] @ ?l))
      (unat src + (unat dest + (256 * unat proto + (unat (lwip_htons len) + le_num data))))"
    using oceq_trans [OF le_num_even_append [OF e(1)] oceq_add [OF oceq_refl]] by (simp add: le_num_addr_bytes)
  then show ?thesis by (simp add: pseudo_header_def add.assoc)
qed

lemma halves_oceq: "oceq (unat (a AND 0xffff :: u32) + unat (drop_bit 16 a AND 0xffff :: u32)) (unat a)"
proof -
  have "unat a div 65536 < 65536" using unat_u32_less [of a] by (simp add: less_mult_imp_div_less)
  then have "unat (a AND 0xffff) + unat (drop_bit 16 a AND 0xffff) = unat a div 65536 + unat a mod 65536"
    by (simp add: unat_and_ffff unat_drop_bit)
  then show ?thesis
    using oceq_65536 [of "unat a div 65536" "unat a mod 65536"] by (simp add: oceq_sym)
qed

lemma pseudo_addr_acc_oc16: "unat (pseudo_addr_acc src dest) = oc16 (unat src + unat dest)"
proof -
  let ?lo = "\<lambda>a :: u32. unat (a AND 0xffff)" and ?hi = "\<lambda>a :: u32. unat (drop_bit 16 a AND 0xffff)"
  have b: "?lo a < 65536" "?hi a < 65536" for a by (simp_all add: unat_and_ffff)
  have "unat ((src AND 0xffff) + (drop_bit 16 src AND 0xffff) + (dest AND 0xffff) + (drop_bit 16 dest AND 0xffff))
      = ?lo src + ?hi src + ?lo dest + ?hi dest"
    using b [of src] b [of dest] by (simp add: unat_u32_add)
  then have "unat (pseudo_addr_acc src dest) = oc16 (?lo src + ?hi src + (?lo dest + ?hi dest))"
    by (simp add: pseudo_addr_acc_def Let_def FOLD_FOLD add.assoc)
  moreover have "oceq (?lo src + ?hi src + (?lo dest + ?hi dest)) (unat src + unat dest)"
    by (rule oceq_add [OF halves_oceq halves_oceq])
  ultimately show ?thesis by (simp add: oceq_oc16)
qed

text \<open>The end of the pseudo-header checksums, after the loop over the chain.\<close>

lemma pseudo_end:
  fixes acc :: u32
  assumes "unat acc = oc16 (oc16 (unat src + unat dest) + le_num data)"
  shows "ucast (NOT (FOLD_U32T (FOLD_U32T (acc + ucast (lwip_htons (ucast proto)) + ucast (lwip_htons len))) AND 0xffff))
    = NOT (lwip_htons (of_nat (rfc1071 (pseudo_header src dest proto len @ data))))"
proof -
  have p: "unat (lwip_htons (ucast proto)) = 256 * unat proto"
    using unat_u8_less [of proto] by (simp add: unat_lwip_htons)
  have "256 * unat proto \<le> 65535" using unat_u8_less [of proto] by linarith
  then have "unat (acc + ucast (lwip_htons (ucast proto)) + ucast (lwip_htons len))
      = unat acc + 256 * unat proto + unat (lwip_htons len)"
    using assms oc16_less [of "oc16 (unat src + unat dest) + le_num data"] unat_u16_less [of "lwip_htons len"]
    by (simp add: unat_u32_add p del: unat_u16_less)
  then have f: "unat (FOLD_U32T (FOLD_U32T (acc + ucast (lwip_htons (ucast proto)) + ucast (lwip_htons len))))
      = oc16 (unat acc + 256 * unat proto + unat (lwip_htons len))"
    by (simp add: FOLD_FOLD)
  have idem: "oceq (oc16 n) n" for n by (simp add: oceq_oc16 oc16_id oc16_le)
  have "oceq (unat acc) (unat src + unat dest + le_num data)"
    unfolding assms by (rule oceq_trans [OF idem oceq_add [OF idem oceq_refl]])
  then have "oceq (unat acc + (256 * unat proto + unat (lwip_htons len)))
      (unat src + unat dest + le_num data + (256 * unat proto + unat (lwip_htons len)))"
    by (rule oceq_add [OF _ oceq_refl])
  also have "\<dots> = unat src + unat dest + 256 * unat proto + unat (lwip_htons len) + le_num data" by simp
  also have "oceq \<dots> (le_num (pseudo_header src dest proto len @ data))"
    by (rule oceq_sym [OF le_num_pseudo_header])
  finally have "oc16 (unat acc + 256 * unat proto + unat (lwip_htons len))
      = oc16 (le_num (pseudo_header src dest proto len @ data))"
    by (simp add: oceq_oc16 add.assoc)
  then show ?thesis
    unfolding ucast_not_ffff by (simp add: word_unat_eq_iff unat_not_u16 htons_rfc1071 unat_ucast_small f oc16_less)
qed

lemma inet_chksum_pseudo_sum:
  assumes "\<forall>q\<in>set p. length (snd q) \<le> 65535"
  shows "inet_chksum_pseudo p proto len src dest
    = NOT (lwip_htons (of_nat (rfc1071 (pseudo_header src dest proto len @ flat p))))"
proof -
  obtain acc sw where c: "chain_loop (pseudo_addr_acc src dest) False p = (acc, sw)" by fastforce
  have "unat (if sw then SWAP_BYTES_IN_WORD acc else acc) = oc16 (oc16 (unat src + unat dest) + le_num (flat p))"
    using chain_sum [OF c _ assms] by (simp only: pseudo_addr_acc_oc16 oc16_le)
  then show ?thesis
    unfolding inet_chksum_pseudo_def inet_cksum_pseudo_base_def c Let_def prod.case by (rule pseudo_end)
qed

text \<open>C27. The checksum with the IPv4 pseudo header, over a chain of buffers cut and aligned in any
  way, is the complement of the RFC 1071 sum of the pseudo header followed by the data.\<close>

theorem inet_chksum_pseudo_rfc1071:
  assumes "\<forall>q\<in>set p. length (snd q) \<le> 65535"
  shows "inet_chksum_pseudo p proto len src dest
    = NOT (lwip_htons (of_nat (rfc1071 (pseudo_header src dest proto len @ flat p))))"
  using assms by (rule inet_chksum_pseudo_sum)

theorem inet_chksum_pseudo_rfc1071_witness:
  "inet_chksum_pseudo [(1, [1, 2, 3]), (4, [4, 5])] 6 5 0x0100000a 0x0200000a
     = NOT (lwip_htons (of_nat (rfc1071 [10, 0, 0, 1, 10, 0, 0, 2, 0, 6, 0, 5, 1, 2, 3, 4, 5])))"
  using inet_chksum_pseudo_rfc1071 [of "[(1, [1, 2, 3]), (4, [4, 5])]" 6 5 "0x0100000a" "0x0200000a"]
  by (simp add: pseudo_header_def addr_bytes_def be16_bytes_def)

lemma le_num_insert:
  assumes "even (length x)" "length cs = 2"
  shows "oceq (le_num (x @ cs @ y)) (le_num cs + (le_num x + le_num y))"
proof -
  have "oceq (le_num (x @ cs @ y)) (le_num x + le_num (cs @ y))"
    by (rule le_num_even_append [OF assms(1)])
  also have "oceq \<dots> (le_num x + (le_num cs + le_num y))"
    by (rule oceq_add [OF oceq_refl le_num_even_append]) (simp add: assms(2))
  finally show ?thesis by (simp add: add.left_commute)
qed

text \<open>The two bytes that storing a 16-bit value writes.\<close>

definition u16_bytes :: "u16 \<Rightarrow> u8 list" where
  "u16_bytes w = [ucast w, ucast (drop_bit 8 w)]"

lemma le_num_u16_bytes: "le_num (u16_bytes w) = unat w"
proof -
  have "unat w div 256 < 256" using unat_u16_less [of w] by (simp add: less_mult_imp_div_less)
  then show ?thesis
    by (simp add: u16_bytes_def unsigned_ucast_eq take_bit_eq_mod unat_drop_bit)
qed

lemma rfc1071_insert_complement:
  assumes "even (length x)"
  shows "NOT (lwip_htons (of_nat (rfc1071
    (x @ u16_bytes (NOT (lwip_htons (of_nat (rfc1071 (x @ [0, 0] @ y))))) @ y)))) = 0"
proof -
  let ?n = "le_num x + le_num y"
  let ?c = "NOT (lwip_htons (of_nat (rfc1071 (x @ [0, 0] @ y))))"
  have "oceq (le_num (x @ [0, 0] @ y)) ?n" using le_num_insert [OF assms, of "[0, 0]" y] by simp
  then have c: "unat ?c = 65535 - oc16 ?n" by (simp add: unat_not_u16 htons_rfc1071 oceq_oc16)
  have "oceq (le_num (x @ u16_bytes ?c @ y)) (unat ?c + ?n)"
    using le_num_insert [OF assms, of "u16_bytes ?c" y] by (simp only: le_num_u16_bytes) (simp add: u16_bytes_def)
  also have "oceq (unat ?c + ?n) (unat ?c + oc16 ?n)"
    by (rule oceq_add [OF oceq_refl]) (simp add: oceq_oc16 oc16_id oc16_le)
  also have "unat ?c + oc16 ?n = 65535" using c oc16_le [of ?n] by simp
  finally have "oc16 (le_num (x @ u16_bytes ?c @ y)) = 65535" by (simp add: oceq_oc16 oc16_id)
  then show ?thesis by (simp only: word_unat_eq_iff unat_not_u16 htons_rfc1071) simp
qed

text \<open>C28. What the sender stores, the receiver accepts: when the checksum computed with a zero field
  at an even offset is stored in that field, the same computation over the segment, in
  whatever buffers it arrives, gives 0.\<close>

theorem inet_chksum_pseudo_verifies:
  assumes "\<forall>q\<in>set p. length (snd q) \<le> 65535" "\<forall>q\<in>set p'. length (snd q) \<le> 65535"
    and "even (length x)" "flat p = x @ [0, 0] @ y"
    and "flat p' = x @ u16_bytes (inet_chksum_pseudo p proto len src dest) @ y"
  shows "inet_chksum_pseudo p' proto len src dest = 0"
proof -
  let ?h = "pseudo_header src dest proto len"
  have e: "even (length (?h @ x))"
    using assms(3) by (simp add: pseudo_header_def addr_bytes_def be16_bytes_def)
  have c: "inet_chksum_pseudo p proto len src dest
      = NOT (lwip_htons (of_nat (rfc1071 ((?h @ x) @ [0, 0] @ y))))"
    unfolding inet_chksum_pseudo_sum [OF assms(1)] assms(4) by simp
  show ?thesis
    unfolding inet_chksum_pseudo_sum [OF assms(2)] assms(5) c
    using rfc1071_insert_complement [OF e, of y] by simp
qed

theorem inet_chksum_pseudo_verifies_witness:
  "inet_chksum_pseudo [(3, [1, 2]), (8, u16_bytes (inet_chksum_pseudo [(0, [1, 2, 0, 0, 9])] 6 5 1 2) @ [9])]
     6 5 1 2 = 0"
  by (rule inet_chksum_pseudo_verifies [of "[(0, [1, 2, 0, 0, 9])]" _ "[1, 2]" "[9]"])
     (simp_all add: u16_bytes_def)

text \<open>The partial checksum.\<close>

lemma swap_step:
  assumes "oceq (unat a2) (swap_if b m)"
  shows "oceq (swap_if (sw \<noteq> b) (unat a2 + n)) (swap_if sw (m + swap_if b n))"
proof -
  have "oceq (swap_if (sw \<noteq> b) (unat a2 + n)) (swap_if sw (swap_if b (unat a2 + n)))"
    by (rule oceq_sym [OF swap_if_swap_if])
  also have "oceq \<dots> (swap_if sw (swap_if b (swap_if b m + n)))"
    by (intro swap_if_oceq oceq_add assms oceq_refl)
  also have "\<dots> = swap_if sw (swap_if b (swap_if b m) + swap_if b n)" by (simp add: swap_if_add)
  also have "oceq \<dots> (swap_if sw (m + swap_if b n))"
    using swap_if_swap_if [of b b m] by (intro swap_if_oceq oceq_add) simp_all
  finally show ?thesis .
qed

lemma partial_loop_spec:
  assumes "unat clen < 0x7fff" "unat acc \<le> 65535" "fits_u16 p"
  shows "\<exists>acc' sw'. partial_loop acc sw clen p = Some (acc', sw') \<and> unat acc' \<le> 65535
    \<and> oceq (swap_if sw' (unat acc')) (swap_if sw (unat acc + le_num (take (unat clen) (flat p))))"
  using assms
proof (induction p arbitrary: acc sw clen)
  case (Cons d q)
  obtain addr data where d: "d = (addr, data)" by fastforce
  note prems = Cons.prems [unfolded d]
  show ?case
  proof (cases "clen > 0")
    case True
    define k where "k = (if length data > unat clen then unat clen else length data)"
    define clen' :: u16 where "clen' = of_nat (unat clen - k)"
    let ?b = "odd (length data)"
    let ?a = "FOLD_U32T (acc + ucast (LWIP_CHKSUM addr (take k data)))"
    let ?a2 = "if ?b then SWAP_BYTES_IN_WORD ?a else ?a"
    have "unat clen - k < 65536" using unat_u16_less [of clen] by (simp del: unat_u16_less)
    then have u: "unat clen' = unat clen - k" by (simp add: clen'_def unat_u16_of_nat)
    then have c: "clen' < 0x7fff" using prems(1) by (simp add: word_less_nat_alt)
    have len: "length (take k data) \<le> 131072" using prems(3) by (simp add: min_def)
    note st = chain_step [OF prems(2) len, where addr = addr and b = ?b]
    have run: "partial_loop acc sw clen ((addr, data) # q) = partial_loop ?a2 (sw \<noteq> ?b) clen' q"
      using True c by (auto simp: Let_def k_def clen'_def odd_iff_mod_2_eq_one)
    obtain acc' sw' where IH: "partial_loop ?a2 (sw \<noteq> ?b) clen' q = Some (acc', sw')" "unat acc' \<le> 65535"
      "oceq (swap_if sw' (unat acc')) (swap_if (sw \<noteq> ?b) (unat ?a2 + le_num (take (unat clen') (flat q))))"
      using Cons.IH [of clen' ?a2 "sw \<noteq> ?b"] c st(1) prems(3) by (auto simp: word_less_nat_alt)
    let ?r = "take (unat clen') (flat q)"
    have "oceq (swap_if (sw \<noteq> ?b) (unat ?a2 + le_num ?r)) (swap_if sw (unat acc + le_num (take k data) + swap_if ?b (le_num ?r)))"
      by (rule swap_step [OF st(2)])
    also have "swap_if ?b (le_num ?r) = swap_if (odd (length (take k data))) (le_num ?r)"
      using u by (auto simp: k_def swap_if_def)
    also have "oceq (swap_if sw (unat acc + le_num (take k data) + swap_if (odd (length (take k data))) (le_num ?r)))
        (swap_if sw (unat acc + le_num (take k data @ ?r)))"
      unfolding add.assoc by (rule swap_if_oceq [OF oceq_add [OF oceq_refl oceq_sym [OF le_num_append_swap]]])
    also have "take k data @ ?r = take (unat clen) (flat ((addr, data) # q))"
      using u by (auto simp: k_def)
    finally have "oceq (swap_if sw' (unat acc')) (swap_if sw (unat acc + le_num (take (unat clen) (flat (d # q)))))"
      unfolding d by (rule oceq_trans [OF IH(3)])
    then show ?thesis using IH(1,2) run d by auto
  next
    case False
    then have "clen = 0" by (simp add: word_gt_0)
    then show ?thesis using prems(2) d by simp
  qed
qed simp

text \<open>C29. The partial checksum of fewer than \<open>0x7fff\<close> bytes does not fail its assertion and is the
  complement of the RFC 1071 sum of the pseudo header followed by that many bytes.\<close>

theorem inet_chksum_pseudo_partial_rfc1071:
  assumes "\<forall>q\<in>set p. length (snd q) \<le> 65535" "chksum_len < 0x7fff"
  shows "inet_chksum_pseudo_partial p proto len chksum_len src dest
    = Some (NOT (lwip_htons (of_nat (rfc1071 (pseudo_header src dest proto len @ take (unat chksum_len) (flat p))))))"
proof -
  let ?d = "take (unat chksum_len) (flat p)"
  obtain acc sw where c: "partial_loop (pseudo_addr_acc src dest) False chksum_len p = Some (acc, sw)"
      "unat acc \<le> 65535" "oceq (swap_if sw (unat acc)) (oc16 (unat src + unat dest) + le_num ?d)"
    using partial_loop_spec [of chksum_len "pseudo_addr_acc src dest" p False] assms
    by (auto simp: pseudo_addr_acc_oc16 oc16_le word_less_nat_alt)
  have lt: "unat acc < 65536" using c(2) by simp
  have "unat (if sw then SWAP_BYTES_IN_WORD acc else acc) = oc16 (oc16 (unat src + unat dest) + le_num ?d)"
    using oceq_le [OF oceq_trans [OF SWAP_oceq [OF lt]] SWAP_le [OF lt]] oceq_le c(2,3)
    by (auto simp: swap_if_def)
  then show ?thesis
    unfolding inet_chksum_pseudo_partial_def inet_cksum_pseudo_partial_base_def c(1) Let_def prod.case option.case
    by (simp only: pseudo_end)
qed

theorem inet_chksum_pseudo_partial_rfc1071_witness:
  "inet_chksum_pseudo_partial [(1, [1, 2, 3]), (4, [4, 5])] 136 5 4 1 2
     = Some (NOT (lwip_htons (of_nat (rfc1071 (pseudo_header 1 2 136 5 @ [1, 2, 3, 4])))))"
  using inet_chksum_pseudo_partial_rfc1071 [of "[(1, [1, 2, 3]), (4, [4, 5])]" 4 136 5 1 2] by simp
end
