(* ===== verification/Ip4_Addr.thy ===== *)
theory Ip4_Addr
  imports Lwip_Def
begin

section \<open>IPv4 addresses (ip4\_addr.c)\<close>

text \<open>
  Classification of addresses, the netmask check, and the two conversions between addresses
  and text. An address is the \<open>u32\<close> of \<open>ip4_addr_t\<close>, in network byte order; its byte \<open>k\<close> in
  memory is bits \<open>8 k\<close> to \<open>8 k + 7\<close> on the little-endian host. Strings are as in
  \<open>Lwip_Def\<close>. The main result is the round trip: the text that \<open>ip4addr_ntoa_r\<close> prints for an
  address is read back by \<open>ip4addr_aton\<close> as that address, for every address.
\<close>

subsection \<open>Network interfaces\<close>

text \<open>The fields of \<^verbatim>\<open>struct netif\<close> that the stack reads; the list link is the position in
  \<open>netif_list\<close>.\<close>

record netif =
  ip_addr :: u32
  netmask :: u32
  gw :: u32
  mtu :: u16
  netif_flags :: u8
  netif_num :: u8

definition NETIF_FLAG_UP :: u8 where "NETIF_FLAG_UP = 0x01"
definition NETIF_FLAG_BROADCAST :: u8 where "NETIF_FLAG_BROADCAST = 0x02"
definition NETIF_FLAG_LINK_UP :: u8 where "NETIF_FLAG_LINK_UP = 0x04"

definition ip4_addr_net_eq :: "u32 \<Rightarrow> u32 \<Rightarrow> u32 \<Rightarrow> bool" where
  "ip4_addr_net_eq addr1 addr2 m \<longleftrightarrow> (addr1 AND m) = (addr2 AND m)"

definition ip4_addr_ismulticast :: "u32 \<Rightarrow> bool" where
  "ip4_addr_ismulticast addr \<longleftrightarrow> addr AND lwip_htonl 0xf0000000 = lwip_htonl 0xe0000000"

definition ip4_addr_isbroadcast_u32 :: "u32 \<Rightarrow> netif \<Rightarrow> bool" where
  "ip4_addr_isbroadcast_u32 addr netif =
     (if NOT addr = 0 \<or> addr = 0 then True
      else if netif_flags netif AND NETIF_FLAG_BROADCAST = 0 then False
      else if addr = ip_addr netif then False
      else if ip4_addr_net_eq addr (ip_addr netif) (netmask netif)
              \<and> addr AND NOT (netmask netif) = 0xffffffff AND NOT (netmask netif) then True
      else False)"

subsection \<open>Netmasks\<close>

function nm_first_zero :: "u32 \<Rightarrow> u32 \<Rightarrow> u32" where
  "nm_first_zero nm m =
     (if m \<noteq> 0 then if nm AND m = 0 then m else nm_first_zero nm (drop_bit 1 m) else m)"
  by pat_completeness auto

function nm_no_one :: "u32 \<Rightarrow> u32 \<Rightarrow> bool" where
  "nm_no_one nm m =
     (if m \<noteq> 0 then if nm AND m \<noteq> 0 then False else nm_no_one nm (drop_bit 1 m) else True)"
  by pat_completeness auto

lemma unat_drop_bit_1_less: "m \<noteq> 0 \<Longrightarrow> unat (drop_bit 1 (m :: u32)) < unat m"
  by (simp add: unat_drop_bit word_unat_eq_iff)

termination nm_first_zero
  by (relation "measure (\<lambda>(nm, m). unat m)") (rule wf_measure, unfold in_measure case_prod_conv, rule unat_drop_bit_1_less)

termination nm_no_one
  by (relation "measure (\<lambda>(nm, m). unat m)") (rule wf_measure, unfold in_measure case_prod_conv, rule unat_drop_bit_1_less)

declare nm_first_zero.simps [simp del] nm_no_one.simps [simp del]

definition ip4_addr_netmask_valid :: "u32 \<Rightarrow> bool" where
  "ip4_addr_netmask_valid nm =
     (let nm_hostorder = lwip_htonl nm;
          m = nm_first_zero nm_hostorder 0x80000000
      in nm_no_one nm_hostorder m)"

subsection \<open>Text to address\<close>

definition lwip_isdigit :: "u8 \<Rightarrow> bool" where
  "lwip_isdigit c \<longleftrightarrow> 48 \<le> c \<and> c \<le> 57"

definition lwip_islower :: "u8 \<Rightarrow> bool" where
  "lwip_islower c \<longleftrightarrow> 97 \<le> c \<and> c \<le> 122"

definition lwip_isxdigit :: "u8 \<Rightarrow> bool" where
  "lwip_isxdigit c \<longleftrightarrow> lwip_isdigit c \<or> 97 \<le> c \<and> c \<le> 102 \<or> 65 \<le> c \<and> c \<le> 70"

definition lwip_isspace :: "u8 \<Rightarrow> bool" where
  "lwip_isspace c \<longleftrightarrow> c = 32 \<or> c = 12 \<or> c = 10 \<or> c = 13 \<or> c = 9 \<or> c = 11"

text \<open>The digit loop: the value and the rest of the string.\<close>

fun aton_digits :: "u32 \<Rightarrow> u32 \<Rightarrow> u8 list \<Rightarrow> u32 \<times> u8 list" where
  "aton_digits base val [] = (val, [])"
| "aton_digits base val (c # cp) =
     (if lwip_isdigit c then
        if base = 8 \<and> ucast (c - 48) \<ge> (8 :: u32) then (val, c # cp)
        else aton_digits base (val * base + ucast (c - 48)) cp
      else if base = 16 \<and> lwip_isxdigit c then
        aton_digits base (push_bit 4 val OR ucast (c + 10 - (if lwip_islower c then 97 else 65))) cp
      else (val, c # cp))"

definition aton_base :: "u8 list \<Rightarrow> u32 \<times> u8 list" where
  "aton_base cp =
     (if char_at cp = 48 then
        let cp = tl cp; c = char_at cp
        in if c = 120 \<or> c = 88 then (16, tl cp) else (8, cp)
      else (10, cp))"

text \<open>The outer loop: the parts before the last dot, the last value and the rest of the
  string; \<open>None\<close> for the early returns of 0.\<close>

function aton_loop :: "u32 list \<Rightarrow> u8 list \<Rightarrow> (u32 list \<times> u32 \<times> u8 list) option" where
  "aton_loop parts cp =
     (if \<not> lwip_isdigit (char_at cp) then None
      else
        let (base, cp) = aton_base cp;
            (val, cp) = aton_digits base 0 cp
        in if char_at cp = 46 then
             if length parts \<ge> 3 then None else aton_loop (parts @ [val]) (tl cp)
           else Some (parts, val, cp))"
  by pat_completeness auto

termination aton_loop
  by (relation "measure (\<lambda>(parts, cp). 4 - length parts)") auto

declare aton_loop.simps [simp del]

definition aton_combine :: "u32 list \<Rightarrow> u32 \<Rightarrow> u32 option" where
  "aton_combine parts val =
     (case parts of
        [] \<Rightarrow> Some val
      | [a] \<Rightarrow>
          if val > 0xffffff then None
          else if a > 0xff then None
          else Some (val OR push_bit 24 a)
      | [a, b] \<Rightarrow>
          if val > 0xffff then None
          else if a > 0xff \<or> b > 0xff then None
          else Some (val OR (push_bit 24 a OR push_bit 16 b))
      | [a, b, c] \<Rightarrow>
          if val > 0xff then None
          else if a > 0xff \<or> b > 0xff \<or> c > 0xff then None
          else Some (val OR (push_bit 24 a OR push_bit 16 b OR push_bit 8 c))
      | _ \<Rightarrow> None)"

definition ip4addr_aton :: "u8 list \<Rightarrow> u32 option" where
  "ip4addr_aton cp =
     (case aton_loop [] cp of
        None \<Rightarrow> None
      | Some (parts, val, cp) \<Rightarrow>
          let c = char_at cp
          in if c \<noteq> 0 \<and> \<not> lwip_isspace c then None
             else map_option lwip_htonl (aton_combine parts val))"

definition ipaddr_addr :: "u8 list \<Rightarrow> u32" where
  "ipaddr_addr cp = (case ip4addr_aton cp of Some val \<Rightarrow> val | None \<Rightarrow> 0xffffffff)"

subsection \<open>Address to text\<close>

text \<open>The digits of one byte, least significant first, as they are collected in \<open>inv\<close>.\<close>

function ntoa_inv :: "u8 \<Rightarrow> u8 list" where
  "ntoa_inv ap =
     (let rem = ap mod 10; ap' = ap div 10
      in (48 + rem) # (if ap' \<noteq> 0 then ntoa_inv ap' else []))"
  by pat_completeness auto

termination ntoa_inv
proof (relation "measure unat")
  fix x ap' rem ap :: u8
  assume "ap' = ap div 10" "ap' \<noteq> 0"
  then have "unat ap' = unat ap div 10" "unat ap div 10 \<noteq> 0"
    by (simp_all add: unat_div word_unat_eq_iff)
  then show "(ap', ap) \<in> measure unat" by simp
qed simp

declare ntoa_inv.simps [simp del]

text \<open>One character, stored at offset \<open>len\<close>, which is where \<open>rp\<close> points; \<open>None\<close> when the buffer
  is full.\<close>

definition ntoa_put :: "nat \<Rightarrow> u8 \<Rightarrow> u8 list \<times> nat \<Rightarrow> (u8 list \<times> nat) option" where
  "ntoa_put buflen c st = (case st of (buf, len) \<Rightarrow>
     if len \<ge> buflen then None else Some (buf[len := c], len + 1))"

fun ntoa_puts :: "nat \<Rightarrow> u8 list \<Rightarrow> u8 list \<times> nat \<Rightarrow> (u8 list \<times> nat) option" where
  "ntoa_puts buflen [] st = Some st"
| "ntoa_puts buflen (c # cs) st = Option.bind (ntoa_put buflen c st) (ntoa_puts buflen cs)"

fun ntoa_loop :: "nat \<Rightarrow> u8 list \<Rightarrow> u8 list \<times> nat \<Rightarrow> (u8 list \<times> nat) option" where
  "ntoa_loop buflen [] st = Some st"
| "ntoa_loop buflen (ap # aps) st =
     Option.bind (ntoa_puts buflen (rev (ntoa_inv ap)) st) (\<lambda>st.
     Option.bind (ntoa_put buflen 46 st) (ntoa_loop buflen aps))"

definition ip4addr_ntoa_r :: "u32 \<Rightarrow> u8 list \<Rightarrow> nat \<Rightarrow> u8 list option" where
  "ip4addr_ntoa_r addr buf buflen =
     (case ntoa_loop buflen (addr_bytes addr) (buf, 0) of
        None \<Rightarrow> None
      | Some (buf, len) \<Rightarrow> Some (buf[len - 1 := 0]))"

definition IP4ADDR_STRLEN_MAX :: nat where "IP4ADDR_STRLEN_MAX = 16"

definition ip4addr_ntoa :: "u32 \<Rightarrow> u8 list \<Rightarrow> u8 list option" where
  "ip4addr_ntoa addr str = ip4addr_ntoa_r addr str IP4ADDR_STRLEN_MAX"

subsection \<open>Netmasks are prefixes of ones\<close>

lemma nm_zero [simp]: "nm_no_one nm 0" "nm_first_zero nm 0 = 0"
  by (simp_all add: nm_no_one.simps nm_first_zero.simps)

lemma drop_bit_1_exp: "k < 31 \<Longrightarrow> drop_bit (Suc 0) (2 ^ Suc k :: u32) = 2 ^ k"
  by (simp add: drop_bit_exp_eq del: power_Suc)

lemma exp_nonzero: "k < 32 \<Longrightarrow> (2 ^ k :: u32) \<noteq> 0"
  by simp

lemma nm_no_one_exp: "k < 32 \<Longrightarrow> nm_no_one nm (2 ^ k) \<longleftrightarrow> (\<forall>j\<le>k. \<not> bit nm j)"
proof (induction k)
  case 0
  then show ?case by (subst nm_no_one.simps) (simp add: and_exp_eq_0_iff_not_bit [of nm 0, simplified] drop_bit_eq_div)
next
  case (Suc k)
  then show ?case
    by (subst nm_no_one.simps)
       (auto simp: and_exp_eq_0_iff_not_bit drop_bit_1_exp le_Suc_eq simp del: power_Suc drop_bit_Suc)
qed

lemma nm_valid_exp:
  "k < 32 \<Longrightarrow> nm_no_one nm (nm_first_zero nm (2 ^ k)) \<longleftrightarrow> (\<exists>n. \<forall>j\<le>k. bit nm j \<longleftrightarrow> n \<le> j)"
proof (induction k)
  case 0
  have "\<exists>n. bit nm 0 \<longleftrightarrow> n \<le> (0 :: nat)" by (cases "bit nm 0") (auto intro: exI [of _ 1])
  moreover have "nm_no_one nm (nm_first_zero nm (2 ^ 0))"
    using nm_no_one_exp [of 0 nm] and_exp_eq_0_iff_not_bit [of nm 0]
    by (subst nm_first_zero.simps) (auto simp: drop_bit_eq_div)
  ultimately show ?case by simp
next
  case (Suc k)
  have fz: "nm_first_zero nm (2 ^ Suc k) = (if bit nm (Suc k) then nm_first_zero nm (2 ^ k) else 2 ^ Suc k)"
    using Suc.prems exp_nonzero [of "Suc k"]
    by (subst nm_first_zero.simps) (auto simp: and_exp_eq_0_iff_not_bit drop_bit_1_exp simp del: power_Suc)
  show ?case
  proof (cases "bit nm (Suc k)")
    case True
    have "(\<exists>n. \<forall>j\<le>k. bit nm j \<longleftrightarrow> n \<le> j) \<longleftrightarrow> (\<exists>n. \<forall>j\<le>Suc k. bit nm j \<longleftrightarrow> n \<le> j)"
    proof
      assume "\<exists>n. \<forall>j\<le>k. bit nm j \<longleftrightarrow> n \<le> j"
      then obtain n where "\<forall>j\<le>k. bit nm j \<longleftrightarrow> n \<le> j" by blast
      then have "\<forall>j\<le>Suc k. bit nm j \<longleftrightarrow> min n (Suc k) \<le> j" using True by (auto simp: le_Suc_eq min_le_iff_disj)
      then show "\<exists>n. \<forall>j\<le>Suc k. bit nm j \<longleftrightarrow> n \<le> j" by blast
    qed (meson le_SucI)
    then show ?thesis using Suc True fz by simp
  next
    case False
    have "(\<forall>j\<le>Suc k. \<not> bit nm j) \<longleftrightarrow> (\<exists>n. \<forall>j\<le>Suc k. bit nm j \<longleftrightarrow> n \<le> j)"
    proof
      assume "\<forall>j\<le>Suc k. \<not> bit nm j"
      then have "\<forall>j\<le>Suc k. bit nm j \<longleftrightarrow> Suc (Suc k) \<le> j" by auto
      then show "\<exists>n. \<forall>j\<le>Suc k. bit nm j \<longleftrightarrow> n \<le> j" by blast
    next
      assume "\<exists>n. \<forall>j\<le>Suc k. bit nm j \<longleftrightarrow> n \<le> j"
      then obtain n where n: "\<forall>j\<le>Suc k. bit nm j \<longleftrightarrow> n \<le> j" by blast
      then have "Suc k < n" using False by (simp add: not_le [symmetric])
      then show "\<forall>j\<le>Suc k. \<not> bit nm j" using n by auto
    qed
    then show ?thesis using Suc.prems False fz nm_no_one_exp [of "Suc k" nm] by simp
  qed
qed

text \<open>C31. A netmask is accepted exactly when, in host order, it is a run of ones followed by a run
  of \<open>n\<close> zeros.\<close>

theorem ip4_addr_netmask_valid_iff:
  "ip4_addr_netmask_valid nm \<longleftrightarrow> (\<exists>n\<le>32. lwip_htonl nm = NOT (mask n))"
proof -
  have "(\<forall>j\<le>31. bit h j \<longleftrightarrow> n \<le> j) \<longleftrightarrow> h = NOT (mask n)" for n and h :: u32
    by (auto simp: bit_eq_iff bit_simps less_Suc_eq_le [of _ 31, simplified] dest: bit_imp_le_length)
  then have "(\<exists>n. \<forall>j\<le>31. bit h j \<longleftrightarrow> n \<le> j) \<longleftrightarrow> (\<exists>n. h = NOT (mask n))" for h :: u32 by simp
  moreover have "(\<exists>n. h = NOT (mask n)) \<longleftrightarrow> (\<exists>n\<le>32. h = NOT (mask n))" for h :: u32
  proof
    assume "\<exists>n. h = NOT (mask n)"
    then obtain n where n: "h = NOT (mask n)" by blast
    have "(mask n :: u32) = mask (min n 32)" by (rule bit_word_eqI) (simp add: bit_simps)
    then show "\<exists>n\<le>32. h = NOT (mask n)" using n by (metis min.cobounded2)
  qed blast
  ultimately show ?thesis
    using nm_valid_exp [of 31 "lwip_htonl nm"] by (simp add: ip4_addr_netmask_valid_def Let_def)
qed

subsection \<open>Printing and reading\<close>

definition dotted :: "u8 list \<Rightarrow> u8 list" where
  "dotted bs = concat (map (\<lambda>b. rev (ntoa_inv b) @ [46]) bs)"

lemma ntoa_puts_spec:
  assumes "len + length cs \<le> buflen" "buflen \<le> length buf"
  shows "\<exists>buf'. ntoa_puts buflen cs (buf, len) = Some (buf', len + length cs) \<and> length buf' = length buf
    \<and> take (len + length cs) buf' = take len buf @ cs"
  using assms
proof (induction cs arbitrary: buf len)
  case (Cons c cs)
  then obtain buf' where "ntoa_puts buflen cs (buf[len := c], Suc len) = Some (buf', Suc len + length cs)"
     "length buf' = length buf" "take (Suc len + length cs) buf' = take (Suc len) (buf[len := c]) @ cs"
    using Cons.IH [of "Suc len" "buf[len := c]"] by auto
  then show ?case using Cons.prems by (simp add: ntoa_put_def take_Suc_conv_app_nth)
qed simp

lemma ntoa_put_spec:
  "len < buflen \<Longrightarrow> ntoa_put buflen c (buf, len) = Some (buf[len := c], len + 1)"
  by (simp add: ntoa_put_def)

lemma ntoa_loop_spec:
  assumes "len + length (dotted bs) \<le> buflen" "buflen \<le> length buf"
  shows "\<exists>buf'. ntoa_loop buflen bs (buf, len) = Some (buf', len + length (dotted bs)) \<and> length buf' = length buf
    \<and> take (len + length (dotted bs)) buf' = take len buf @ dotted bs"
  using assms
proof (induction bs arbitrary: buf len)
  case (Cons b bs)
  let ?d = "rev (ntoa_inv b)"
  have len: "length (dotted (b # bs)) = length ?d + 1 + length (dotted bs)" by (simp add: dotted_def)
  obtain buf1 where 1: "ntoa_puts buflen ?d (buf, len) = Some (buf1, len + length ?d)" "length buf1 = length buf"
      "take (len + length ?d) buf1 = take len buf @ ?d"
    using ntoa_puts_spec [of len ?d buflen buf] Cons.prems len by auto
  let ?l = "len + length ?d" and ?b2 = "buf1[len + length ?d := 46]"
  have 2: "take (?l + 1) ?b2 = take len buf @ ?d @ [46]"
    using 1 Cons.prems len by (simp add: take_Suc_conv_app_nth)
  obtain buf2 where "ntoa_loop buflen bs (?b2, ?l + 1) = Some (buf2, ?l + 1 + length (dotted bs))"
      "length buf2 = length buf" "take (?l + 1 + length (dotted bs)) buf2 = take (?l + 1) ?b2 @ dotted bs"
    using Cons.IH [of "?l + 1" ?b2] Cons.prems len 1(2) by auto
  then show ?case
    using 1 2 Cons.prems len by (simp add: ntoa_put_spec dotted_def add.assoc)
qed (simp add: dotted_def)

text \<open>The decimal text of a byte.\<close>

definition dg :: "nat \<Rightarrow> u8" where
  "dg k = 48 + of_nat k"

definition dec :: "nat \<Rightarrow> u8 list" where
  "dec n = (if n < 10 then [dg n] else if n < 100 then [dg (n div 10), dg (n mod 10)]
            else [dg (n div 100), dg (n div 10 mod 10), dg (n mod 10)])"

lemma ntoa_inv_of_nat:
  assumes "n < 256"
  shows "ntoa_inv (of_nat n) = dg (n mod 10) # (if n div 10 = 0 then [] else ntoa_inv (of_nat (n div 10)))"
proof -
  have m: "(of_nat n :: u8) mod 10 = of_nat (n mod 10)" "(of_nat n :: u8) div 10 = of_nat (n div 10)"
    using assms by (simp_all add: word_unat_eq_iff unat_mod unat_div unat_u8_of_nat)
  have "(of_nat (n div 10) :: u8) = 0 \<longleftrightarrow> n div 10 = 0"
    using assms by (simp only: word_unat_eq_iff unat_u8_of_nat) simp
  then show ?thesis by (subst ntoa_inv.simps) (simp only: m Let_def dg_def if_not_P split: if_splits, simp)
qed

lemma rev_ntoa_inv: "rev (ntoa_inv b) = dec (unat b)"
proof -
  have less: "n < 256 \<Longrightarrow> rev (ntoa_inv (of_nat n)) = dec n" for n
  proof -
    assume n: "n < 256"
    then have "n div 10 < 256" "n div 10 div 10 < 256" "n div 10 div 10 div 10 = 0" by auto
    then show ?thesis
      using n by (simp add: ntoa_inv_of_nat dec_def div_eq_0_iff) (auto simp: div_mult2_eq [symmetric])
  qed
  show ?thesis using less [OF unat_u8_less [of b]] by simp
qed

lemma unat_dg: "k < 10 \<Longrightarrow> unat (dg k) = 48 + k"
  by (simp add: dg_def unat_word_ariths unat_u8_of_nat)

lemma dg_facts:
  assumes "k < 10"
  shows "lwip_isdigit (dg k)" "(ucast (dg k - 48) :: u32) = of_nat k" "dg k \<noteq> 0" "dg k = 48 \<longleftrightarrow> k = 0"
proof -
  note u = unat_dg [OF assms]
  show "lwip_isdigit (dg k)" "dg k \<noteq> 0" "dg k = 48 \<longleftrightarrow> k = 0"
    using assms by (auto simp: lwip_isdigit_def word_le_nat_alt word_unat_eq_iff u)
  show "(ucast (dg k - 48) :: u32) = of_nat k"
    using assms by (simp add: dg_def word_unat_eq_iff unat_u8_of_nat unat_u32_of_nat)
qed

lemma aton_digits_dg:
  "k < 10 \<Longrightarrow> aton_digits 10 v (dg k # cp) = aton_digits 10 (v * 10 + of_nat k) cp"
  by (simp add: dg_facts)

text \<open>What follows a number in the printed text: nothing or a dot.\<close>

definition ends_number :: "u8 list \<Rightarrow> bool" where
  "ends_number rest \<longleftrightarrow> rest = [] \<or> (\<exists>r. rest = 46 # r)"

lemma aton_digits_end: "ends_number rest \<Longrightarrow> aton_digits base v rest = (v, rest)"
  by (auto simp: ends_number_def lwip_isdigit_def lwip_isxdigit_def)

lemma aton_base_dg: "k < 10 \<Longrightarrow> k \<noteq> 0 \<Longrightarrow> aton_base (dg k # cp) = (10, dg k # cp)"
  by (simp add: aton_base_def char_at_def dg_facts)

lemma aton_one:
  assumes "n < 256" "ends_number rest"
  shows "lwip_isdigit (char_at (dec n @ rest))"
    and "(case aton_base (dec n @ rest) of (base, cp) \<Rightarrow> aton_digits base 0 cp) = (of_nat n, rest)"
proof -
  have q: "n div 100 < 10" "n div 10 mod 10 < 10" "n mod 10 < 10" "n < 100 \<Longrightarrow> n div 10 < 10" using assms(1) by auto
  show "lwip_isdigit (char_at (dec n @ rest))"
    using q by (simp add: dec_def char_at_def dg_facts)
  consider "n = 0" | "0 < n" "n < 10" | "10 \<le> n" "n < 100" | "100 \<le> n" by linarith
  then show "(case aton_base (dec n @ rest) of (base, cp) \<Rightarrow> aton_digits base 0 cp) = (of_nat n, rest)"
  proof cases
    case 1
    then show ?thesis using assms(2) aton_digits_end [OF assms(2)]
      by (auto simp: dec_def aton_base_def char_at_def dg_def ends_number_def)
  next
    case 2
    then show ?thesis using aton_digits_end [OF assms(2)]
      by (simp add: dec_def aton_base_dg aton_digits_dg del: aton_digits.simps)
  next
    case 3
    have "(of_nat (n div 10) * 10 + of_nat (n mod 10) :: u32) = of_nat (n div 10 * 10 + n mod 10)"
      by (simp only: of_nat_add of_nat_mult of_nat_numeral)
    then show ?thesis using 3 q aton_digits_end [OF assms(2)]
      by (simp add: dec_def aton_base_dg aton_digits_dg del: aton_digits.simps)
  next
    case 4
    have "(of_nat (n div 100) * 10 + of_nat (n div 10 mod 10)) * 10 + of_nat (n mod 10)
        = (of_nat ((n div 100 * 10 + n div 10 mod 10) * 10 + n mod 10) :: u32)"
      by (simp only: of_nat_add of_nat_mult of_nat_numeral)
    also have "(n div 100 * 10 + n div 10 mod 10) * 10 + n mod 10 = n"
    proof -
      have "n div 100 * 10 + n div 10 mod 10 = n div 10"
        using mult_div_mod_eq [of 10 "n div 10"] by (simp add: div_mult2_eq [symmetric])
      then show ?thesis by simp
    qed
    finally show ?thesis using 4 q aton_digits_end [OF assms(2)]
      by (simp add: dec_def aton_base_dg aton_digits_dg del: aton_digits.simps)
  qed
qed

lemma aton_loop_last:
  assumes "n < 256"
  shows "aton_loop parts (dec n) = Some (parts, of_nat n, [])"
  using aton_one [OF assms, of "[]"]
  by (subst aton_loop.simps) (auto simp: ends_number_def char_at_def split: prod.splits)

lemma aton_loop_dot:
  assumes "n < 256" "length parts < 3"
  shows "aton_loop parts (dec n @ 46 # rest) = aton_loop (parts @ [of_nat n]) rest"
proof -
  have "ends_number (46 # rest)" by (simp add: ends_number_def)
  from aton_one [OF assms(1) this] assms(2) show ?thesis
    by (subst aton_loop.simps) (auto simp: char_at_def split: prod.splits)
qed

lemma lwip_htonl_bytes:
  "lwip_htonl (ucast (ucast (drop_bit 24 a) :: u8) OR (push_bit 24 (ucast (ucast a :: u8)) OR
     push_bit 16 (ucast (ucast (drop_bit 8 a) :: u8)) OR push_bit 8 (ucast (ucast (drop_bit 16 a) :: u8)))) = a"
  (is "lwip_htonl ?x = a")
proof -
  have "?x = lwip_htonl a"
    unfolding lwip_htonl_def mask8_u32 by (rule bit_word_eqI) (auto simp: bit_simps)
  then show ?thesis by simp
qed

lemma dotted_addr:
  "dotted (addr_bytes a) = dec (unat (ucast a :: u8)) @ 46 # dec (unat (ucast (drop_bit 8 a) :: u8)) @ 46 #
     dec (unat (ucast (drop_bit 16 a) :: u8)) @ 46 # dec (unat (ucast (drop_bit 24 a) :: u8)) @ [46]"
  by (simp only: dotted_def addr_bytes_def rev_ntoa_inv list.map concat.simps) simp

lemma ip4addr_aton_dotted: "ip4addr_aton (butlast (dotted (addr_bytes a))) = Some a"
proof -
  let ?b = "\<lambda>k. ucast (drop_bit k a) :: u8"
  have o: "(of_nat (unat (b :: u8)) :: u32) = ucast b" for b
    by (simp add: word_unat_eq_iff unat_u32_of_nat)
  have le: "\<not> ucast (b :: u8) > (0xff :: u32)" for b
    using unat_u8_less [of b] by (simp add: word_less_nat_alt del: unat_u8_less)
  have "butlast (dotted (addr_bytes a)) = dec (unat (ucast a :: u8)) @ 46 # dec (unat (?b 8)) @ 46 #
     dec (unat (?b 16)) @ 46 # dec (unat (?b 24))"
    unfolding dotted_addr by (simp add: butlast_append)
  then have "aton_loop [] (butlast (dotted (addr_bytes a)))
      = Some ([ucast (ucast a :: u8), ucast (?b 8), ucast (?b 16)], ucast (?b 24), [])"
    by (simp add: aton_loop_dot aton_loop_last del: of_nat_unat) (simp add: o)
  then show ?thesis
    using lwip_htonl_bytes [of a] le by (simp add: ip4addr_aton_def char_at_def aton_combine_def)
qed

lemma dec_nonzero: "n < 256 \<Longrightarrow> 0 \<notin> set (dec n)"
  by (auto simp: dec_def dg_facts(3) [THEN not_sym])

lemma length_dec: "length (dec n) \<le> 3" by (simp add: dec_def)

text \<open>C30. Printing and reading are inverse: for every address, \<open>ip4addr_ntoa_r\<close> succeeds with a
  buffer of \<open>IP4ADDR_STRLEN_MAX\<close> bytes or more, and \<open>ip4addr_aton\<close> reads the string it leaves
  there as the same address.\<close>

theorem ip4addr_ntoa_aton:
  assumes "IP4ADDR_STRLEN_MAX \<le> buflen" "buflen \<le> length buf"
  shows "\<exists>str. ip4addr_ntoa_r addr buf buflen = Some str \<and> length str = length buf
    \<and> ip4addr_aton (cstring str) = Some addr"
proof -
  let ?d = "dotted (addr_bytes addr)"
  have "length ?d \<le> 16"
    unfolding dotted_addr
    using length_dec [of "unat (ucast addr :: u8)"] length_dec [of "unat (ucast (drop_bit 8 addr) :: u8)"]
      length_dec [of "unat (ucast (drop_bit 16 addr) :: u8)"] length_dec [of "unat (ucast (drop_bit 24 addr) :: u8)"]
    by (simp del: unat_ucast_u8_u32)
  then obtain str where s: "ntoa_loop buflen (addr_bytes addr) (buf, 0) = Some (str, length ?d)"
      "length str = length buf" "take (length ?d) str = ?d" "length ?d \<le> length buf"
    using ntoa_loop_spec [of 0 "addr_bytes addr" buflen buf] assms by (auto simp: IP4ADDR_STRLEN_MAX_def)
  have ne: "?d \<noteq> []" by (simp add: dotted_addr)
  have "str = butlast ?d @ last ?d # drop (length ?d) str"
    using s(3) ne by (metis append_butlast_last_id append_take_drop_id append.assoc append_Cons append_Nil)
  then have "str[length ?d - 1 := 0] = butlast ?d @ 0 # drop (length ?d) str"
    by (metis length_butlast list_update_length)
  moreover have "0 \<notin> set (butlast ?d)"
    unfolding dotted_addr by (auto simp: butlast_append dec_nonzero)
  ultimately have "cstring (str[length ?d - 1 := 0]) = butlast ?d" by (simp add: cstring_append)
  then show ?thesis
    using s by (simp add: ip4addr_ntoa_r_def ip4addr_aton_dotted)
qed

theorem ip4addr_ntoa_aton_witness:
  "\<exists>str. ip4addr_ntoa_r 0x0100a8c0 (replicate 16 7) 16 = Some str \<and> length str = 16
    \<and> ip4addr_aton (cstring str) = Some 0x0100a8c0"
  using ip4addr_ntoa_aton [of 16 "replicate 16 7" "0x0100a8c0"] by (simp add: IP4ADDR_STRLEN_MAX_def)

text \<open>Numbers are accumulated modulo \<open>2 ^ 32\<close> without a range check before it: the text
  \<open>4294967297.2.3.4\<close> is read as the address \<open>1.2.3.4\<close>.\<close>

lemma ip4addr_aton_wraps:
  "ip4addr_aton [52, 50, 57, 52, 57, 54, 55, 50, 57, 55, 46, 50, 46, 51, 46, 52] = Some 0x04030201"
  by code_simp
end
