(* ===== verification/Sys_Timeouts.thy ===== *)
theory Sys_Timeouts
  imports Lwip_Prelude "HOL-Library.Multiset" "HOL-Library.Monad_Syntax"
begin

section \<open>Timeouts (timeouts.c)\<close>

text \<open>
  The one list of timeouts, ordered by the time at which they are due on a 32-bit millisecond
  clock that wraps, and the loop \<open>sys_check_timeouts\<close> that \<^verbatim>\<open>TFIPStack\<close> runs from its
  dispatch timer. The handlers of the package are \<open>tcpip_tcp_timer\<close> and \<open>lwip_cyclic_timer\<close>;
  the work they call, the clock and any handler an application registers are the operations
  of \<open>sys_env\<close> on the rest of the stack, whose type is a parameter here. A failed
  \<open>LWIP_ASSERT\<close> ends the program: \<open>None\<close>. So is a call of the loop that does not return.
\<close>

subsection \<open>State\<close>

datatype sys_timeout_handler = tcpip_tcp_timer | lwip_cyclic_timer | user_handler nat | no_handler

record sys_timeo =
  timeo_time :: u32
  timeo_h :: sys_timeout_handler
  timeo_arg :: nat

text \<open>\<open>timeo_avail\<close> is the number of free elements of the pool \<open>MEMP_SYS_TIMEOUT\<close>.\<close>

record 'w timers =
  next_timeout :: "sys_timeo list"
  current_timeout_due_time :: u32
  tcpip_tcp_timer_active :: bool
  timeo_avail :: nat
  stack :: 'w

record 'w sys_env =
  sys_now :: "'w \<Rightarrow> u32"
  env_tcp_tmr :: "'w \<Rightarrow> 'w"
  env_ip_reass_tmr :: "'w \<Rightarrow> 'w"
  env_tcp_pcbs :: "'w \<Rightarrow> bool"
  env_check_free_ooseq :: "'w \<Rightarrow> 'w"
  env_user :: "nat \<Rightarrow> nat \<Rightarrow> 'w \<Rightarrow> 'w"

definition LWIP_MAX_TIMEOUT :: u32 where "LWIP_MAX_TIMEOUT = 0x7fffffff"
definition TCP_TMR_INTERVAL :: u32 where "TCP_TMR_INTERVAL = 250"
definition IP_TMR_INTERVAL :: u32 where "IP_TMR_INTERVAL = 1000"

definition TIME_LESS_THAN :: "u32 \<Rightarrow> u32 \<Rightarrow> bool" where
  "TIME_LESS_THAN t compare_to \<longleftrightarrow> t - compare_to > LWIP_MAX_TIMEOUT"

text \<open>The array of cyclic timers: interval and handler.\<close>

definition lwip_cyclic_timers :: "'w sys_env \<Rightarrow> (u32 \<times> ('w \<Rightarrow> 'w)) list" where
  "lwip_cyclic_timers e = [(TCP_TMR_INTERVAL, env_tcp_tmr e), (IP_TMR_INTERVAL, env_ip_reass_tmr e)]"

subsection \<open>Operations\<close>

text \<open>The loop that finds the place of a new timeout behind the head of the list.\<close>

fun timeo_insert_after :: "sys_timeo \<Rightarrow> sys_timeo list \<Rightarrow> sys_timeo list" where
  "timeo_insert_after timeout [] = []"
| "timeo_insert_after timeout (t # ts) =
     (if ts = [] \<or> TIME_LESS_THAN (timeo_time timeout) (timeo_time (hd ts))
      then t # timeout # ts
      else t # timeo_insert_after timeout ts)"

definition timeo_insert :: "sys_timeo \<Rightarrow> sys_timeo list \<Rightarrow> sys_timeo list" where
  "timeo_insert timeout ts =
     (if ts = [] then [timeout]
      else if TIME_LESS_THAN (timeo_time timeout) (timeo_time (hd ts)) then timeout # ts
      else timeo_insert_after timeout ts)"

definition sys_timeout_abs ::
    "u32 \<Rightarrow> sys_timeout_handler \<Rightarrow> nat \<Rightarrow> 'w timers \<Rightarrow> 'w timers option" where
  "sys_timeout_abs abs_time handler arg st =
     (if timeo_avail st = 0 then None
      else
        let timeout = \<lparr>timeo_time = abs_time, timeo_h = handler, timeo_arg = arg\<rparr>
        in Some (st\<lparr>timeo_avail := timeo_avail st - 1,
                    next_timeout := timeo_insert timeout (next_timeout st)\<rparr>))"

definition sys_timeout ::
    "'w sys_env \<Rightarrow> u32 \<Rightarrow> sys_timeout_handler \<Rightarrow> nat \<Rightarrow> 'w timers \<Rightarrow> 'w timers option" where
  "sys_timeout e msecs handler arg st =
     (if \<not> msecs \<le> 0x3fffffff then None
      else sys_timeout_abs (sys_now e (stack st) + msecs) handler arg st)"

definition tcpip_tcp_timer_fn :: "'w sys_env \<Rightarrow> 'w timers \<Rightarrow> 'w timers option" where
  "tcpip_tcp_timer_fn e st =
     (let st = st\<lparr>stack := env_tcp_tmr e (stack st)\<rparr>
      in if env_tcp_pcbs e (stack st) then sys_timeout e TCP_TMR_INTERVAL tcpip_tcp_timer 0 st
         else Some (st\<lparr>tcpip_tcp_timer_active := False\<rparr>))"

definition tcp_timer_needed :: "'w sys_env \<Rightarrow> 'w timers \<Rightarrow> 'w timers option" where
  "tcp_timer_needed e st =
     (if \<not> tcpip_tcp_timer_active st \<and> env_tcp_pcbs e (stack st)
      then sys_timeout e TCP_TMR_INTERVAL tcpip_tcp_timer 0 (st\<lparr>tcpip_tcp_timer_active := True\<rparr>)
      else Some st)"

text \<open>The argument of a cyclic timer is the index of its entry in the array.\<close>

definition lwip_cyclic_timer_fn :: "'w sys_env \<Rightarrow> nat \<Rightarrow> 'w timers \<Rightarrow> 'w timers option" where
  "lwip_cyclic_timer_fn e arg st =
     (let (interval_ms, handler) = lwip_cyclic_timers e ! arg;
          st = st\<lparr>stack := handler (stack st)\<rparr>;
          now = sys_now e (stack st);
          next_timeout_time = current_timeout_due_time st + interval_ms
      in if TIME_LESS_THAN next_timeout_time now
         then sys_timeout_abs (now + interval_ms) lwip_cyclic_timer arg st
         else sys_timeout_abs next_timeout_time lwip_cyclic_timer arg st)"

fun sys_timeouts_init_loop :: "'w sys_env \<Rightarrow> nat list \<Rightarrow> 'w timers \<Rightarrow> 'w timers option" where
  "sys_timeouts_init_loop e [] st = Some st"
| "sys_timeouts_init_loop e (i # is) st =
     sys_timeout e (fst (lwip_cyclic_timers e ! i)) lwip_cyclic_timer i st
       \<bind> sys_timeouts_init_loop e is"

definition sys_timeouts_init :: "'w sys_env \<Rightarrow> 'w timers \<Rightarrow> 'w timers option" where
  "sys_timeouts_init e st = sys_timeouts_init_loop e [1..<length (lwip_cyclic_timers e)] st"

fun untimeout_loop :: "sys_timeout_handler \<Rightarrow> nat \<Rightarrow> sys_timeo list \<Rightarrow> sys_timeo list option" where
  "untimeout_loop handler arg [] = None"
| "untimeout_loop handler arg (t # ts) =
     (if timeo_h t = handler \<and> timeo_arg t = arg then Some ts
      else map_option ((#) t) (untimeout_loop handler arg ts))"

definition sys_untimeout :: "sys_timeout_handler \<Rightarrow> nat \<Rightarrow> 'w timers \<Rightarrow> 'w timers" where
  "sys_untimeout handler arg st =
     (case untimeout_loop handler arg (next_timeout st) of
        None \<Rightarrow> st
      | Some ts \<Rightarrow> st\<lparr>next_timeout := ts, timeo_avail := timeo_avail st + 1\<rparr>)"

definition call_handler ::
    "'w sys_env \<Rightarrow> sys_timeout_handler \<Rightarrow> nat \<Rightarrow> 'w timers \<Rightarrow> 'w timers option" where
  "call_handler e handler arg st =
     (case handler of
        tcpip_tcp_timer \<Rightarrow> tcpip_tcp_timer_fn e st
      | lwip_cyclic_timer \<Rightarrow> lwip_cyclic_timer_fn e arg st
      | user_handler n \<Rightarrow> Some (st\<lparr>stack := env_user e n arg (stack st)\<rparr>)
      | no_handler \<Rightarrow> Some st)"

partial_function (option) check_timeouts_loop ::
    "'w sys_env \<Rightarrow> u32 \<Rightarrow> 'w timers \<Rightarrow> 'w timers option" where
  [code]: "check_timeouts_loop e now st =
     (let st = st\<lparr>stack := env_check_free_ooseq e (stack st)\<rparr>
      in case next_timeout st of
           [] \<Rightarrow> Some st
         | tmptimeout # ts \<Rightarrow>
             if TIME_LESS_THAN now (timeo_time tmptimeout) then Some st
             else
               call_handler e (timeo_h tmptimeout) (timeo_arg tmptimeout)
                 (st\<lparr>next_timeout := ts,
                     current_timeout_due_time := timeo_time tmptimeout,
                     timeo_avail := timeo_avail st + 1\<rparr>)
                 \<bind> check_timeouts_loop e now)"

definition sys_check_timeouts :: "'w sys_env \<Rightarrow> 'w timers \<Rightarrow> 'w timers option" where
  "sys_check_timeouts e st = check_timeouts_loop e (sys_now e (stack st)) st"

definition sys_restart_timeouts :: "'w sys_env \<Rightarrow> 'w timers \<Rightarrow> 'w timers" where
  "sys_restart_timeouts e st =
     (case next_timeout st of
        [] \<Rightarrow> st
      | t # ts \<Rightarrow>
          let now = sys_now e (stack st); base = timeo_time t
          in st\<lparr>next_timeout :=
                 map (\<lambda>t. t\<lparr>timeo_time := (timeo_time t - base) + now\<rparr>) (next_timeout st)\<rparr>)"

definition SYS_TIMEOUTS_SLEEPTIME_INFINITE :: u32 where
  "SYS_TIMEOUTS_SLEEPTIME_INFINITE = 0xffffffff"

definition sys_timeouts_sleeptime :: "'w sys_env \<Rightarrow> 'w timers \<Rightarrow> u32 option" where
  "sys_timeouts_sleeptime e st =
     (case next_timeout st of
        [] \<Rightarrow> Some SYS_TIMEOUTS_SLEEPTIME_INFINITE
      | t # ts \<Rightarrow>
          let now = sys_now e (stack st)
          in if TIME_LESS_THAN (timeo_time t) now then Some 0
             else let ret = timeo_time t - now
                  in if ret \<le> LWIP_MAX_TIMEOUT then Some ret else None)"

subsection \<open>Times on the wrapping clock\<close>

text \<open>The position of a time on the line that starts \<open>2 ^ 30\<close> ms before \<open>now\<close>. Times within
  \<open>2 ^ 30\<close> ms of \<open>now\<close> are compared by it.\<close>

definition time_key :: "u32 \<Rightarrow> u32 \<Rightarrow> nat" where
  "time_key now t = unat (t - (now - 0x40000000))"

definition in_window :: "u32 \<Rightarrow> u32 \<Rightarrow> bool" where
  "in_window now t \<longleftrightarrow> time_key now t < 0x80000000"

lemma TIME_LESS_THAN_key:
  assumes "in_window now a" "in_window now b"
  shows "TIME_LESS_THAN a b \<longleftrightarrow> time_key now a < time_key now b"
proof -
  define x y where "x = a - (now - 0x40000000)" and "y = b - (now - 0x40000000)"
  have xy: "unat x < 0x80000000" "unat y < 0x80000000"
    using assms by (simp_all add: in_window_def time_key_def x_def y_def)
  have d: "a - b = x - y" by (simp add: x_def y_def)
  show ?thesis
  proof (cases "y \<le> x")
    case True
    then have "unat (a - b) = unat x - unat y" unfolding d by (rule unat_u32_sub)
    then show ?thesis
      using xy True by (simp add: TIME_LESS_THAN_def LWIP_MAX_TIMEOUT_def word_less_nat_alt
          word_le_nat_alt time_key_def x_def [symmetric] y_def [symmetric])
  next
    case False
    then have lt: "unat x < unat y" by (simp add: word_le_nat_alt)
    have "unat (a - b) = 4294967296 + unat x - unat y"
      unfolding d using lt by (simp add: unat_sub_if_size word_size)
    then show ?thesis
      using xy lt by (simp add: TIME_LESS_THAN_def LWIP_MAX_TIMEOUT_def word_less_nat_alt
          time_key_def x_def [symmetric] y_def [symmetric])
  qed
qed

lemma time_key_add: "unat m < 0xc0000000 \<Longrightarrow> time_key now (now + m) = 0x40000000 + unat m"
proof -
  assume a: "unat m < 0xc0000000"
  have "now + m - (now - 0x40000000) = 0x40000000 + m" by simp
  then show ?thesis using a by (simp add: time_key_def unat_u32_add)
qed

lemma time_key_now [simp]: "time_key now now = 0x40000000"
  using time_key_add [of 0 now] by simp

lemma in_window_now [simp]: "in_window now now"
  by (simp add: in_window_def)

lemma time_key_plus:
  "time_key now t + unat m < 0x100000000 \<Longrightarrow> time_key now (t + m) = time_key now t + unat m"
proof -
  assume a: "time_key now t + unat m < 0x100000000"
  have e: "t + m - (now - 0x40000000) = (t - (now - 0x40000000)) + m" by simp
  show ?thesis using a unfolding time_key_def e unat_u32_add by simp
qed

subsection \<open>The ordered list\<close>

definition timers_ok :: "u32 \<Rightarrow> sys_timeo list \<Rightarrow> bool" where
  "timers_ok now ts \<longleftrightarrow> (\<forall>t\<in>set ts. in_window now (timeo_time t))
     \<and> sorted (map (\<lambda>t. time_key now (timeo_time t)) ts)
     \<and> (\<forall>t\<in>set ts. timeo_h t = lwip_cyclic_timer \<longrightarrow> timeo_arg t < 2)"

abbreviation before :: "u32 \<Rightarrow> sys_timeo \<Rightarrow> sys_timeo \<Rightarrow> bool" where
  "before now x t \<equiv> time_key now (timeo_time t) \<le> time_key now (timeo_time x)"

lemma timeo_insert_after_spec:
  assumes "ts \<noteq> []" "\<forall>t\<in>set ts. in_window now (timeo_time t)" "in_window now (timeo_time x)"
    and "before now x (hd ts)"
  shows "timeo_insert_after x ts = takeWhile (before now x) ts @ x # dropWhile (before now x) ts"
  using assms
proof (induction x ts rule: timeo_insert_after.induct)
  case (2 x t ts)
  then show ?case
    using TIME_LESS_THAN_key [of now "timeo_time x" "timeo_time (hd ts)"]
    by (cases ts) (auto simp: not_less)
qed simp

lemma timeo_insert_spec:
  assumes "\<forall>t\<in>set ts. in_window now (timeo_time t)" "in_window now (timeo_time x)"
  shows "timeo_insert x ts = takeWhile (before now x) ts @ x # dropWhile (before now x) ts"
proof (cases ts)
  case (Cons t ts')
  then show ?thesis
    using timeo_insert_after_spec [OF _ assms] assms
      TIME_LESS_THAN_key [of now "timeo_time x" "timeo_time t"]
    by (auto simp: timeo_insert_def not_less)
qed (simp add: timeo_insert_def)

lemma timers_ok_insert:
  assumes "timers_ok now ts" "in_window now (timeo_time x)" "timeo_h x = lwip_cyclic_timer \<Longrightarrow> timeo_arg x < 2"
  shows "timers_ok now (timeo_insert x ts)" "mset (timeo_insert x ts) = add_mset x (mset ts)"
proof -
  let ?k = "\<lambda>t. time_key now (timeo_time t)"
  let ?a = "takeWhile (before now x) ts" and ?b = "dropWhile (before now x) ts"
  have w: "\<forall>t\<in>set ts. in_window now (timeo_time t)" using assms(1) by (simp add: timers_ok_def)
  note i = timeo_insert_spec [OF w assms(2)]
  show m: "mset (timeo_insert x ts) = add_mset x (mset ts)"
    unfolding i by simp (metis mset_append takeWhile_dropWhile_id)
  have s: "sorted (map ?k (?a @ ?b))" using assms(1) by (simp add: timers_ok_def)
  then have sab: "sorted (map ?k ?a)" "sorted (map ?k ?b)"
    unfolding map_append sorted_append by auto
  have "\<forall>t\<in>set ?a. ?k t \<le> ?k x" using set_takeWhileD by fastforce
  moreover have "\<forall>t\<in>set ?b. ?k x \<le> ?k t"
  proof (cases ?b)
    case (Cons u us)
    then have "\<not> before now x u" by (metis hd_dropWhile list.sel(1) list.distinct(1))
    then show ?thesis using sab(2) Cons by auto
  qed (simp only: list.set ball_simps)
  ultimately have "sorted (map ?k (timeo_insert x ts))"
    unfolding i using sab by (auto simp: sorted_append intro: order_trans)
  moreover have "set (timeo_insert x ts) = insert x (set ts)"
    using m by (metis set_mset_add_mset_insert set_mset_mset)
  ultimately show "timers_ok now (timeo_insert x ts)"
    using assms by (auto simp: timers_ok_def)
qed

text \<open>C33. A new timeout is queued behind every timeout that is due no later and before every
  later one, also when the clock wraps: with all times within \<open>2 ^ 30\<close> ms of now, the list
  stays sorted.\<close>

theorem sys_timeout_insert:
  assumes "now = sys_now e (stack st)" "timers_ok now (next_timeout st)"
    and "msecs \<le> 0x3fffffff" "0 < timeo_avail st" "h = lwip_cyclic_timer \<Longrightarrow> arg < 2"
  shows "\<exists>st'. sys_timeout e msecs h arg st = Some st' \<and> timers_ok now (next_timeout st')
    \<and> next_timeout st'
        = takeWhile (\<lambda>t. time_key now (timeo_time t) \<le> 0x40000000 + unat msecs) (next_timeout st)
          @ \<lparr>timeo_time = now + msecs, timeo_h = h, timeo_arg = arg\<rparr>
          # dropWhile (\<lambda>t. time_key now (timeo_time t) \<le> 0x40000000 + unat msecs) (next_timeout st)
    \<and> timeo_avail st' = timeo_avail st - 1"
proof -
  let ?x = "\<lparr>timeo_time = now + msecs, timeo_h = h, timeo_arg = arg\<rparr>"
  have m: "unat msecs < 0x40000000" using assms(3) by (simp add: word_le_nat_alt)
  then have k: "time_key now (now + msecs) = 0x40000000 + unat msecs" by (intro time_key_add) simp
  then have "in_window now (timeo_time ?x)" using m by (simp add: in_window_def)
  then show ?thesis
    using timers_ok_insert(1) [OF assms(2), of ?x] timeo_insert_spec [of "next_timeout st" now ?x] assms k
    by (auto simp: sys_timeout_def sys_timeout_abs_def timers_ok_def)
qed

subsection \<open>The loop ends\<close>

text \<open>The clock does not run backwards while handlers run, and they take less than \<open>2 ^ 29\<close> ms.\<close>

definition in_time :: "'w sys_env \<Rightarrow> u32 \<Rightarrow> 'w \<Rightarrow> bool" where
  "in_time e now w \<longleftrightarrow> sys_now e w - now < 0x20000000"

definition env_ok :: "'w sys_env \<Rightarrow> u32 \<Rightarrow> bool" where
  "env_ok e now \<longleftrightarrow> (\<forall>w. in_time e now w \<longrightarrow>
     in_time e now (env_tcp_tmr e w) \<and> in_time e now (env_ip_reass_tmr e w)
     \<and> in_time e now (env_check_free_ooseq e w) \<and> (\<forall>n a. in_time e now (env_user e n a w)))"

definition weight :: "u32 \<Rightarrow> u32 \<Rightarrow> nat" where
  "weight now t = (if time_key now t < 0x40000000 then 2 else if time_key now t = 0x40000000 then 1 else 0)"

definition weights :: "u32 \<Rightarrow> sys_timeo list \<Rightarrow> nat" where
  "weights now ts = sum_list (map (\<lambda>t. weight now (timeo_time t)) ts)"

text \<open>A state in which a handler of a timeout that was due at \<open>d\<close> runs, and the state after it.\<close>

definition loop_inv :: "'w sys_env \<Rightarrow> u32 \<Rightarrow> nat \<Rightarrow> 'w timers \<Rightarrow> bool" where
  "loop_inv e now n st \<longleftrightarrow> timers_ok now (next_timeout st) \<and> in_time e now (stack st)
     \<and> timeo_avail st + length (next_timeout st) = n"

lemma weights_insert:
  assumes "mset ts' = add_mset x (mset ts)"
  shows "weights now ts' = weight now (timeo_time x) + weights now ts" "length ts' = Suc (length ts)"
proof -
  have "weights now ts' = sum_mset (image_mset (\<lambda>t. weight now (timeo_time t)) (mset ts'))"
    by (simp add: weights_def flip: sum_mset_sum_list mset_map)
  also have "\<dots> = weight now (timeo_time x) + weights now ts"
    unfolding assms by (simp add: weights_def flip: sum_mset_sum_list mset_map)
  finally show "weights now ts' = weight now (timeo_time x) + weights now ts" .
  show "length ts' = Suc (length ts)" using assms by (metis size_add_mset size_mset)
qed

lemma sys_timeout_abs_step:
  assumes "loop_inv e now n st" "0 < timeo_avail st" "in_window now t"
    and "h = lwip_cyclic_timer \<Longrightarrow> arg < 2"
  shows "\<exists>st'. sys_timeout_abs t h arg st = Some st' \<and> loop_inv e now n st'
    \<and> weights now (next_timeout st') = weight now t + weights now (next_timeout st)"
proof -
  let ?x = "\<lparr>timeo_time = t, timeo_h = h, timeo_arg = arg\<rparr>"
  have "timers_ok now (next_timeout st)" using assms(1) by (simp add: loop_inv_def)
  from timers_ok_insert [OF this, of ?x] assms(3,4)
  have i: "timers_ok now (timeo_insert ?x (next_timeout st))"
    "mset (timeo_insert ?x (next_timeout st)) = add_mset ?x (mset (next_timeout st))" by auto
  show ?thesis
    using i(1) weights_insert(1) [OF i(2), of now] weights_insert(2) [OF i(2)] assms(1,2)
    by (auto simp: sys_timeout_abs_def loop_inv_def)
qed

lemma in_time_key:
  assumes "in_time e now w"
  shows "0x40000000 \<le> time_key now (sys_now e w)" "time_key now (sys_now e w) < 0x60000000"
proof -
  let ?d = "sys_now e w - now"
  have d: "unat ?d < 0x20000000" using assms by (simp add: in_time_def word_less_nat_alt)
  have "time_key now (now + ?d) = 0x40000000 + unat ?d" using d by (intro time_key_add) simp
  then show "0x40000000 \<le> time_key now (sys_now e w)" "time_key now (sys_now e w) < 0x60000000"
    using d by simp_all
qed

lemma sys_now_plus:
  assumes "in_time e now w" "iv \<in> {250, 1000}"
  shows "in_window now (sys_now e w + iv)" "weight now (sys_now e w + iv) = 0"
proof -
  have u: "unat iv \<in> {250, 1000}" using assms(2) by auto
  then have "time_key now (sys_now e w + iv) = time_key now (sys_now e w) + unat iv"
    using in_time_key [OF assms(1)] by (intro time_key_plus) auto
  then show "in_window now (sys_now e w + iv)" "weight now (sys_now e w + iv) = 0"
    using in_time_key [OF assms(1)] u by (auto simp: in_window_def weight_def)
qed

lemma expired_key:
  assumes "in_window now d"
  shows "\<not> TIME_LESS_THAN now d \<longleftrightarrow> time_key now d \<le> 0x40000000"
  using TIME_LESS_THAN_key [OF in_window_now assms] by auto

lemma due_plus:
  assumes "in_time e now w" "iv \<in> {250, 1000}" "in_window now d" "time_key now d \<le> 0x40000000"
    and "\<not> TIME_LESS_THAN (d + iv) (sys_now e w)"
  shows "in_window now (d + iv)" "weight now (d + iv) < weight now d"
proof -
  have u: "unat iv \<in> {250, 1000}" using assms(2) by auto
  have k: "time_key now (d + iv) = time_key now d + unat iv"
    using assms(4) u by (intro time_key_plus) auto
  then show w: "in_window now (d + iv)" using assms(4) u by (auto simp: in_window_def)
  have "in_window now (sys_now e w)" using in_time_key [OF assms(1)] by (simp add: in_window_def)
  from TIME_LESS_THAN_key [OF w this] assms(5)
  have "time_key now (sys_now e w) \<le> time_key now (d + iv)" by simp
  then show "weight now (d + iv) < weight now d"
    using in_time_key(1) [OF assms(1)] assms(4) k u by (auto simp: weight_def)
qed

lemma weight_expired: "time_key now d \<le> 0x40000000 \<Longrightarrow> 0 < weight now d"
  by (simp add: weight_def)

lemma loop_inv_stack: "loop_inv e now n st \<Longrightarrow> in_time e now w \<Longrightarrow> loop_inv e now n (st\<lparr>stack := w\<rparr>)"
  by (simp add: loop_inv_def)

lemma lwip_cyclic_timer_fn_step:
  assumes "env_ok e now" "loop_inv e now n st" "0 < timeo_avail st" "arg < 2"
    and "in_window now d" "time_key now d \<le> 0x40000000" "current_timeout_due_time st = d"
  shows "\<exists>st'. lwip_cyclic_timer_fn e arg st = Some st' \<and> loop_inv e now n st'
    \<and> weights now (next_timeout st') < weight now d + weights now (next_timeout st)"
proof -
  obtain iv f where f: "lwip_cyclic_timers e ! arg = (iv, f)" "iv \<in> {250, 1000}"
      "f \<in> {env_tcp_tmr e, env_ip_reass_tmr e}"
  proof (cases "arg = 0")
    case True
    then show ?thesis by (intro that [of TCP_TMR_INTERVAL "env_tcp_tmr e"])
        (simp_all add: lwip_cyclic_timers_def TCP_TMR_INTERVAL_def)
  next
    case False
    then have "arg = 1" using assms(4) by simp
    then show ?thesis by (intro that [of IP_TMR_INTERVAL "env_ip_reass_tmr e"])
        (simp_all add: lwip_cyclic_timers_def IP_TMR_INTERVAL_def)
  qed
  let ?st = "st\<lparr>stack := f (stack st)\<rparr>"
  have t: "in_time e now (f (stack st))"
    using assms(1,2) f(3) by (auto simp: env_ok_def loop_inv_def)
  have i: "loop_inv e now n ?st" by (rule loop_inv_stack [OF assms(2) t])
  let ?x = "if TIME_LESS_THAN (d + iv) (sys_now e (f (stack st))) then sys_now e (f (stack st)) + iv else d + iv"
  have code: "lwip_cyclic_timer_fn e arg st = sys_timeout_abs ?x lwip_cyclic_timer arg ?st"
    using assms(7) by (simp add: lwip_cyclic_timer_fn_def f(1) Let_def)
  have x: "in_window now ?x" "weight now ?x < weight now d"
    using sys_now_plus [OF t f(2)] due_plus [OF t f(2) assms(5,6)] weight_expired [OF assms(6)] by auto
  show ?thesis
    using sys_timeout_abs_step [OF i _ x(1), of lwip_cyclic_timer arg] assms(3,4) x(2) unfolding code by auto
qed

lemma call_handler_step:
  assumes "env_ok e now" "loop_inv e now n st" "0 < timeo_avail st" "h = lwip_cyclic_timer \<Longrightarrow> arg < 2"
    and "in_window now d" "time_key now d \<le> 0x40000000" "current_timeout_due_time st = d"
  shows "\<exists>st'. call_handler e h arg st = Some st' \<and> loop_inv e now n st'
    \<and> weights now (next_timeout st') < weight now d + weights now (next_timeout st)"
proof (cases h)
  case tcpip_tcp_timer
  let ?st = "st\<lparr>stack := env_tcp_tmr e (stack st)\<rparr>"
  have t: "in_time e now (env_tcp_tmr e (stack st))" using assms(1,2) by (simp add: env_ok_def loop_inv_def)
  have i: "loop_inv e now n ?st" by (rule loop_inv_stack [OF assms(2) t])
  note x = sys_now_plus [OF t, of 250, simplified]
  show ?thesis
  proof (cases "env_tcp_pcbs e (stack ?st)")
    case True
    then show ?thesis
      using sys_timeout_abs_step [OF i _ x(1), of tcpip_tcp_timer 0] assms(3) x(2) weight_expired [OF assms(6)]
      by (auto simp: tcpip_tcp_timer call_handler_def tcpip_tcp_timer_fn_def sys_timeout_def TCP_TMR_INTERVAL_def Let_def)
  next
    case False
    then show ?thesis
      using i weight_expired [OF assms(6)]
      by (auto simp: tcpip_tcp_timer call_handler_def tcpip_tcp_timer_fn_def loop_inv_def Let_def)
  qed
next
  case lwip_cyclic_timer
  then show ?thesis
    using lwip_cyclic_timer_fn_step [OF assms(1-3) _ assms(5-7)] assms(4) by (simp add: call_handler_def)
next
  case (user_handler k)
  then show ?thesis
    using assms(1,2) weight_expired [OF assms(6)] loop_inv_stack [OF assms(2)]
    by (auto simp: call_handler_def env_ok_def loop_inv_def)
next
  case no_handler
  then show ?thesis
    using assms(2) weight_expired [OF assms(6)] by (auto simp: call_handler_def)
qed

lemma check_timeouts_loop_returns:
  assumes "env_ok e now" "loop_inv e now n st"
  shows "\<exists>st'. check_timeouts_loop e now st = Some st' \<and> loop_inv e now n st'
    \<and> (\<forall>t\<in>set (next_timeout st'). TIME_LESS_THAN now (timeo_time t))"
  using assms(2)
proof (induction "weights now (next_timeout st)" arbitrary: st rule: less_induct)
  case less
  let ?st = "st\<lparr>stack := env_check_free_ooseq e (stack st)\<rparr>"
  have i: "loop_inv e now n ?st"
    using assms(1) less.prems by (intro loop_inv_stack) (auto simp: env_ok_def loop_inv_def)
  show ?case
  proof (cases "next_timeout st")
    case Nil
    then show ?thesis using i by (subst check_timeouts_loop.simps) (simp add: Let_def)
  next
    case (Cons t ts)
    have ok: "timers_ok now (t # ts)" using less.prems Cons by (simp add: loop_inv_def)
    then have w: "in_window now (timeo_time t)" by (simp add: timers_ok_def)
    show ?thesis
    proof (cases "TIME_LESS_THAN now (timeo_time t)")
      case True
      then have "0x40000000 < time_key now (timeo_time t)" using expired_key [OF w] by simp
      then have "\<forall>u\<in>set (t # ts). TIME_LESS_THAN now (timeo_time u)"
        using ok TIME_LESS_THAN_key [OF in_window_now] by (fastforce simp: timers_ok_def)
      then show ?thesis using i True Cons by (subst check_timeouts_loop.simps) (simp add: Let_def)
    next
      case False
      then have k: "time_key now (timeo_time t) \<le> 0x40000000" using expired_key [OF w] by simp
      let ?st1 = "?st\<lparr>next_timeout := ts, current_timeout_due_time := timeo_time t,
                       timeo_avail := timeo_avail st + 1\<rparr>"
      have i1: "loop_inv e now n ?st1" "timeo_h t = lwip_cyclic_timer \<Longrightarrow> timeo_arg t < 2"
        using i ok Cons by (auto simp: loop_inv_def timers_ok_def)
      then obtain st2 where 2: "call_handler e (timeo_h t) (timeo_arg t) ?st1 = Some st2" "loop_inv e now n st2"
          "weights now (next_timeout st2) < weight now (timeo_time t) + weights now ts"
        using call_handler_step [OF assms(1) i1(1) _ i1(2) w k] by auto
      have "weights now (next_timeout st2) < weights now (next_timeout st)"
        using 2(3) Cons by (simp add: weights_def)
      from less.hyps [OF this 2(2)] show ?thesis
        using False Cons 2(1) by (subst check_timeouts_loop.simps) (simp add: Let_def)
    qed
  qed
qed


definition demo_env :: "u32 sys_env" where
  "demo_env = \<lparr>sys_now = (\<lambda>w. w), env_tcp_tmr = (\<lambda>w. w), env_ip_reass_tmr = (\<lambda>w. w),
     env_tcp_pcbs = (\<lambda>w. True), env_check_free_ooseq = (\<lambda>w. w), env_user = (\<lambda>n a w. w)\<rparr>"

definition demo_timers :: "u32 timers" where
  "demo_timers = \<lparr>next_timeout =
       [\<lparr>timeo_time = 0xfffffff0, timeo_h = lwip_cyclic_timer, timeo_arg = 1\<rparr>,
        \<lparr>timeo_time = 7, timeo_h = tcpip_tcp_timer, timeo_arg = 0\<rparr>],
     current_timeout_due_time = 0, tcpip_tcp_timer_active = True, timeo_avail = 0, stack = 10\<rparr>"

theorem sys_timeout_insert_witness:
  "\<exists>st'. sys_timeout demo_env 3 (user_handler 1) 5 (demo_timers\<lparr>timeo_avail := 1\<rparr>) = Some st'
    \<and> map timeo_time (next_timeout st') = [0xfffffff0, 7, 13]"
  using sys_timeout_insert [of 10 demo_env "demo_timers\<lparr>timeo_avail := 1\<rparr>" 3 "user_handler 1" 5]
  by (auto simp: demo_env_def demo_timers_def timers_ok_def in_window_def time_key_def)


subsection \<open>Rebasing, waiting and removal\<close>

text \<open>C34. After \<open>sys_restart_timeouts\<close> the first timeout is due now and the distances between the
  timeouts are as before; \<open>sys_timeouts_sleeptime\<close> is then 0.\<close>

theorem sys_restart_timeouts_spec:
  assumes "next_timeout st \<noteq> []"
  shows "let st' = sys_restart_timeouts e st in
      timeo_time (hd (next_timeout st')) = sys_now e (stack st)
    \<and> map (\<lambda>t. timeo_time t - timeo_time (hd (next_timeout st'))) (next_timeout st')
      = map (\<lambda>t. timeo_time t - timeo_time (hd (next_timeout st))) (next_timeout st)
    \<and> map timeo_h (next_timeout st') = map timeo_h (next_timeout st)
    \<and> sys_timeouts_sleeptime e st' = Some 0"
  using assms by (cases "next_timeout st")
    (auto simp: sys_restart_timeouts_def sys_timeouts_sleeptime_def Let_def TIME_LESS_THAN_def)

theorem sys_restart_timeouts_spec_witness:
  "timeo_time (hd (next_timeout (sys_restart_timeouts demo_env demo_timers))) = 10"
  using sys_restart_timeouts_spec [of demo_timers demo_env]
  by (simp add: Let_def demo_timers_def demo_env_def)

text \<open>The sleep time is the distance to the first timeout, so that no timeout is due before it
  has passed, and the assertion on it holds.\<close>

lemma sys_timeouts_sleeptime_spec:
  assumes "timers_ok (sys_now e (stack st)) (t # ts)" "next_timeout st = t # ts"
  shows "\<exists>r. sys_timeouts_sleeptime e st = Some r \<and> unat r = time_key (sys_now e (stack st)) (timeo_time t) - 0x40000000"
proof -
  let ?now = "sys_now e (stack st)" and ?k = "time_key (sys_now e (stack st)) (timeo_time t)"
  have w: "in_window ?now (timeo_time t)" using assms(1) by (simp add: timers_ok_def)
  note c = TIME_LESS_THAN_key [OF w in_window_now]
  show ?thesis
  proof (cases "TIME_LESS_THAN (timeo_time t) ?now")
    case True
    then show ?thesis using c assms(2) by (simp add: sys_timeouts_sleeptime_def)
  next
    case False
    then have k: "0x40000000 \<le> ?k" using c by simp
    have le: "0x40000000 \<le> timeo_time t - (?now - 0x40000000)"
      using k by (simp add: time_key_def word_le_nat_alt)
    have "unat (timeo_time t - ?now) = unat ((timeo_time t - (?now - 0x40000000)) - 0x40000000)" by simp
    also have "\<dots> = ?k - 0x40000000" unfolding unat_u32_sub [OF le] by (simp add: time_key_def)
    finally have "unat (timeo_time t - ?now) = ?k - 0x40000000" .
    then show ?thesis
      using False assms(2) w
      by (auto simp: sys_timeouts_sleeptime_def Let_def LWIP_MAX_TIMEOUT_def word_le_nat_alt in_window_def)
  qed
qed

text \<open>\<open>sys_untimeout\<close> removes the first entry with the handler and the argument, and no other.\<close>

lemma untimeout_loop_None: "untimeout_loop h a ts = None \<longleftrightarrow> (\<forall>t\<in>set ts. \<not> (timeo_h t = h \<and> timeo_arg t = a))"
  by (induction ts) auto

lemma untimeout_loop_Some:
  "untimeout_loop h a ts = Some ts' \<Longrightarrow>
   \<exists>xs t ys. ts = xs @ t # ys \<and> ts' = xs @ ys \<and> timeo_h t = h \<and> timeo_arg t = a
     \<and> (\<forall>x\<in>set xs. \<not> (timeo_h x = h \<and> timeo_arg x = a))"
proof (induction ts arbitrary: ts')
  case (Cons t ts)
  show ?case
  proof (cases "timeo_h t = h \<and> timeo_arg t = a")
    case True
    then show ?thesis using Cons.prems by (intro exI [of _ "[]"]) auto
  next
    case False
    then obtain ts1 where 1: "untimeout_loop h a ts = Some ts1" "ts' = t # ts1" using Cons.prems by auto
    from Cons.IH [OF 1(1)] obtain xs u ys where "ts = xs @ u # ys" "ts1 = xs @ ys" "timeo_h u = h" "timeo_arg u = a"
      "\<forall>x\<in>set xs. \<not> (timeo_h x = h \<and> timeo_arg x = a)" by blast
    then show ?thesis using 1(2) False by (intro exI [of _ "t # xs"]) auto
  qed
qed simp

lemma sys_untimeout_ok:
  assumes "timers_ok now (next_timeout st)"
  shows "timers_ok now (next_timeout (sys_untimeout h a st))"
    and "timeo_avail (sys_untimeout h a st) + length (next_timeout (sys_untimeout h a st))
         = timeo_avail st + length (next_timeout st)"
proof -
  have "timers_ok now (xs @ t # ys) \<Longrightarrow> timers_ok now (xs @ ys)" for xs t ys
    by (auto simp: timers_ok_def sorted_append)
  then show "timers_ok now (next_timeout (sys_untimeout h a st))"
    using assms untimeout_loop_Some [of h a "next_timeout st"]
    by (cases "untimeout_loop h a (next_timeout st)") (fastforce simp: sys_untimeout_def)+
  show "timeo_avail (sys_untimeout h a st) + length (next_timeout (sys_untimeout h a st))
         = timeo_avail st + length (next_timeout st)"
    using untimeout_loop_Some [of h a "next_timeout st"]
    by (cases "untimeout_loop h a (next_timeout st)") (auto simp: sys_untimeout_def)
qed
end
