(* ===== verification/Lwip_Mem.thy ===== *)
theory Lwip_Mem
  imports Lwip_Prelude "HOL-Library.Monad_Syntax"
begin

section \<open>The heap (mem.c)\<close>

text \<open>
  The first-fit allocator behind \<open>PBUF_RAM\<close>: a region of \<open>MEM_SIZE_ALIGNED\<close> bytes cut into blocks,
  each with a \<open>struct mem\<close> header at its start that holds the offsets of the next and the
  previous header. Offsets into the region stand for pointers, so \<open>ptr_to_mem\<close> and \<open>mem_to_ptr\<close>
  are the identity; the size of the region is the argument \<open>M\<close> of the operations, 16 MiB on iOS
  and 64 MiB on macOS. \<open>mem_size_t\<close> is 32 bits wide and sums that are cast to it are taken
  modulo \<open>2 ^ 32\<close>; \<open>SIZEOF_STRUCT_MEM\<close> is a \<open>size_t\<close>, so differences with it are 64-bit.
  \<open>None\<close> is a failed assertion, which \<open>LWIP_MEM_ILLEGAL_FREE\<close> is too, or a scan that does not
  end. The sanity and overflow checks and the statistics are compiled out.

  The abstraction is the list of the blocks, each with its size and whether it is used. On it
  the operations are first fit with splitting, and freeing with both neighbours merged.
\<close>

subsection \<open>State\<close>

record smem =
  mem_next :: nat
  mem_prev :: nat
  mem_used :: bool

text \<open>\<open>data\<close> is the memory outside the headers.\<close>

record heap =
  ram :: "nat \<Rightarrow> smem"
  lfree :: nat
  data :: "nat \<Rightarrow> nat"

definition SIZEOF_STRUCT_MEM :: nat where "SIZEOF_STRUCT_MEM = LWIP_MEM_ALIGN_SIZE 12"
definition MIN_SIZE_ALIGNED :: nat where "MIN_SIZE_ALIGNED = LWIP_MEM_ALIGN_SIZE 12"

definition sub64 :: "nat \<Rightarrow> nat \<Rightarrow> nat" where
  "sub64 a b = (a + 2 ^ 64 - b) mod 2 ^ 64"

text \<open>Assignments to the fields of a header.\<close>

definition set_next :: "nat \<Rightarrow> nat \<Rightarrow> heap \<Rightarrow> heap" where
  "set_next p v hp = hp\<lparr>ram := (ram hp)(p := (ram hp p)\<lparr>mem_next := v\<rparr>)\<rparr>"

definition set_prev :: "nat \<Rightarrow> nat \<Rightarrow> heap \<Rightarrow> heap" where
  "set_prev p v hp = hp\<lparr>ram := (ram hp)(p := (ram hp p)\<lparr>mem_prev := v\<rparr>)\<rparr>"

definition set_used :: "nat \<Rightarrow> bool \<Rightarrow> heap \<Rightarrow> heap" where
  "set_used p v hp = hp\<lparr>ram := (ram hp)(p := (ram hp p)\<lparr>mem_used := v\<rparr>)\<rparr>"

abbreviation nxt :: "heap \<Rightarrow> nat \<Rightarrow> nat" where "nxt hp p \<equiv> mem_next (ram hp p)"
abbreviation prv :: "heap \<Rightarrow> nat \<Rightarrow> nat" where "prv hp p \<equiv> mem_prev (ram hp p)"
abbreviation used :: "heap \<Rightarrow> nat \<Rightarrow> bool" where "used hp p \<equiv> mem_used (ram hp p)"

subsection \<open>Operations\<close>

definition plug_forward :: "nat \<Rightarrow> nat \<Rightarrow> heap \<Rightarrow> heap" where
  "plug_forward M mem hp =
     (let nmem = nxt hp mem
      in if mem \<noteq> nmem \<and> \<not> used hp nmem \<and> nmem \<noteq> M
         then
           let hp = (if lfree hp = nmem then hp\<lparr>lfree := mem\<rparr> else hp);
               nn = nxt hp nmem;
               hp = set_next mem nn hp
           in if nn \<noteq> M then set_prev nn mem hp else hp
         else hp)"

definition plug_backward :: "nat \<Rightarrow> nat \<Rightarrow> heap \<Rightarrow> heap" where
  "plug_backward M mem hp =
     (let pmem = prv hp mem
      in if pmem \<noteq> mem \<and> \<not> used hp pmem
         then
           let hp = (if lfree hp = mem then hp\<lparr>lfree := pmem\<rparr> else hp);
               hp = set_next pmem (nxt hp mem) hp
           in if nxt hp mem \<noteq> M then set_prev (nxt hp mem) pmem hp else hp
         else hp)"

definition plug_holes :: "nat \<Rightarrow> nat \<Rightarrow> heap \<Rightarrow> heap option" where
  "plug_holes M mem hp =
     (if \<not> mem < M \<or> used hp mem \<or> \<not> nxt hp mem \<le> M then None
      else Some (plug_backward M mem (plug_forward M mem hp)))"

definition mem_init :: "nat \<Rightarrow> heap \<Rightarrow> heap" where
  "mem_init M hp =
     (let hp = set_used 0 False (set_prev 0 0 (set_next 0 M hp));
          hp = set_prev M M (set_next M M (set_used M True hp))
      in hp\<lparr>lfree := 0\<rparr>)"

definition mem_link_valid :: "nat \<Rightarrow> nat \<Rightarrow> heap \<Rightarrow> bool" where
  "mem_link_valid M mem hp =
     (let nmem = nxt hp mem; pmem = prv hp mem
      in \<not> (nmem > M \<or> pmem > M \<or> (pmem \<noteq> mem \<and> nxt hp pmem \<noteq> mem) \<or>
            (nmem \<noteq> M \<and> prv hp nmem \<noteq> mem)))"

text \<open>A pointer is its distance from the start of the region, \<open>None\<close> is NULL.\<close>

definition mem_free :: "nat \<Rightarrow> int option \<Rightarrow> heap \<Rightarrow> heap option" where
  "mem_free M rmem hp =
     (case rmem of
        None \<Rightarrow> Some hp
      | Some r \<Rightarrow>
          if r mod int MEM_ALIGNMENT \<noteq> 0 then None
          else if r - int SIZEOF_STRUCT_MEM < 0 \<or> r + int MIN_SIZE_ALIGNED > int M then None
          else
            let mem = nat (r - int SIZEOF_STRUCT_MEM)
            in if \<not> used hp mem then None
               else if \<not> mem_link_valid M mem hp then None
               else
                 let hp = set_used mem False hp;
                     hp = (if mem < lfree hp then hp\<lparr>lfree := mem\<rparr> else hp)
                 in plug_holes M mem hp)"

text \<open>Requested sizes are rounded up; \<open>None\<close> is a sz that cannot be met.\<close>

definition mem_round :: "nat \<Rightarrow> nat \<Rightarrow> nat option" where
  "mem_round M size_in =
     (let sz = LWIP_MEM_ALIGN_SIZE size_in;
          sz = (if sz < MIN_SIZE_ALIGNED then MIN_SIZE_ALIGNED else sz)
      in if sz > M \<or> sz < size_in then None else Some sz)"

partial_function (option) malloc_scan :: "nat \<Rightarrow> nat \<Rightarrow> heap \<Rightarrow> nat \<Rightarrow> nat option option" where
  [code]: "malloc_scan M sz hp ptr =
     (if ptr < M - sz then
        if \<not> used hp ptr \<and> sub64 (nxt hp ptr) (ptr + SIZEOF_STRUCT_MEM) \<ge> sz
        then Some (Some ptr)
        else malloc_scan M sz hp (nxt hp ptr)
      else Some None)"

partial_function (option) malloc_adjust_lfree :: "nat \<Rightarrow> heap \<Rightarrow> nat \<Rightarrow> nat option" where
  [code]: "malloc_adjust_lfree M hp cur =
     (if used hp cur \<and> cur \<noteq> M then malloc_adjust_lfree M hp (nxt hp cur) else Some cur)"

definition malloc_take :: "nat \<Rightarrow> nat \<Rightarrow> nat \<Rightarrow> heap \<Rightarrow> heap option" where
  "malloc_take M sz ptr hp =
     (if sub64 (nxt hp ptr) (ptr + SIZEOF_STRUCT_MEM) \<ge> sz + SIZEOF_STRUCT_MEM + MIN_SIZE_ALIGNED
      then
        let ptr2 = (ptr + SIZEOF_STRUCT_MEM + sz) mod 2 ^ 32
        in if ptr2 = M then None
           else
             let hp = set_prev ptr2 ptr (set_next ptr2 (nxt hp ptr) (set_used ptr2 False hp));
                 hp = set_used ptr True (set_next ptr ptr2 hp)
             in Some (if nxt hp ptr2 \<noteq> M then set_prev (nxt hp ptr2) ptr2 hp else hp)
      else Some (set_used ptr True hp))"

definition mem_malloc :: "nat \<Rightarrow> nat \<Rightarrow> heap \<Rightarrow> (heap \<times> int option) option" where
  "mem_malloc M size_in hp =
     (if size_in = 0 then Some (hp, None)
      else
        case mem_round M size_in of
          None \<Rightarrow> Some (hp, None)
        | Some sz \<Rightarrow>
            malloc_scan M sz hp (lfree hp) \<bind> (\<lambda>found.
            case found of
              None \<Rightarrow> Some (hp, None)
            | Some ptr \<Rightarrow>
                malloc_take M sz ptr hp \<bind> (\<lambda>hp.
                (if ptr = lfree hp
                 then malloc_adjust_lfree M hp (lfree hp) \<bind> (\<lambda>cur.
                        if cur = M \<or> \<not> used hp cur then Some (hp\<lparr>lfree := cur\<rparr>) else None)
                 else Some hp) \<bind> (\<lambda>hp.
                if ptr + SIZEOF_STRUCT_MEM + sz \<le> M \<and> (ptr + SIZEOF_STRUCT_MEM) mod MEM_ALIGNMENT = 0
                   \<and> ptr mod MEM_ALIGNMENT = 0
                then Some (hp, Some (int (ptr + SIZEOF_STRUCT_MEM)))
                else None))))"

definition mem_calloc :: "nat \<Rightarrow> nat \<Rightarrow> nat \<Rightarrow> heap \<Rightarrow> (heap \<times> int option) option" where
  "mem_calloc M count sz hp =
     (let alloc_size = count * sz mod 2 ^ 64
      in if alloc_size mod 2 ^ 32 \<noteq> alloc_size then Some (hp, None)
         else
           mem_malloc M alloc_size hp \<bind> (\<lambda>(hp, p).
           case p of
             None \<Rightarrow> Some (hp, None)
           | Some r \<Rightarrow>
               Some (hp\<lparr>data := (\<lambda>a. if nat r \<le> a \<and> a < nat r + alloc_size then 0 else data hp a)\<rparr>, p)))"

text \<open>The writes that link a new unused block \<open>ptr2\<close> between \<open>ptr\<close> and \<open>next\<close>.\<close>

definition link_mem2 :: "nat \<Rightarrow> nat \<Rightarrow> nat \<Rightarrow> nat \<Rightarrow> heap \<Rightarrow> heap" where
  "link_mem2 M ptr ptr2 next hp =
     (let hp = set_prev ptr2 ptr (set_next ptr2 next (set_used ptr2 False hp));
          hp = set_next ptr ptr2 hp
      in if nxt hp ptr2 \<noteq> M then set_prev (nxt hp ptr2) ptr2 hp else hp)"

text \<open>A header that would lie before the region is an out-of-bounds read, also \<open>None\<close>.\<close>

definition mem_trim :: "nat \<Rightarrow> int \<Rightarrow> nat \<Rightarrow> heap \<Rightarrow> (heap \<times> int option) option" where
  "mem_trim M rmem new_size hp =
     (case mem_round M new_size of
        None \<Rightarrow> Some (hp, None)
      | Some newsize \<Rightarrow>
          if \<not> (0 \<le> rmem \<and> rmem < int M) then None
          else if rmem - int SIZEOF_STRUCT_MEM < 0 then None
          else
            let ptr = nat (rmem - int SIZEOF_STRUCT_MEM);
                mem2 = nxt hp ptr;
                sz = sub64 ((mem2 + 2 ^ 32 - ptr) mod 2 ^ 32) SIZEOF_STRUCT_MEM mod 2 ^ 32
            in if \<not> newsize \<le> sz then None
               else if newsize = sz then Some (hp, Some rmem)
               else if \<not> used hp mem2 then
                 if mem2 = M then None
                 else
                   let next = nxt hp mem2;
                       ptr2 = (ptr + SIZEOF_STRUCT_MEM + newsize) mod 2 ^ 32;
                       hp = (if lfree hp = mem2 then hp\<lparr>lfree := ptr2\<rparr> else hp)
                   in Some (link_mem2 M ptr ptr2 next hp, Some rmem)
               else if newsize + SIZEOF_STRUCT_MEM + MIN_SIZE_ALIGNED \<le> sz then
                 let ptr2 = (ptr + SIZEOF_STRUCT_MEM + newsize) mod 2 ^ 32
                 in if mem2 = M then None
                    else
                      let hp = (if ptr2 < lfree hp then hp\<lparr>lfree := ptr2\<rparr> else hp)
                      in Some (link_mem2 M ptr ptr2 mem2 hp, Some rmem)
               else Some (hp, Some rmem))"

subsection \<open>The list of blocks\<close>

text \<open>A block is its size, header included, and whether it is used.\<close>

type_synonym blocks = "(nat \<times> bool) list"

fun total :: "blocks \<Rightarrow> nat" where
  "total [] = 0"
| "total ((s, u) # bl) = s + total bl"

fun first_free :: "nat \<Rightarrow> blocks \<Rightarrow> nat" where
  "first_free p [] = p"
| "first_free p ((s, u) # bl) = (if u then first_free (p + s) bl else p)"

fun no_free_pair :: "blocks \<Rightarrow> bool" where
  "no_free_pair ((s, u) # (t, v) # bl) = ((u \<or> v) \<and> no_free_pair ((t, v) # bl))"
| "no_free_pair bl = True"

fun coalesce :: "blocks \<Rightarrow> blocks" where
  "coalesce ((s, False) # (t, False) # bl) = coalesce ((s + t, False) # bl)"
| "coalesce (x # bl) = x # coalesce bl"
| "coalesce [] = []"

fun mark_free :: "nat \<Rightarrow> blocks \<Rightarrow> blocks option" where
  "mark_free off [] = None"
| "mark_free off ((s, u) # bl) =
     (if off = 0 then if u then Some ((s, False) # bl) else None
      else if off < s then None
      else map_option (Cons (s, u)) (mark_free (off - s) bl))"

definition abs_free :: "nat \<Rightarrow> blocks \<Rightarrow> blocks option" where
  "abs_free off bl = map_option coalesce (mark_free off bl)"

definition split_block :: "nat \<Rightarrow> nat \<Rightarrow> blocks" where
  "split_block n s = (if n + 32 \<le> s then [(n, True), (s - n, False)] else [(s, True)])"

fun first_fit :: "nat \<Rightarrow> blocks \<Rightarrow> (nat \<times> blocks) option" where
  "first_fit n [] = None"
| "first_fit n ((s, u) # bl) =
     (if \<not> u \<and> n \<le> s then Some (0, split_block n s @ bl)
      else map_option (\<lambda>(off, bl'). (s + off, (s, u) # bl')) (first_fit n bl))"

text \<open>The headers of a segment of the region.\<close>

fun seg :: "heap \<Rightarrow> nat \<Rightarrow> nat \<Rightarrow> blocks \<Rightarrow> bool" where
  "seg hp pv p [] = True"
| "seg hp pv p ((s, u) # bl) =
     (ram hp p = \<lparr>mem_next = p + s, mem_prev = pv, mem_used = u\<rparr> \<and> 32 \<le> s \<and> 8 dvd s \<and>
      seg hp p (p + s) bl)"

fun last_off :: "nat \<Rightarrow> nat \<Rightarrow> blocks \<Rightarrow> nat" where
  "last_off pv p [] = pv"
| "last_off pv p ((s, u) # bl) = last_off p (p + s) bl"

definition linked :: "nat \<Rightarrow> heap \<Rightarrow> blocks \<Rightarrow> bool" where
  "linked M hp bl =
     (seg hp 0 0 bl \<and> total bl = M \<and> ram hp M = \<lparr>mem_next = M, mem_prev = M, mem_used = True\<rparr>)"

definition heap_rel :: "nat \<Rightarrow> heap \<Rightarrow> blocks \<Rightarrow> bool" where
  "heap_rel M hp bl =
     (linked M hp bl \<and> bl \<noteq> [] \<and> M + 32 < 2 ^ 32 \<and> no_free_pair bl \<and> lfree hp = first_free 0 bl)"

text \<open>What freeing does to the two sides of a block.\<close>

fun merge_next :: "nat \<Rightarrow> blocks \<Rightarrow> blocks" where
  "merge_next s ((t, False) # bl) = (s + t, False) # bl"
| "merge_next s bl = (s, False) # bl"

definition merge_prev :: "blocks \<Rightarrow> nat \<Rightarrow> blocks" where
  "merge_prev a s =
     (if a \<noteq> [] \<and> \<not> snd (last a) then butlast a @ [(fst (last a) + s, False)] else a @ [(s, False)])"

text \<open>First fit for a request; \<open>None\<close> when it is refused.\<close>

definition abs_malloc :: "nat \<Rightarrow> nat \<Rightarrow> blocks \<Rightarrow> (nat \<times> blocks) option" where
  "abs_malloc M size_in bl =
     (if size_in = 0 then None
      else mem_round M size_in \<bind> (\<lambda>sz. first_fit (sz + SIZEOF_STRUCT_MEM) bl))"

subsection \<open>Linked blocks\<close>

named_theorems mem_set

lemma ram_set [mem_set]:
  "ram (set_next p v hp) = (ram hp)(p := (ram hp p)\<lparr>mem_next := v\<rparr>)"
  "ram (set_prev p v hp) = (ram hp)(p := (ram hp p)\<lparr>mem_prev := v\<rparr>)"
  "ram (set_used p u hp) = (ram hp)(p := (ram hp p)\<lparr>mem_used := u\<rparr>)"
  "ram (hp\<lparr>lfree := v\<rparr>) = ram hp" "ram (hp\<lparr>data := d\<rparr>) = ram hp"
  by (simp_all add: set_next_def set_prev_def set_used_def)

lemma lfree_set [mem_set]:
  "lfree (set_next p v hp) = lfree hp" "lfree (set_prev p v hp) = lfree hp"
  "lfree (set_used p u hp) = lfree hp"
  by (simp_all add: set_next_def set_prev_def set_used_def)

lemma data_set [mem_set]:
  "data (set_next p v hp) = data hp" "data (set_prev p v hp) = data hp"
  "data (set_used p u hp) = data hp"
  by (simp_all add: set_next_def set_prev_def set_used_def)

lemma mem_sizes [simp]: "SIZEOF_STRUCT_MEM = 16" "MIN_SIZE_ALIGNED = 16" "MEM_ALIGNMENT = 8"
  by (simp_all add: SIZEOF_STRUCT_MEM_def MIN_SIZE_ALIGNED_def LWIP_MEM_ALIGN_SIZE_def MEM_ALIGNMENT_def)

lemma sub64_le: "b \<le> a \<Longrightarrow> a < 2 ^ 64 \<Longrightarrow> sub64 a b = a - b"
  by (simp add: sub64_def mod_if)

lemma total_append [simp]: "total (a @ b) = total a + total b"
  by (induction a rule: total.induct) auto

lemma seg_append: "seg hp pv p (a @ b) = (seg hp pv p a \<and> seg hp (last_off pv p a) (p + total a) b)"
  by (induction a arbitrary: pv p rule: total.induct) (auto simp: add.assoc)

lemma last_off_append [simp]: "last_off pv p (a @ b) = last_off (last_off pv p a) (p + total a) b"
  by (induction a arbitrary: pv p rule: total.induct) (auto simp: add.assoc)

lemma seg_cong:
  "(\<And>q. p \<le> q \<Longrightarrow> q < p + total bl \<Longrightarrow> ram hp' q = ram hp q) \<Longrightarrow> seg hp' pv p bl = seg hp pv p bl"
proof (induction bl arbitrary: pv p rule: total.induct)
  case (2 s u bl)
  have "seg hp' p (p + s) bl = seg hp p (p + s) bl"
    by (rule "2.IH") (use "2.prems" in auto)
  then show ?case
    using "2.prems"[of p] by auto
qed simp

lemma seg_step: "seg hp pv p bl \<Longrightarrow> bl \<noteq> [] \<Longrightarrow> 32 \<le> total bl"
  by (cases bl) auto

text \<open>\<open>if (x != MEM_SIZE_ALIGNED) ptr_to_mem(x)->prev = v\<close> relinks what follows.\<close>

lemma seg_relink:
  assumes "seg hp pv p bl" "p + total bl = M"
    and "\<And>q. p \<le> q \<Longrightarrow> q < p + total bl \<Longrightarrow>
           ram hp' q = (if q = p \<and> p \<noteq> M then (ram hp q)\<lparr>mem_prev := v\<rparr> else ram hp q)"
  shows "seg hp' v p bl"
proof (cases bl)
  case (Cons x bl')
  obtain s u where x: "x = (s, u)" by force
  have "seg hp' p (p + s) bl' = seg hp p (p + s) bl'"
    by (rule seg_cong) (use assms Cons x in auto)
  then show ?thesis
    using assms(1,2) assms(3)[of p] by (auto simp: Cons x)
qed simp

lemma linked_middle:
  "linked M hp (a @ (s, u) # b) \<longleftrightarrow>
     seg hp 0 0 a \<and> total a + s + total b = M \<and> 32 \<le> s \<and> 8 dvd s \<and>
     ram hp (total a) = \<lparr>mem_next = total a + s, mem_prev = last_off 0 0 a, mem_used = u\<rparr> \<and>
     seg hp (total a) (total a + s) b \<and>
     ram hp M = \<lparr>mem_next = M, mem_prev = M, mem_used = True\<rparr>"
  by (auto simp: linked_def seg_append)

lemma plug_forward_linked:
  assumes "linked M hp (a @ (s, False) # b)"
  shows "linked M (plug_forward M (total a) hp) (a @ merge_next s b)"
proof (cases b)
  case Nil
  then show ?thesis
    using assms by (auto simp: plug_forward_def linked_middle)
next
  case (Cons x b')
  obtain t v where x: "x = (t, v)" by force
  show ?thesis
  proof (cases v)
    case True
    then show ?thesis
      using assms by (auto simp: plug_forward_def linked_middle Cons x)
  next
    case v: False
    let ?p = "total a" and ?q = "total a + s + t"
    let ?hp = "plug_forward M ?p hp"
    have h: "seg hp 0 0 a" "?q + total b' = M" "32 \<le> s" "8 dvd s" "32 \<le> t" "8 dvd t"
      "ram hp ?p = \<lparr>mem_next = ?p + s, mem_prev = last_off 0 0 a, mem_used = False\<rparr>"
      "ram hp (?p + s) = \<lparr>mem_next = ?q, mem_prev = ?p, mem_used = False\<rparr>"
      "seg hp (?p + s) ?q b'" "ram hp M = \<lparr>mem_next = M, mem_prev = M, mem_used = True\<rparr>"
      using assms by (auto simp: linked_middle Cons x v)
    have r: "ram ?hp = (ram hp)(?p := \<lparr>mem_next = ?q, mem_prev = last_off 0 0 a, mem_used = False\<rparr>,
       ?q := (if ?q = M then ram hp ?q else (ram hp ?q)\<lparr>mem_prev := ?p\<rparr>))"
      using h by (auto simp: plug_forward_def Let_def mem_set fun_eq_iff)
    have "seg ?hp 0 0 a"
      using h(1) by (subst seg_cong[where hp = hp]) (use h in \<open>auto simp: r\<close>)
    moreover have "seg ?hp ?p ?q b'"
      by (rule seg_relink[OF h(9,2)]) (use h in \<open>auto simp: r\<close>)
    ultimately show ?thesis
      using h by (auto simp: linked_middle Cons x v r add.assoc)
  qed
qed

lemma plug_backward_linked:
  assumes "linked M hp (a @ (s, False) # b)"
  shows "linked M (plug_backward M (total a) hp) (merge_prev a s @ b)"
proof (cases a rule: rev_cases)
  case Nil
  then show ?thesis
    using assms by (auto simp: plug_backward_def linked_def merge_prev_def)
next
  case (snoc a' x)
  obtain t v where x: "x = (t, v)" by force
  have h: "seg hp 0 0 a'" "32 \<le> s" "8 dvd s" "32 \<le> t" "8 dvd t"
      "ram hp (total a') = \<lparr>mem_next = total a' + t, mem_prev = last_off 0 0 a', mem_used = v\<rparr>"
      "ram hp (total a' + t) = \<lparr>mem_next = total a' + t + s, mem_prev = total a', mem_used = False\<rparr>"
      "seg hp (total a' + t) (total a' + t + s) b"
      "ram hp M = \<lparr>mem_next = M, mem_prev = M, mem_used = True\<rparr>" "total a' + t + s + total b = M"
    using assms by (auto simp: linked_middle snoc x seg_append add.assoc)
  show ?thesis
  proof (cases v)
    case True
    then show ?thesis
      using assms h by (auto simp: plug_backward_def merge_prev_def snoc x)
  next
    case v: False
    let ?p = "total a'" and ?q = "total a' + t + s"
    let ?hp = "plug_backward M (total a) hp"
    have r: "ram ?hp = (ram hp)(?p := \<lparr>mem_next = ?q, mem_prev = last_off 0 0 a', mem_used = False\<rparr>,
       ?q := (if ?q = M then ram hp ?q else (ram hp ?q)\<lparr>mem_prev := ?p\<rparr>))"
      using h v by (auto simp: plug_backward_def Let_def mem_set fun_eq_iff snoc x)
    have "seg ?hp 0 0 a'"
      using h(1) by (subst seg_cong[where hp = hp]) (use h in \<open>auto simp: r\<close>)
    moreover have "seg ?hp ?p ?q b"
      by (rule seg_relink[OF h(8,10)]) (use h in \<open>auto simp: r\<close>)
    ultimately have "linked M ?hp (a' @ (t + s, False) # b)"
      using h by (auto simp: linked_middle r add.assoc)
    then show ?thesis
      by (simp add: merge_prev_def snoc x v)
  qed
qed

lemma lfree_plug:
  assumes "linked M hp (a @ (s, False) # b)" "lfree hp \<le> total a"
  shows "lfree (plug_forward M (total a) hp) = lfree hp"
  using assms by (auto simp: plug_forward_def Let_def mem_set linked_middle)

lemma first_free_append:
  "first_free p (a @ b) = (if list_all snd a then first_free (p + total a) b else first_free p a)"
  by (induction a arbitrary: p rule: total.induct) (auto simp: add.assoc)

lemma first_free_less:
  "seg hp pv p a \<Longrightarrow> \<not> list_all snd a \<Longrightarrow> first_free p a < p + total a"
proof (induction a arbitrary: pv p rule: total.induct)
  case (2 s u bl)
  then show ?case
    using "2.IH"[of p "p + s"] by (cases u) (auto simp: add.assoc)
qed simp

lemma first_free_ge: "p \<le> first_free p a"
  by (induction a arbitrary: p rule: total.induct) (auto intro: le_trans[OF le_add1])

lemma lfree_plug_backward:
  assumes l: "linked M hp (a @ (s, False) # b)" and f: "lfree hp = first_free 0 (a @ (s, False) # b)"
  shows "lfree (plug_backward M (total a) hp) = lfree hp"
proof (cases a rule: rev_cases)
  case (snoc a' x)
  have "lfree hp = total a \<Longrightarrow> snd x"
  proof (rule ccontr)
    assume e: "lfree hp = total a" and x: "\<not> snd x"
    have "seg hp 0 0 a"
      using l by (simp add: linked_middle)
    then have "first_free 0 a < total a"
      using first_free_less[of hp 0 0 a] x by (simp add: snoc)
    then show False
      using e f x by (simp only: first_free_append) (auto simp: snoc split: if_splits)
  qed
  then show ?thesis
    using l by (cases x) (auto simp: plug_backward_def Let_def mem_set linked_middle snoc seg_append)
qed (use l in \<open>simp add: plug_backward_def linked_def\<close>)

lemma no_free_pair_append:
  "no_free_pair (a @ b) \<longleftrightarrow>
     no_free_pair a \<and> no_free_pair b \<and> (a \<noteq> [] \<and> b \<noteq> [] \<longrightarrow> snd (last a) \<or> snd (hd b))"
  by (induction a rule: no_free_pair.induct) (cases b; auto)+

lemma no_free_pair_Cons:
  "no_free_pair (x # b) \<longleftrightarrow> no_free_pair b \<and> (b \<noteq> [] \<longrightarrow> snd x \<or> snd (hd b))"
  using no_free_pair_append[of "[x]" b] by auto

lemma coalesce_used_prefix:
  "no_free_pair a \<Longrightarrow> a = [] \<or> snd (last a) \<Longrightarrow> coalesce (a @ b) = a @ coalesce b"
  by (induction a rule: coalesce.induct) (auto simp: no_free_pair_Cons split: if_splits)

lemma coalesce_id: "no_free_pair a \<Longrightarrow> coalesce a = a"
  by (induction a rule: coalesce.induct) (auto simp: no_free_pair_Cons)

lemma coalesce_freed:
  assumes "no_free_pair (a @ (s, True) # b)" "merge_next s b = (s', False) # b'"
  shows "coalesce (a @ (s, False) # b) = merge_prev a s' @ b'"
proof -
  have n: "no_free_pair a" "no_free_pair b"
    using assms(1) by (auto simp: no_free_pair_append no_free_pair_Cons)
  have b: "coalesce ((r + s, False) # b) = (r + s', False) # b'" for r
    using assms(2) n(2) coalesce_id[OF n(2)]
    by (cases "(s, b)" rule: merge_next.cases)
      (auto simp: no_free_pair_Cons add.assoc coalesce_id neq_Nil_conv)
  show ?thesis
  proof (cases "a = [] \<or> snd (last a)")
    case True
    then show ?thesis
      using n b[of 0] by (auto simp: coalesce_used_prefix merge_prev_def)
  next
    case False
    then obtain a' r where a: "a = a' @ [(r, False)]"
      by (cases a rule: rev_cases) auto
    then have "no_free_pair a'" "a' = [] \<or> snd (last a')"
      using n(1) by (auto simp: no_free_pair_append)
    then show ?thesis
      using b[of r] by (simp add: coalesce_used_prefix merge_prev_def a)
  qed
qed

lemma mark_free_middle:
  "seg hp pv p (a @ (s, True) # b) \<Longrightarrow> mark_free (total a) (a @ (s, True) # b) = Some (a @ (s, False) # b)"
  by (induction a arbitrary: pv p rule: total.induct) auto

lemma mark_free_cases:
  assumes "mark_free off bl = Some bl'"
  obtains a s b where "bl = a @ (s, True) # b" "off = total a" "bl' = a @ (s, False) # b"
  using assms
proof (induction off bl arbitrary: bl' thesis rule: mark_free.induct)
  case (2 off s u bl)
  show ?case
  proof (cases "off = 0")
    case True
    then show ?thesis
      using "2.prems"(1)[of "[]" s bl] "2.prems"(2) by (simp split: if_splits)
  next
    case False
    then obtain c where c: "\<not> off < s" "mark_free (off - s) bl = Some c" "bl' = (s, u) # c"
      using "2.prems"(2) by (auto split: if_splits)
    obtain a t b where "bl = a @ (t, True) # b" "off - s = total a" "c = a @ (t, False) # b"
      using "2.IH"[OF False c(1) _ c(2)] by blast
    then show ?thesis
      using "2.prems"(1)[of "(s, u) # a" t b] c by simp
  qed
qed simp

lemma dvd_total: "seg hp pv p bl \<Longrightarrow> 8 dvd total bl"
  by (induction bl arbitrary: pv p rule: total.induct) auto

lemma merge_next_form: "\<exists>s' b'. merge_next s b = (s', False) # b'"
  by (cases "(s, b)" rule: merge_next.cases) auto

lemma link_valid_linked:
  assumes "linked M hp (a @ (s, u) # b)"
  shows "mem_link_valid M (total a) hp"
proof -
  have "b = [] \<or> prv hp (total a + s) = total a"
    using assms by (cases b) (auto simp: linked_middle)
  moreover have "a = [] \<or> nxt hp (last_off 0 0 a) = total a \<and> last_off 0 0 a < total a"
    using assms by (cases a rule: rev_cases) (auto simp: linked_middle seg_append)
  ultimately show ?thesis
    using assms by (auto simp: mem_link_valid_def Let_def linked_middle)
qed

lemma linked_set_used:
  assumes "linked M hp (a @ (s, u) # b)"
  shows "linked M (set_used (total a) v hp) (a @ (s, v) # b)"
proof -
  let ?hp = "set_used (total a) v hp"
  have h: "seg hp 0 0 a" "seg hp (total a) (total a + s) b" "total a + s + total b = M" "32 \<le> s"
    using assms by (auto simp: linked_middle)
  have "seg ?hp 0 0 a" "seg ?hp (total a) (total a + s) b"
    using h(1,2) by (subst seg_cong[where hp = hp]; use h in \<open>auto simp: mem_set\<close>)+
  then show ?thesis
    using assms h by (auto simp: linked_middle mem_set)
qed

lemma linked_lfree [simp]: "linked M (hp\<lparr>lfree := l\<rparr>) bl = linked M hp bl"
proof -
  have "seg (hp\<lparr>lfree := l\<rparr>) 0 0 bl = seg hp 0 0 bl"
    by (rule seg_cong) simp
  then show ?thesis by (simp add: linked_def)
qed

lemma no_free_pair_freed:
  assumes "no_free_pair (a @ (s, True) # b)" "merge_next s b = (s', False) # b'"
  shows "no_free_pair (merge_prev a s' @ b')"
proof -
  have b: "no_free_pair b'" "b' = [] \<or> snd (hd b')"
    using assms by (cases "(s, b)" rule: merge_next.cases; auto simp: no_free_pair_append no_free_pair_Cons)+
  have a: "no_free_pair a"
    using assms(1) by (simp add: no_free_pair_append)
  then show ?thesis
    using b by (cases a rule: rev_cases) (auto simp: merge_prev_def no_free_pair_append no_free_pair_Cons)
qed

lemma first_free_freed:
  assumes "merge_next s b = (s', False) # b'"
  shows "first_free p (merge_prev a s' @ b') = first_free p (a @ (s, False) # b)"
  by (cases a rule: rev_cases) (auto simp: merge_prev_def first_free_append)

lemma data_plug: "data (plug_forward M mem hp) = data hp" "data (plug_backward M mem hp) = data hp"
  by (simp_all add: plug_forward_def plug_backward_def Let_def mem_set)

lemma mem_free_refines:
  assumes "heap_rel M hp bl" "abs_free off bl = Some bl'"
  shows "\<exists>hp'. mem_free M (Some (int off + 16)) hp = Some hp' \<and> heap_rel M hp' bl' \<and> data hp' = data hp"
proof -
  obtain a s b where bl: "bl = a @ (s, True) # b" and off: "off = total a"
    and bl': "bl' = coalesce (a @ (s, False) # b)"
    using assms(2) by (auto simp: abs_free_def elim!: mark_free_cases)
  obtain s' b' where m: "merge_next s b = (s', False) # b'"
    using merge_next_form by blast
  have l: "linked M hp (a @ (s, True) # b)" and n: "no_free_pair (a @ (s, True) # b)"
    and f: "lfree hp = first_free 0 (a @ (s, True) # b)"
    using assms(1) by (auto simp: heap_rel_def bl)
  have h: "8 dvd total a" "32 \<le> s" "total a + s + total b = M" "seg hp 0 0 a"
    using l dvd_total[of hp 0 0 a] by (auto simp: linked_middle)
  define h1 where "h1 = set_used off False hp"
  define h2 where "h2 = (if off < lfree h1 then h1\<lparr>lfree := off\<rparr> else h1)"
  have l2: "linked M h2 (a @ (s, False) # b)"
    using linked_set_used[OF l, of False] by (simp add: h2_def h1_def off)
  have f2: "lfree h2 = first_free 0 (a @ (s, False) # b)"
  proof (cases "list_all snd a")
    case True
    then show ?thesis
      using f h first_free_ge[of "total a + s" b]
      by (simp add: h2_def h1_def mem_set off first_free_append)
  next
    case False
    then show ?thesis
      using f first_free_less[OF h(4)] by (simp add: h2_def h1_def mem_set off first_free_append)
  qed
  let ?h = "plug_backward M off (plug_forward M off h2)"
  have d: "data ?h = data hp"
    by (simp add: data_plug mem_set h2_def h1_def)
  have l3: "linked M (plug_forward M off h2) (a @ (s', False) # b')"
    using plug_forward_linked[OF l2] by (simp add: m off)
  have "off \<ge> lfree h2"
    using f2 first_free_less[OF h(4)] by (auto simp: off first_free_append)
  then have f3: "lfree (plug_forward M off h2) = first_free 0 (a @ (s', False) # b')"
    using lfree_plug[OF l2] f2 by (simp add: off first_free_append)
  have "linked M ?h (merge_prev a s' @ b')" "lfree ?h = first_free 0 (merge_prev a s' @ b')"
    using plug_backward_linked[OF l3] lfree_plug_backward[OF l3 f3] f3 first_free_freed[OF m, of 0 a]
    by (simp_all add: off first_free_append)
  then have "heap_rel M ?h bl'"
    using assms(1) no_free_pair_freed[OF n m] coalesce_freed[OF n m] l3
    by (auto simp: heap_rel_def bl' merge_prev_def)
  moreover have "mem_free M (Some (int off + 16)) hp = plug_holes M off h2"
  proof -
    have "(int off + 16) mod 8 = 0" "used hp off"
      using h(1) l by (auto simp: off linked_middle)
    moreover have "nat (int off + 16 - 16) = off" "\<not> int off + 16 + 16 > int M"
      using h(2,3) by (simp_all add: off)
    ultimately show ?thesis
      using link_valid_linked[OF l] unfolding mem_free_def
      by (simp only: option.case mem_sizes Let_def h1_def h2_def off of_nat_numeral) simp
  qed
  moreover have "plug_holes M off h2 = Some ?h"
    using l2 by (auto simp: plug_holes_def off linked_middle)
  ultimately show ?thesis
    using d by simp
qed

subsection \<open>First fit\<close>

lemma first_fit_None: "total bl < n \<Longrightarrow> first_fit n bl = None"
  by (induction n bl rule: first_fit.induct) auto

lemma malloc_scan_first_fit:
  assumes "seg hp pv p bl" "p + total bl = M" "M < 2 ^ 32"
  shows "malloc_scan M sz hp p = Some (map_option (\<lambda>(off, bl'). p + off) (first_fit (sz + 16) bl))"
  using assms
proof (induction bl arbitrary: pv p rule: total.induct)
  case 1
  moreover have "\<not> M < M - sz" by arith
  ultimately show ?case by (subst malloc_scan.simps) simp
next
  case (2 s u bl)
  have "sub64 (p + s) (p + 16) = s - 16"
    using "2.prems" by (simp add: sub64_le)
  moreover have "malloc_scan M sz hp (p + s) =
      Some (map_option (\<lambda>(off, bl'). (p + s) + off) (first_fit (sz + 16) bl))"
    using "2.prems" by (intro "2.IH") auto
  moreover have "first_fit (sz + 16) bl \<noteq> None \<Longrightarrow> p < M - sz"
    using first_fit_None[of bl "sz + 16"] "2.prems"(2) by (cases "total bl < sz + 16") auto
  ultimately show ?case
    using "2.prems"
    by (subst malloc_scan.simps, cases "first_fit (sz + 16) bl") auto
qed

lemma first_fit_used_prefix:
  "list_all snd a \<Longrightarrow> first_fit n (a @ b) = map_option (\<lambda>(off, bl'). (total a + off, a @ bl')) (first_fit n b)"
  by (induction a rule: total.induct) (cases "first_fit n b"; auto)+

lemma first_free_split:
  obtains a b where "bl = a @ b" "list_all snd a" "first_free p bl = p + total a"
proof (induction bl arbitrary: p thesis rule: total.induct)
  case (2 s u bl)
  show ?case
  proof (cases u)
    case True
    show ?thesis
      by (rule "2.IH"[of "p + s"]) (use True "2.prems"[of "(s, u) # _"] in \<open>auto simp: add.assoc\<close>)
  next
    case False
    then show ?thesis using "2.prems"[of "[]"] by simp
  qed
qed auto

lemma first_free_unused:
  "seg hp pv p bl \<Longrightarrow> first_free p bl = p + total bl \<or> \<not> used hp (first_free p bl)"
  by (induction bl arbitrary: pv p rule: total.induct) (auto, metis add.assoc)

lemma malloc_scan_from_lfree:
  assumes "heap_rel M hp bl"
  shows "malloc_scan M sz hp (lfree hp) = Some (map_option fst (first_fit (sz + 16) bl))"
proof -
  obtain a b where ab: "bl = a @ b" "list_all snd a" "first_free 0 bl = 0 + total a"
    by (rule first_free_split)
  have "seg hp (last_off 0 0 a) (lfree hp) b" "lfree hp + total b = M" "M < 2 ^ 32"
    using assms ab by (auto simp: heap_rel_def linked_def seg_append)
  from malloc_scan_first_fit[OF this, of sz] show ?thesis
    using assms ab by (cases "first_fit (sz + 16) b") (auto simp: first_fit_used_prefix heap_rel_def)
qed

lemma first_fit_cases:
  assumes "first_fit n bl = Some (off, bl')"
  obtains a s b where "bl = a @ (s, False) # b" "off = total a" "n \<le> s" "bl' = a @ split_block n s @ b"
  using assms
proof (induction n bl arbitrary: off bl' thesis rule: first_fit.induct)
  case (2 n s u bl)
  show ?case
  proof (cases "\<not> u \<and> n \<le> s")
    case True
    then show ?thesis
      using "2.prems"(1)[of "[]" s bl] "2.prems"(2) by simp
  next
    case False
    then obtain o' c where c: "first_fit n bl = Some (o', c)" "off = s + o'" "bl' = (s, u) # c"
      using "2.prems"(2) by auto
    obtain a t b where "bl = a @ (t, False) # b" "o' = total a" "n \<le> t" "c = a @ split_block n t @ b"
      using "2.IH"[OF False _ c(1)] by blast
    then show ?thesis
      using "2.prems"(1)[of "(s, u) # a" t b] c by simp
  qed
qed simp

text \<open>Three header writes cut a used block out of the front of a stretch of memory.\<close>

lemma linked_cut:
  assumes "seg hp 0 0 a" "seg hp pv e b" "e + total b = M"
    and "ram hp M = \<lparr>mem_next = M, mem_prev = M, mem_used = True\<rparr>"
    and n: "32 \<le> n" "8 dvd n" "q = total a + n" "q + 32 \<le> e" "8 dvd e - q"
    and r: "ram hp' = (ram hp)(q := \<lparr>mem_next = e, mem_prev = total a, mem_used = False\<rparr>,
        total a := \<lparr>mem_next = q, mem_prev = last_off 0 0 a, mem_used = True\<rparr>,
        e := (if e = M then ram hp e else (ram hp e)\<lparr>mem_prev := q\<rparr>))"
  shows "linked M hp' (a @ (n, True) # (e - q, False) # b)"
proof -
  have "seg hp' 0 0 a"
    using assms(1) by (subst seg_cong[where hp = hp]) (use n in \<open>auto simp: r\<close>)
  moreover have "seg hp' q e b"
    by (rule seg_relink[OF assms(2,3)]) (use n in \<open>auto simp: r\<close>)
  moreover have "ram hp' M = ram hp M"
    using n assms(3) by (simp add: r)
  ultimately show ?thesis
    using assms by (simp add: linked_def seg_append r)
qed

lemma malloc_take_linked:
  assumes l: "linked M hp (a @ (s, False) # b)" and M: "M < 2 ^ 32"
    and sz: "sz + 16 \<le> s" "8 dvd sz" "16 \<le> sz"
  shows "\<exists>hp'. malloc_take M sz (total a) hp = Some hp' \<and> linked M hp' (a @ split_block (sz + 16) s @ b) \<and>
           lfree hp' = lfree hp \<and> data hp' = data hp"
proof -
  let ?p = "total a"
  have h: "seg hp 0 0 a" "?p + s + total b = M" "8 dvd s"
      "ram hp ?p = \<lparr>mem_next = ?p + s, mem_prev = last_off 0 0 a, mem_used = False\<rparr>"
      "seg hp ?p (?p + s) b" "ram hp M = \<lparr>mem_next = M, mem_prev = M, mem_used = True\<rparr>"
    using l by (auto simp: linked_middle)
  have s64: "sub64 (nxt hp ?p) (?p + 16) = s - 16"
    using h M sz by (simp add: sub64_le)
  show ?thesis
  proof (cases "sz + 48 \<le> s")
    case False
    then have "\<not> sz + 16 + 16 \<le> s - 16"
      by linarith
    then have "malloc_take M sz ?p hp = Some (set_used ?p True hp)"
      unfolding malloc_take_def mem_sizes s64 by simp
    then show ?thesis
      using linked_set_used[OF l, of True] False by (simp add: split_block_def mem_set)
  next
    case True
    let ?q = "?p + 16 + sz" and ?e = "?p + s"
    define h1 where "h1 = set_prev ?q ?p (set_next ?q ?e (set_used ?q False hp))"
    define h2 where "h2 = set_used ?p True (set_next ?p ?q h1)"
    define h3 where "h3 = (if ?e \<noteq> M then set_prev ?e ?q h2 else h2)"
    have q: "?q mod 2 ^ 32 = ?q" "?q \<noteq> M" "?p \<noteq> ?q" "?e \<noteq> ?q" "?p \<noteq> ?e"
      using True h(2) M by auto
    have n2: "nxt h2 ?q = ?e"
      using q by (simp add: h2_def h1_def mem_set)
    have "malloc_take M sz ?p hp = Some h3"
      unfolding malloc_take_def Let_def mem_sizes s64 q(1)
      using True q(2) h(4) n2 by (simp add: h3_def h2_def h1_def)
    moreover have "linked M h3 (a @ (sz + 16, True) # (?e - ?q, False) # b)"
      by (rule linked_cut[OF h(1,5,2,6)])
        (use q h(3,4) sz True in \<open>auto simp: h3_def h2_def h1_def mem_set fun_eq_iff dvd_diff_nat\<close>)
    moreover have "lfree h3 = lfree hp" "data h3 = data hp"
      by (simp_all add: h3_def h2_def h1_def mem_set)
    ultimately show ?thesis
      using True by (simp add: split_block_def add.commute)
  qed
qed

lemma malloc_adjust_lfree_seg:
  "seg hp pv p bl \<Longrightarrow> p + total bl = M \<Longrightarrow> malloc_adjust_lfree M hp p = Some (first_free p bl)"
proof (induction bl arbitrary: pv p rule: total.induct)
  case 1
  then show ?case by (subst malloc_adjust_lfree.simps) simp
next
  case (2 s u bl)
  then show ?case
    using "2.IH"[of p "p + s"] by (subst malloc_adjust_lfree.simps) auto
qed

lemma mem_round_Some:
  assumes "mem_round M n = Some sz" "n < 2 ^ 32"
  shows "n \<le> sz" "8 dvd sz" "16 \<le> sz" "sz \<le> M"
  using assms by (auto simp: mem_round_def LWIP_MEM_ALIGN_SIZE_def Let_def split: if_splits)

lemma mem_malloc_None:
  assumes "heap_rel M hp bl" "abs_malloc M n bl = None"
  shows "mem_malloc M n hp = Some (hp, None)"
  using assms malloc_scan_from_lfree[OF assms(1)]
  by (auto simp: mem_malloc_def abs_malloc_def split: option.splits if_splits)

lemma split_block_not_Nil [simp]: "split_block n s \<noteq> []"
  by (simp add: split_block_def)

lemma no_free_pair_split:
  "no_free_pair (a @ (s, False) # b) \<Longrightarrow> no_free_pair (a @ split_block n s @ b)"
  by (auto simp: split_block_def no_free_pair_append no_free_pair_Cons)

lemma mem_malloc_Some:
  assumes hr: "heap_rel M hp bl" and n: "n < 2 ^ 32" and am: "abs_malloc M n bl = Some (off, bl')"
  shows "\<exists>hp'. mem_malloc M n hp = Some (hp', Some (int off + 16)) \<and> heap_rel M hp' bl' \<and> data hp' = data hp"
proof -
  obtain sz where sz: "n \<noteq> 0" "mem_round M n = Some sz" "first_fit (sz + 16) bl = Some (off, bl')"
    using am by (auto simp: abs_malloc_def split: if_splits Option.bind_splits)
  note r = mem_round_Some[OF sz(2) n]
  obtain a s b where bl: "bl = a @ (s, False) # b" "off = total a" "sz + 16 \<le> s"
    and bl': "bl' = a @ split_block (sz + 16) s @ b"
    using first_fit_cases[OF sz(3)] by blast
  have l: "linked M hp (a @ (s, False) # b)" and M: "M < 2 ^ 32" and nf: "no_free_pair (a @ (s, False) # b)"
    and f: "lfree hp = first_free 0 (a @ (s, False) # b)"
    using hr by (auto simp: heap_rel_def bl)
  obtain h1 where h1: "malloc_take M sz off hp = Some h1" "linked M h1 bl'" "lfree h1 = lfree hp" "data h1 = data hp"
    using malloc_take_linked[OF l M bl(3) r(2,3)] by (auto simp: bl bl')
  have sg: "seg h1 0 0 a" "seg h1 (last_off 0 0 a) off (split_block (sz + 16) s @ b)"
      "off + total (split_block (sz + 16) s @ b) = M" "ram h1 M = \<lparr>mem_next = M, mem_prev = M, mem_used = True\<rparr>"
    using h1(2) bl by (auto simp: bl' linked_def seg_append simp del: total_append) (simp add: add.assoc)
  let ?cur = "if off = lfree h1 then first_free off (split_block (sz + 16) s @ b) else lfree h1"
  have cur: "?cur = first_free 0 bl'"
    using f first_free_less[OF sg(1)] by (auto simp: h1(3) bl bl' first_free_append split: if_splits)
  have un: "?cur = M \<or> \<not> used h1 ?cur"
    using first_free_unused[of h1 0 0 bl'] h1(2) by (simp add: cur linked_def)
  have al: "8 dvd off" "off + 16 + sz \<le> M"
    using dvd_total[OF sg(1)] l bl(2,3) by (auto simp: linked_middle)
  have "mem_malloc M n hp = Some (h1\<lparr>lfree := ?cur\<rparr>, Some (int off + 16))"
    using malloc_scan_from_lfree[OF hr, of sz] sz h1(1) malloc_adjust_lfree_seg[OF sg(2,3)] un al
    by (auto simp: mem_malloc_def mod_add_eq dvd_imp_mod_0)
  moreover have "heap_rel M (h1\<lparr>lfree := ?cur\<rparr>) bl'"
    using hr h1(2) no_free_pair_split[OF nf] cur by (auto simp: heap_rel_def bl')
  ultimately show ?thesis
    using h1(4) by auto
qed

subsection \<open>The interface of an allocator\<close>

text \<open>
  \<open>live\<close> are the regions handed out and not yet freed: where they start, and their capacity.
  A client that sends requests and frees by index what it holds can rely on three laws.
\<close>

datatype request = Malloc nat | Free nat

fun client_run :: "(nat \<Rightarrow> 'h \<Rightarrow> ('h \<times> int option) option) \<Rightarrow> (int option \<Rightarrow> 'h \<Rightarrow> 'h option) \<Rightarrow>
    request list \<Rightarrow> 'h \<Rightarrow> (nat \<times> nat) list \<Rightarrow> ('h \<times> (nat \<times> nat) list) option" where
  "client_run alloc free [] h held = Some (h, held)"
| "client_run alloc free (Malloc n # rs) h held =
     alloc n h \<bind> (\<lambda>(h, r). client_run alloc free rs h
       (case r of None \<Rightarrow> held | Some p \<Rightarrow> (nat p, n) # held))"
| "client_run alloc free (Free i # rs) h held =
     (if i < length held
      then free (Some (int (fst (held ! i)))) h \<bind> (\<lambda>h.
             client_run alloc free rs h (take i held @ drop (Suc i) held))
      else client_run alloc free rs h held)"

text \<open>The sizes a client may ask for are part of the contract: \<open>mem_size_t\<close> for the heap, the size
  of an element for a pool.\<close>

fun request_ok :: "(nat \<Rightarrow> bool) \<Rightarrow> request \<Rightarrow> bool" where
  "request_ok fits (Malloc n) = fits n"
| "request_ok fits (Free i) = True"

definition mem_fits :: "nat \<Rightarrow> bool" where
  "mem_fits n = (n < 2 ^ 32)"

text \<open>Every held region lies in a live one of its own, and nothing else is live.\<close>

definition held_ok :: "(nat \<times> nat) set \<Rightarrow> (nat \<times> nat) list \<Rightarrow> bool" where
  "held_ok L held =
     (distinct (map fst held) \<and> fst ` L = fst ` set held \<and>
      (\<forall>(p, n) \<in> set held. \<exists>c \<ge> n. (p, c) \<in> L))"

fun apart :: "nat \<times> nat \<Rightarrow> nat \<times> nat \<Rightarrow> bool" where
  "apart (p, n) (q, m) = (p + n \<le> q \<or> q + m \<le> p)"

text \<open>The regions of the used blocks.\<close>

fun used_at :: "nat \<Rightarrow> blocks \<Rightarrow> (nat \<times> nat) set" where
  "used_at p [] = {}"
| "used_at p ((s, u) # bl) = (if u then {(p + 16, s - 16)} else {}) \<union> used_at (p + s) bl"

locale allocator =
  fixes rep :: "'h \<Rightarrow> 'b \<Rightarrow> bool"
    and live :: "'b \<Rightarrow> (nat \<times> nat) set"
    and alloc :: "nat \<Rightarrow> 'h \<Rightarrow> ('h \<times> int option) option"
    and free :: "int option \<Rightarrow> 'h \<Rightarrow> 'h option"
    and fits :: "nat \<Rightarrow> bool"
  assumes alloc_law: "rep h b \<Longrightarrow> fits n \<Longrightarrow>
      alloc n h = Some (h, None) \<or>
      (\<exists>h' b' p c. alloc n h = Some (h', Some (int p)) \<and> rep h' b' \<and> n \<le> c \<and>
         p \<notin> fst ` live b \<and> live b' = insert (p, c) (live b))"
    and free_law: "rep h b \<Longrightarrow> (p, c) \<in> live b \<Longrightarrow>
      \<exists>h' b'. free (Some (int p)) h = Some h' \<and> rep h' b' \<and> live b' = live b - {(p, c)}"
    and live_apart: "rep h b \<Longrightarrow> x \<in> live b \<Longrightarrow> y \<in> live b \<Longrightarrow> x \<noteq> y \<Longrightarrow> apart x y"
    and live_unique: "rep h b \<Longrightarrow> (p, c) \<in> live b \<Longrightarrow> (p, d) \<in> live b \<Longrightarrow> c = d"
begin

lemma held_remove:
  assumes "rep h b" "held_ok (live b) held" "i < length held" "(fst (held ! i), c) \<in> live b"
  shows "held_ok (live b - {(fst (held ! i), c)}) (take i held @ drop (Suc i) held)"
proof -
  have held: "held = take i held @ held ! i # drop (Suc i) held"
    using assms(3) by (simp add: id_take_nth_drop)
  let ?p = "fst (held ! i)" and ?r = "take i held @ drop (Suc i) held"
  have "distinct (map fst (take i held @ held ! i # drop (Suc i) held))"
    using assms(2) held by (simp add: held_ok_def)
  then have d: "distinct (map fst ?r)" "?p \<notin> fst ` set ?r"
    by (auto simp: image_Un)
  have s: "set held = insert (held ! i) (set ?r)"
    by (subst held) auto
  have "fst ` (live b - {(?p, c)}) = fst ` live b - {?p}"
    using live_unique[OF assms(1,4)] by (force simp: image_iff)
  also have "\<dots> = fst ` set ?r"
    using assms(2) d(2) by (auto simp: held_ok_def s)
  finally have l: "fst ` (live b - {(?p, c)}) = fst ` set ?r" .
  have "\<exists>c' \<ge> n. (p, c') \<in> live b - {(?p, c)}" if "(p, n) \<in> set ?r" for p n
  proof -
    have "p \<noteq> ?p"
      using d(2) that by (metis fst_conv image_eqI)
    moreover have "(p, n) \<in> set held"
      using that s by simp
    then obtain c' where "n \<le> c'" "(p, c') \<in> live b"
      using assms(2) by (auto simp: held_ok_def)
    ultimately show ?thesis by auto
  qed
  then show ?thesis
    unfolding held_ok_def using d(1) l by blast
qed

lemma client_run_ok:
  assumes "rep h b" "held_ok (live b) held" "list_all (request_ok fits) rs"
  shows "\<exists>h' held' b'. client_run alloc free rs h held = Some (h', held') \<and> rep h' b' \<and> held_ok (live b') held'"
  using assms
proof (induction rs arbitrary: h b held)
  case (Cons r rs)
  show ?case
  proof (cases r)
    case (Malloc n)
    show ?thesis
    proof (cases "alloc n h = Some (h, None)")
      case True
      then show ?thesis
        using Cons by (simp add: Malloc)
    next
      case False
      then obtain h' b' p c where a: "alloc n h = Some (h', Some (int p))" "rep h' b'" "n \<le> c"
          "p \<notin> fst ` live b" "live b' = insert (p, c) (live b)"
        using alloc_law[OF Cons.prems(1), of n] Cons.prems(3) by (auto simp: Malloc)
      have "held_ok (live b') ((p, n) # held)"
        using a Cons.prems(2) by (auto simp: held_ok_def)
      then show ?thesis
        using Cons.IH[OF a(2)] Cons.prems(3) a(1) by (simp add: Malloc)
    qed
  next
    case (Free i)
    show ?thesis
    proof (cases "i < length held")
      case True
      have "fst (held ! i) \<in> fst ` live b"
        using Cons.prems(2) True by (auto simp: held_ok_def)
      then obtain c where c: "(fst (held ! i), c) \<in> live b"
        by auto
      obtain h' b' where f: "free (Some (int (fst (held ! i)))) h = Some h'" "rep h' b'"
          "live b' = live b - {(fst (held ! i), c)}"
        using free_law[OF Cons.prems(1) c] by blast
      have "held_ok (live b') (take i held @ drop (Suc i) held)"
        using held_remove[OF Cons.prems(1,2) True c] f by simp
      then show ?thesis
        using Cons.IH[OF f(2)] Cons.prems(3) f(1) True by (simp add: Free)
    qed (use Cons in \<open>simp add: Free\<close>)
  qed
qed auto

lemma held_apart:
  assumes "rep h b" "held_ok (live b) held" "i < length held" "j < length held" "i \<noteq> j"
  shows "apart (held ! i) (held ! j)"
proof -
  obtain p n q m where pq: "held ! i = (p, n)" "held ! j = (q, m)" by force
  have "p \<noteq> q"
  proof -
    have "map fst held ! i \<noteq> map fst held ! j"
      using assms(2-5) by (subst nth_eq_iff_index_eq) (auto simp: held_ok_def)
    then show ?thesis using assms(3,4) pq by simp
  qed
  moreover have "(p, n) \<in> set held" "(q, m) \<in> set held"
    using pq nth_mem[OF assms(3)] nth_mem[OF assms(4)] by auto
  then obtain c d where "n \<le> c" "(p, c) \<in> live b" "m \<le> d" "(q, d) \<in> live b"
    using assms(2) unfolding held_ok_def by blast
  ultimately show ?thesis
    using live_apart[OF assms(1), of "(p, c)" "(q, d)"] by (auto simp: pq)
qed

end

lemma used_at_Cons:
  "used_at p (x # bl) = (if snd x then {(p + 16, fst x - 16)} else {}) \<union> used_at (p + fst x) bl"
  by (cases x) simp

lemma used_at_append [simp]: "used_at p (a @ b) = used_at p a \<union> used_at (p + total a) b"
  by (induction a arbitrary: p rule: total.induct) (auto simp: add.assoc)

lemma used_at_coalesce [simp]: "used_at p (coalesce bl) = used_at p bl"
  by (induction bl arbitrary: p rule: coalesce.induct)
    (simp_all add: used_at_Cons, simp add: add.assoc)

lemma used_at_range:
  "seg hp pv p bl \<Longrightarrow> (q, c) \<in> used_at p bl \<Longrightarrow> p + 16 \<le> q \<and> q + c \<le> p + total bl \<and> 16 \<le> c \<and> (8 dvd p \<longrightarrow> 8 dvd q)"
proof (induction bl arbitrary: pv p rule: total.induct)
  case (2 s u bl)
  show ?case
  proof (cases "(q, c) \<in> used_at (p + s) bl")
    case True
    then show ?thesis
      using "2.IH"[OF _ True, of p] "2.prems"(1) by auto
  qed (use "2.prems" in \<open>auto split: if_splits\<close>)
qed simp

lemma used_at_cases:
  assumes "(q, c) \<in> used_at p bl"
  obtains a s b where "bl = a @ (s, True) # b" "q = p + total a + 16" "c = s - 16"
  using assms
proof (induction bl arbitrary: p thesis rule: total.induct)
  case (2 s u bl)
  show ?case
  proof (cases "u \<and> (q, c) = (p + 16, s - 16)")
    case True
    then show ?thesis using "2.prems"(1)[of "[]"] by simp
  next
    case False
    then have "(q, c) \<in> used_at (p + s) bl"
      using "2.prems"(2) by (auto split: if_splits)
    then obtain a t b where "bl = a @ (t, True) # b" "q = p + s + total a + 16" "c = t - 16"
      using "2.IH" by blast
    then show ?thesis
      using "2.prems"(1)[of "(s, u) # a" t b] by simp
  qed
qed simp

lemma seg_middle:
  assumes "heap_rel M hp (a @ (s, u) # b)"
  shows "seg hp 0 0 a" "seg hp (total a) (total a + s) b" "32 \<le> s"
  using assms by (auto simp: heap_rel_def linked_middle)

lemma heap_rel_live_apart:
  assumes "heap_rel M hp bl" "x \<in> used_at 0 bl" "y \<in> used_at 0 bl" "x \<noteq> y"
  shows "apart x y \<and> fst x \<noteq> fst y"
proof -
  obtain q c where x: "x = (q, c)" by force
  obtain a s b where bl: "bl = a @ (s, True) # b" "q = total a + 16" "c = s - 16"
    using assms(2) x used_at_cases[of q c 0 bl] by auto
  note sg = seg_middle[OF assms(1)[unfolded bl(1)]]
  obtain r d where y: "y = (r, d)" by force
  have "(r, d) \<in> used_at 0 a \<or> (r, d) \<in> used_at (total a + s) b"
    using assms(3,4) by (auto simp: x y bl)
  then show ?thesis
    using used_at_range[OF sg(1), of r d] used_at_range[OF sg(2), of r d] sg(3) by (auto simp: x y bl(2,3))
qed

lemma used_at_split:
  assumes "heap_rel M hp (a @ (s, False) # b)" "n \<le> s" "16 \<le> n"
  shows "\<exists>c \<ge> n - 16. used_at 0 (a @ split_block n s @ b) = insert (total a + 16, c) (used_at 0 (a @ (s, False) # b))
     \<and> total a + 16 \<notin> fst ` used_at 0 (a @ (s, False) # b)"
proof -
  note sg = seg_middle[OF assms(1)]
  have "total a + 16 \<notin> fst ` used_at 0 (a @ (s, False) # b)"
    using used_at_range[OF sg(1)] used_at_range[OF sg(2)] sg(3) by fastforce
  then show ?thesis
    using assms(2,3)
    by (intro exI[of _ "if n + 32 \<le> s then n - 16 else s - 16"]) (auto simp: split_block_def add.assoc)
qed

lemma heap_rel_alloc:
  assumes "heap_rel M hp bl" "n < 2 ^ 32"
  shows "mem_malloc M n hp = Some (hp, None) \<or>
      (\<exists>hp' bl' p c. mem_malloc M n hp = Some (hp', Some (int p)) \<and> heap_rel M hp' bl' \<and> n \<le> c \<and>
         p \<notin> fst ` used_at 0 bl \<and> used_at 0 bl' = insert (p, c) (used_at 0 bl))"
proof (cases "abs_malloc M n bl")
  case None
  then show ?thesis using mem_malloc_None[OF assms(1)] by simp
next
  case (Some x)
  obtain off bl' where x: "x = (off, bl')" by force
  obtain sz where sz: "mem_round M n = Some sz" "first_fit (sz + 16) bl = Some (off, bl')"
    using Some x by (auto simp: abs_malloc_def split: if_splits Option.bind_splits)
  obtain a s b where bl: "bl = a @ (s, False) # b" "off = total a" "sz + 16 \<le> s" "bl' = a @ split_block (sz + 16) s @ b"
    using first_fit_cases[OF sz(2)] by blast
  obtain c where "sz \<le> c" "used_at 0 bl' = insert (off + 16, c) (used_at 0 bl)" "off + 16 \<notin> fst ` used_at 0 bl"
    using used_at_split[of M hp a s b "sz + 16"] assms(1) bl by auto
  moreover obtain hp' where "mem_malloc M n hp = Some (hp', Some (int (off + 16)))" "heap_rel M hp' bl'"
    using mem_malloc_Some[OF assms Some[unfolded x]] by auto
  ultimately show ?thesis
    using mem_round_Some(1)[OF sz(1) assms(2)] le_trans by blast
qed

lemma heap_rel_free:
  assumes "heap_rel M hp bl" "(p, c) \<in> used_at 0 bl"
  shows "\<exists>hp' bl'. mem_free M (Some (int p)) hp = Some hp' \<and> heap_rel M hp' bl' \<and>
           used_at 0 bl' = used_at 0 bl - {(p, c)}"
proof -
  obtain a s b where bl: "bl = a @ (s, True) # b" "p = total a + 16" "c = s - 16"
    using used_at_cases[OF assms(2)] by auto
  note sg = seg_middle[OF assms(1)[unfolded bl(1)]]
  have "mark_free (total a) bl = Some (a @ (s, False) # b)"
    using assms(1) mark_free_middle[of hp 0 0 a s b] by (auto simp: heap_rel_def linked_def bl)
  then have "abs_free (total a) bl = Some (coalesce (a @ (s, False) # b))"
    by (simp add: abs_free_def)
  from mem_free_refines[OF assms(1) this]
  obtain hp' where "mem_free M (Some (int p)) hp = Some hp'" "heap_rel M hp' (coalesce (a @ (s, False) # b))"
    by (auto simp: bl(2))
  moreover have "(p, c) \<notin> used_at 0 a" "(p, c) \<notin> used_at (total a + s) b"
    using used_at_range[OF sg(1), of p c] used_at_range[OF sg(2), of p c] sg(3) by (auto simp: bl(2))
  then have "used_at 0 (coalesce (a @ (s, False) # b)) = used_at 0 bl - {(p, c)}"
    by (auto simp: bl)
  ultimately show ?thesis by blast
qed

interpretation mem: allocator "heap_rel M" "used_at 0" "mem_malloc M" "mem_free M" mem_fits for M
proof unfold_locales
  show "mem_malloc M n h = Some (h, None) \<or>
      (\<exists>h' b' p c. mem_malloc M n h = Some (h', Some (int p)) \<and> heap_rel M h' b' \<and> n \<le> c \<and>
         p \<notin> fst ` used_at 0 b \<and> used_at 0 b' = insert (p, c) (used_at 0 b))"
    if "heap_rel M h b" "mem_fits n" for h b n
    using that unfolding mem_fits_def by (rule heap_rel_alloc)
  show "\<exists>h' b'. mem_free M (Some (int p)) h = Some h' \<and> heap_rel M h' b' \<and> used_at 0 b' = used_at 0 b - {(p, c)}"
    if "heap_rel M h b" "(p, c) \<in> used_at 0 b" for h b p c
    using that by (rule heap_rel_free)
  show "c = d" if "heap_rel M h b" "(p, c) \<in> used_at 0 b" "(p, d) \<in> used_at 0 b" for h b p c d
    using heap_rel_live_apart[OF that] by auto
qed (simp add: heap_rel_live_apart)

lemma mem_init_rel:
  "32 \<le> M \<Longrightarrow> 8 dvd M \<Longrightarrow> M + 32 < 2 ^ 32 \<Longrightarrow> heap_rel M (mem_init M hp) [(M, False)]"
  by (simp add: heap_rel_def linked_def mem_init_def Let_def mem_set)

lemma no_used_one_block:
  assumes "no_free_pair bl" "bl \<noteq> []" "used_at p bl = {}"
  shows "bl = [(total bl, False)]"
proof -
  obtain s u bl' where bl: "bl = (s, u) # bl'" using assms(2) by (cases bl) auto
  then show ?thesis
    using assms by (cases bl') (auto split: if_splits)
qed

subsection \<open>Trimming\<close>

text \<open>What trimming a used block to \<open>n\<close> bytes, header included, makes of it and its successors.\<close>

definition trim_block :: "nat \<Rightarrow> nat \<Rightarrow> blocks \<Rightarrow> blocks" where
  "trim_block n s b =
     (if n = s then (s, True) # b
      else case b of
        (t, False) # b' \<Rightarrow> (n, True) # (s + t - n, False) # b'
      | _ \<Rightarrow> if n + 32 \<le> s then (n, True) # (s - n, False) # b else (s, True) # b)"

lemma trim_sizes:
  assumes "linked M hp (a @ (s, True) # b)" "M < 2 ^ 32"
  shows "sub64 ((nxt hp (total a) + 2 ^ 32 - total a) mod 2 ^ 32) 16 mod 2 ^ 32 = s - 16"
proof -
  have "nxt hp (total a) + 2 ^ 32 - total a = s + 2 ^ 32" "32 \<le> s" "s < 2 ^ 32"
    using assms by (auto simp: linked_middle)
  then show ?thesis
    by (simp add: sub64_le)
qed

lemma first_free_trim:
  "first_free 0 (a @ (n, True) # (r, False) # b) = (if list_all snd a then total a + n else first_free 0 a)"
  by (simp add: first_free_append)

lemma link_mem2_linked:
  assumes "seg hp 0 0 a" "seg hp pv e b" "e + total b = M"
    and "ram hp M = \<lparr>mem_next = M, mem_prev = M, mem_used = True\<rparr>"
    and n: "32 \<le> n" "8 dvd n" "q = total a + n" "q + 32 \<le> e" "8 dvd e - q"
    and p: "prv hp (total a) = last_off 0 0 a" "used hp (total a)"
  shows "linked M (link_mem2 M (total a) q e hp) (a @ (n, True) # (e - q, False) # b)"
    and "lfree (link_mem2 M (total a) q e hp) = lfree hp"
    and "data (link_mem2 M (total a) q e hp) = data hp"
proof -
  have "total a \<noteq> q" "total a \<noteq> e" "q \<noteq> e"
    using n by auto
  then show "linked M (link_mem2 M (total a) q e hp) (a @ (n, True) # (e - q, False) # b)"
    by (intro linked_cut[OF assms(1-9)])
      (use p in \<open>auto simp: link_mem2_def Let_def mem_set fun_eq_iff\<close>)
qed (simp_all add: link_mem2_def Let_def mem_set)

lemma mem_trim_next_free:
  assumes hr: "heap_rel M hp (a @ (s, True) # (t, False) # b)" and r: "mem_round M k = Some sz" "k < 2 ^ 32"
    and fits: "sz + 16 < s"
  shows "\<exists>hp'. mem_trim M (int (total a + 16)) k hp = Some (hp', Some (int (total a + 16))) \<and>
           heap_rel M hp' (a @ (sz + 16, True) # (s + t - (sz + 16), False) # b) \<and> data hp' = data hp"
proof -
  let ?p = "total a" and ?m = "total a + s" and ?q = "total a + 16 + sz" and ?e = "total a + s + t"
  have l: "linked M hp (a @ (s, True) # (t, False) # b)" and M: "M < 2 ^ 32"
    and nf: "no_free_pair (a @ (s, True) # (t, False) # b)"
    and f: "lfree hp = first_free 0 (a @ (s, True) # (t, False) # b)"
    using hr by (auto simp: heap_rel_def)
  define h0 where "h0 = (if lfree hp = ?m then hp\<lparr>lfree := ?q\<rparr> else hp)"
  have r0: "ram h0 = ram hp" "data h0 = data hp"
    by (simp_all add: h0_def)
  have h: "seg h0 0 0 a" "seg h0 ?m ?e b" "?e + total b = M"
      "ram h0 M = \<lparr>mem_next = M, mem_prev = M, mem_used = True\<rparr>" "8 dvd s" "8 dvd t" "32 \<le> t"
      "ram h0 ?p = \<lparr>mem_next = ?m, mem_prev = last_off 0 0 a, mem_used = True\<rparr>"
      "ram h0 ?m = \<lparr>mem_next = ?e, mem_prev = ?p, mem_used = False\<rparr>"
    using l seg_cong[of _ _ h0 hp] by (auto simp: linked_middle r0)
  note rd = mem_round_Some[OF r]
  have q: "?q mod 2 ^ 32 = ?q" "?m \<noteq> M" "?q = ?p + (sz + 16)" "?q + 32 \<le> ?e" "8 dvd ?e - ?q"
    using fits h M rd by (auto simp: dvd_diff_nat)
  have pos: "0 \<le> int (?p + 16) \<and> int (?p + 16) < int M" "\<not> int (?p + 16) - int 16 < 0" "nat (int (?p + 16) - int 16) = ?p"
    using h fits by auto
  have "mem_trim M (int (?p + 16)) k hp = Some (link_mem2 M ?p ?q ?e h0, Some (int (?p + 16)))"
    unfolding mem_trim_def r option.case Let_def mem_sizes pos(3) trim_sizes[OF l M]
    using pos(1,2) fits q(1,2) h(8,9) by (simp add: r0) (auto simp: h0_def)
  moreover note link_mem2_linked[OF h(1-4) _ _ q(3-5)]
  moreover have "lfree h0 = first_free 0 (a @ (sz + 16, True) # (?e - ?q, False) # b)"
    using f first_free_less[OF h(1)] by (auto simp: first_free_trim h0_def)
  moreover have "?e - ?q = s + t - (sz + 16)" by simp
  ultimately show ?thesis
    using hr nf rd h(8) r0(2) by (auto simp: heap_rel_def no_free_pair_append no_free_pair_Cons)
qed

lemma mem_trim_next_used:
  assumes hr: "heap_rel M hp (a @ (s, True) # b)" and r: "mem_round M k = Some sz" "k < 2 ^ 32"
    and fits: "sz + 48 \<le> s" and b: "b \<noteq> []" "snd (hd b)"
  shows "\<exists>hp'. mem_trim M (int (total a + 16)) k hp = Some (hp', Some (int (total a + 16))) \<and>
           heap_rel M hp' (a @ (sz + 16, True) # (s - (sz + 16), False) # b) \<and> data hp' = data hp"
proof -
  let ?p = "total a" and ?e = "total a + s" and ?q = "total a + 16 + sz"
  have l: "linked M hp (a @ (s, True) # b)" and M: "M < 2 ^ 32"
    and nf: "no_free_pair (a @ (s, True) # b)" and f: "lfree hp = first_free 0 (a @ (s, True) # b)"
    using hr by (auto simp: heap_rel_def)
  define h0 where "h0 = (if ?q < lfree hp then hp\<lparr>lfree := ?q\<rparr> else hp)"
  have r0: "ram h0 = ram hp" "data h0 = data hp"
    by (simp_all add: h0_def)
  have h: "seg h0 0 0 a" "seg h0 ?p ?e b" "?e + total b = M"
      "ram h0 M = \<lparr>mem_next = M, mem_prev = M, mem_used = True\<rparr>" "8 dvd s"
      "ram h0 ?p = \<lparr>mem_next = ?e, mem_prev = last_off 0 0 a, mem_used = True\<rparr>"
    using l seg_cong[of _ _ h0 hp] by (auto simp: linked_middle r0)
  have b': "used h0 ?e" "32 \<le> total b"
    using h(2) b by (cases b; auto)+
  note rd = mem_round_Some[OF r]
  have q: "?q mod 2 ^ 32 = ?q" "?e \<noteq> M" "?q = ?p + (sz + 16)" "?q + 32 \<le> ?e" "8 dvd ?e - ?q"
      "sz + 16 + 16 \<le> s - 16"
    using fits h M rd b' by (auto simp: dvd_diff_nat)
  have pos: "0 \<le> int (?p + 16) \<and> int (?p + 16) < int M" "\<not> int (?p + 16) - int 16 < 0" "nat (int (?p + 16) - int 16) = ?p"
    using h fits by auto
  have "mem_trim M (int (?p + 16)) k hp = Some (link_mem2 M ?p ?q ?e h0, Some (int (?p + 16)))"
    unfolding mem_trim_def r option.case Let_def mem_sizes pos(3) trim_sizes[OF l M]
    using pos(1,2) fits q(1,2,6) h(6) b'(1) by (simp add: r0) (auto simp: h0_def)
  moreover note link_mem2_linked[OF h(1-4) _ _ q(3-5)]
  moreover have "lfree h0 = first_free 0 (a @ (sz + 16, True) # (?e - ?q, False) # b)"
    using f first_free_less[OF h(1)] first_free_ge[of ?e b] fits
    by (cases "list_all snd a") (auto simp: first_free_trim first_free_append h0_def)
  moreover have "?e - ?q = s - (sz + 16)" by simp
  ultimately show ?thesis
    using hr nf rd h(6) r0(2) b by (auto simp: heap_rel_def no_free_pair_append no_free_pair_Cons)
qed

lemma mem_trim_keep:
  assumes hr: "heap_rel M hp (a @ (s, True) # b)" and r: "mem_round M k = Some sz" "k < 2 ^ 32"
    and keep: "sz + 16 \<le> s" "sz + 16 = s \<or> s < sz + 48 \<and> (b = [] \<or> snd (hd b))"
  shows "mem_trim M (int (total a + 16)) k hp = Some (hp, Some (int (total a + 16)))"
proof -
  have l: "linked M hp (a @ (s, True) # b)" and M: "M < 2 ^ 32"
    using hr by (auto simp: heap_rel_def)
  have pos: "0 \<le> int (total a + 16) \<and> int (total a + 16) < int M" "\<not> int (total a + 16) - int 16 < 0"
      "nat (int (total a + 16) - int 16) = total a"
    using l by (auto simp: linked_middle)
  have n: "nxt hp (total a) = total a + s" "b = [] \<or> snd (hd b) \<Longrightarrow> used hp (total a + s)"
    using l by (cases b; auto simp: linked_middle)+
  have le: "\<not> \<not> sz \<le> s - 16"
    using keep by linarith
  show ?thesis
  proof (cases "sz = s - 16")
    case True
    show ?thesis
      unfolding mem_trim_def r option.case Let_def mem_sizes pos(3) trim_sizes[OF l M]
      using pos(1,2) True by simp
  next
    case False
    then have "s < sz + 48" "b = [] \<or> snd (hd b)"
      using keep by auto
    then have "used hp (total a + s)" "\<not> sz + 16 + 16 \<le> s - 16"
      using n(2) by (blast, linarith)
    then show ?thesis
      unfolding mem_trim_def r option.case Let_def mem_sizes pos(3) trim_sizes[OF l M]
      using pos(1,2) False le n(1) by simp
  qed
qed

lemma if_None_eq: "((if c then None else x) = Some y) = (\<not> c \<and> x = Some y)"
  by simp

lemma mem_free_Some:
  assumes "mem_free M (Some r) hp = Some hp'"
  obtains h where "ram h = ram (set_used (nat (r - 16)) False hp)" "plug_holes M (nat (r - 16)) h = Some hp'"
proof (rule that)
  let ?m = "nat (r - 16)" and ?h = "set_used (nat (r - 16)) False hp"
  show "plug_holes M ?m (if ?m < lfree ?h then ?h\<lparr>lfree := ?m\<rparr> else ?h) = Some hp'"
    using assms by (simp only: mem_free_def option.case Let_def mem_sizes of_nat_numeral if_None_eq)
qed (simp add: mem_set)

lemma used_plug:
  "used (plug_forward M m hp) q = used hp q" "used (plug_backward M m hp) q = used hp q"
  by (simp_all add: plug_backward_def plug_forward_def Let_def mem_set)

lemma mem_free_clears:
  assumes "mem_free M (Some r) hp = Some hp'"
  shows "\<not> used hp' (nat (r - 16))"
proof -
  obtain h where "ram h = ram (set_used (nat (r - 16)) False hp)" "plug_holes M (nat (r - 16)) h = Some hp'"
    using mem_free_Some[OF assms] .
  then show ?thesis
    by (auto simp: plug_holes_def used_plug mem_set if_None_eq)
qed

lemma coalesce_split_block:
  assumes "no_free_pair (a @ (s, False) # b)" "n \<le> s"
  shows "coalesce (a @ (fst (hd (split_block n s)), False) # tl (split_block n s) @ b) = a @ (s, False) # b"
proof (cases "n + 32 \<le> s")
  case True
  have "no_free_pair (a @ (n, True) # (s - n, False) # b)" 
    using assms(1) by (auto simp: no_free_pair_append no_free_pair_Cons)
  from coalesce_freed[OF this, of s b] show ?thesis
    using assms True by (auto simp: split_block_def merge_prev_def no_free_pair_append)
next
  case False
  then show ?thesis
    using coalesce_id[OF assms(1)] by (simp add: split_block_def)
qed

lemma first_fit_free:
  assumes h: "heap_rel M hp' bl'" "heap_rel M hp bl" and f: "first_fit n bl = Some (off, bl')"
  shows "abs_free off bl' = Some bl"
proof -
  obtain a s b where bl: "bl = a @ (s, False) # b" "off = total a" "n \<le> s" "bl' = a @ split_block n s @ b"
    using first_fit_cases[OF f] by blast
  have bl2: "bl' = a @ (fst (hd (split_block n s)), True) # tl (split_block n s) @ b"
    by (simp add: bl(4) split_block_def)
  have "mark_free off bl' = Some (a @ (fst (hd (split_block n s)), False) # tl (split_block n s) @ b)"
    using mark_free_middle[of hp' 0 0 a "fst (hd (split_block n s))" "tl (split_block n s) @ b"] h(1)
    by (auto simp: bl(2) bl2 heap_rel_def linked_def)
  then show ?thesis
    using coalesce_split_block[of a s b n] h(2) bl(1,3) by (simp add: abs_free_def heap_rel_def)
qed

subsection \<open>Properties\<close>

definition zero_heap :: heap where
  "zero_heap = \<lparr>ram = (\<lambda>_. \<lparr>mem_next = 0, mem_prev = 0, mem_used = False\<rparr>), lfree = 0, data = (\<lambda>_. 0)\<rparr>"

text \<open>C7. \<open>mem_malloc\<close> implements first fit on the list of the blocks: it always returns, with the block
  the abstract search takes, split when the rest can hold a block of its own, or with NULL and
  the heap unchanged when no free block fits or the rounded size is out of range. No memory
  outside the headers is written.\<close>

theorem mem_malloc_refines:
  assumes "heap_rel M hp bl" "n < 2 ^ 32"
  shows "\<exists>hp'. mem_malloc M n hp = Some (hp', map_option (\<lambda>(off, _). int off + 16) (abs_malloc M n bl)) \<and>
           heap_rel M hp' (case abs_malloc M n bl of None \<Rightarrow> bl | Some (_, bl') \<Rightarrow> bl') \<and> data hp' = data hp"
  using mem_malloc_None[OF assms(1)] mem_malloc_Some[OF assms] assms(1)
  by (cases "abs_malloc M n bl") auto

theorem mem_malloc_refines_witness:
  "\<exists>hp'. mem_malloc 128 20 (mem_init 128 zero_heap) = Some (hp', Some 16) \<and>
     heap_rel 128 hp' [(40, True), (88, False)]"
  using mem_malloc_refines[OF mem_init_rel[of 128 zero_heap], of 20]
  by (auto simp: abs_malloc_def mem_round_def LWIP_MEM_ALIGN_SIZE_def split_block_def)

text \<open>C8. \<open>mem_free\<close> of a used block marks it free and merges it with both neighbours, so that no
  two free blocks ever touch; the lowest-free pointer stays exact.\<close>

theorem mem_free_refines_abs:
  assumes "heap_rel M hp bl" "abs_free off bl = Some bl'"
  shows "\<exists>hp'. mem_free M (Some (int off + 16)) hp = Some hp' \<and> heap_rel M hp' bl' \<and> data hp' = data hp"
  using mem_free_refines[OF assms] .

theorem mem_free_refines_abs_witness:
  "\<exists>hp hp'. heap_rel 128 hp [(40, True), (88, False)] \<and> mem_free 128 (Some 16) hp = Some hp' \<and>
     heap_rel 128 hp' [(128, False)]"
proof -
  obtain hp where hp: "heap_rel 128 hp [(40, True), (88, False)]"
    using mem_malloc_Some[OF mem_init_rel[of 128 zero_heap], of 20]
    by (auto simp: abs_malloc_def mem_round_def LWIP_MEM_ALIGN_SIZE_def split_block_def)
  then show ?thesis
    using mem_free_refines_abs[OF hp, of 0] by (fastforce simp: abs_free_def)
qed

text \<open>C6. Memory safety for every client: whatever sequence of requests and frees of its own memory
  it sends to a fresh heap, no assertion stops it, what it holds is aligned, lies inside the
  heap and never overlaps, and when it has given everything back the heap is one free block.\<close>

theorem mem_client_safe:
  assumes "32 \<le> M" "8 dvd M" "M + 32 < 2 ^ 32" "list_all (request_ok mem_fits) rs"
  shows "\<exists>hp' held. client_run (mem_malloc M) (mem_free M) rs (mem_init M hp) [] = Some (hp', held) \<and>
     (\<forall>(p, n) \<in> set held. 16 \<le> p \<and> 8 dvd p \<and> p + n \<le> M) \<and>
     (\<forall>i < length held. \<forall>j < length held. i \<noteq> j \<longrightarrow> apart (held ! i) (held ! j)) \<and>
     (held = [] \<longrightarrow> heap_rel M hp' [(M, False)])"
proof -
  have "held_ok (used_at 0 [(M, False)]) []"
    by (simp add: held_ok_def)
  from mem.client_run_ok[OF mem_init_rel[OF assms(1-3), of hp] this assms(4)]
  obtain hp' held bl where run: "client_run (mem_malloc M) (mem_free M) rs (mem_init M hp) [] = Some (hp', held)"
    and hr: "heap_rel M hp' bl" and ok: "held_ok (used_at 0 bl) held"
    by metis
  have sg: "seg hp' 0 0 bl" "total bl = M" "no_free_pair bl" "bl \<noteq> []"
    using hr by (auto simp: heap_rel_def linked_def)
  have range: "16 \<le> p \<and> 8 dvd p \<and> p + n \<le> M" if pn: "(p, n) \<in> set held" for p n
  proof -
    obtain c where "n \<le> c" "(p, c) \<in> used_at 0 bl"
      using ok pn unfolding held_ok_def by blast
    then show ?thesis
      using used_at_range[OF sg(1), of p c] sg(2) by auto
  qed
  have one: "bl = [(M, False)]" if "held = []"
  proof -
    have "used_at 0 bl = {}"
      using ok that by (simp add: held_ok_def)
    from no_used_one_block[OF sg(3,4) this] show ?thesis
      unfolding sg(2) .
  qed
  show ?thesis
  proof (intro exI conjI allI impI)
    show "client_run (mem_malloc M) (mem_free M) rs (mem_init M hp) [] = Some (hp', held)"
      by (rule run)
    show "heap_rel M hp' [(M, False)]" if "held = []"
      using hr one[OF that] by simp
    show "\<forall>(p, n) \<in> set held. 16 \<le> p \<and> 8 dvd p \<and> p + n \<le> M"
      by (auto dest: range)
  qed (rule mem.held_apart[OF hr ok])
qed

theorem mem_client_safe_witness:
  "\<exists>hp' held. client_run (mem_malloc 256) (mem_free 256) [Malloc 20, Malloc 300, Malloc 24, Free 1, Malloc 8]
       (mem_init 256 zero_heap) [] = Some (hp', held) \<and>
     (\<forall>i < length held. \<forall>j < length held. i \<noteq> j \<longrightarrow> apart (held ! i) (held ! j))"
  using mem_client_safe[of 256 "[Malloc 20, Malloc 300, Malloc 24, Free 1, Malloc 8]" zero_heap]
  by (auto simp: mem_fits_def)

text \<open>C9. Freeing what \<open>mem_malloc\<close> has just returned gives the list of blocks back as it was.\<close>

theorem mem_malloc_free_roundtrip:
  assumes "heap_rel M hp bl" "n < 2 ^ 32" "mem_malloc M n hp = Some (hp1, Some r)"
  shows "\<exists>hp2. mem_free M (Some r) hp1 = Some hp2 \<and> heap_rel M hp2 bl \<and> data hp2 = data hp"
proof -
  obtain off bl' where am: "abs_malloc M n bl = Some (off, bl')"
    using mem_malloc_None[OF assms(1), of n] assms(3) by (cases "abs_malloc M n bl") auto
  from mem_malloc_Some[OF assms(1,2) am] have h1: "heap_rel M hp1 bl'" "r = int off + 16" "data hp1 = data hp"
    using assms(3) by auto
  obtain m where "first_fit m bl = Some (off, bl')"
    using am by (auto simp: abs_malloc_def split: if_splits Option.bind_splits)
  then have "abs_free off bl' = Some bl"
    using first_fit_free[OF h1(1) assms(1)] by blast
  then show ?thesis
    using mem_free_refines[OF h1(1)] h1(2,3) by auto
qed

theorem mem_malloc_free_roundtrip_witness:
  "\<exists>hp1 hp2. mem_malloc 128 20 (mem_init 128 zero_heap) = Some (hp1, Some 16) \<and>
     mem_free 128 (Some 16) hp1 = Some hp2 \<and> heap_rel 128 hp2 [(128, False)]"
proof -
  have i: "heap_rel 128 (mem_init 128 zero_heap) [(128, False)]"
    by (rule mem_init_rel) simp_all
  moreover obtain hp1 where "mem_malloc 128 20 (mem_init 128 zero_heap) = Some (hp1, Some 16)"
    using mem_malloc_Some[OF i, of 20]
    by (auto simp: abs_malloc_def mem_round_def LWIP_MEM_ALIGN_SIZE_def split_block_def)
  ultimately show ?thesis
    using mem_malloc_free_roundtrip[OF i, of 20] by auto
qed



text \<open>C11. \<open>mem_trim\<close> of a used block to a smaller size returns the same pointer and gives the rest
  back: to the free block behind it, or as a new free block when it can hold one, and else the
  block keeps its size. This holds unless the block is the last one of the heap.\<close>

theorem mem_trim_refines:
  assumes "heap_rel M hp (a @ (s, True) # b)" "mem_round M k = Some sz" "k < 2 ^ 32" "sz + 16 \<le> s"
    and "b = [] \<Longrightarrow> s < sz + 48"
  shows "\<exists>hp'. mem_trim M (int (total a + 16)) k hp = Some (hp', Some (int (total a + 16))) \<and>
           heap_rel M hp' (a @ trim_block (sz + 16) s b) \<and> data hp' = data hp"
proof (cases "sz + 16 = s \<or> s < sz + 48 \<and> (b = [] \<or> snd (hd b))")
  case True
  moreover have "trim_block (sz + 16) s b = (s, True) # b"
    using True by (auto simp: trim_block_def split: list.split bool.split)
  ultimately show ?thesis
    using mem_trim_keep[OF assms(1-4)] assms(1) by simp
next
  case False
  then obtain t v b' where b: "b = (t, v) # b'"
    using assms(4,5) by (cases b) auto
  show ?thesis
  proof (cases v)
    case True
    then show ?thesis
      using mem_trim_next_used[OF assms(1-3)] False b by (simp add: trim_block_def)
  next
    case v: False
    then show ?thesis
      using mem_trim_next_free[OF _ assms(2,3), of hp a s t b'] assms(1,4) False b
      by (simp add: trim_block_def)
  qed
qed

theorem mem_trim_refines_witness:
  "\<exists>hp hp'. heap_rel 128 hp [(40, True), (88, False)] \<and> mem_trim 128 16 10 hp = Some (hp', Some 16) \<and>
     heap_rel 128 hp' [(32, True), (96, False)]"
proof -
  obtain hp where hp: "heap_rel 128 hp ([] @ (40, True) # [(88, False)])"
    using mem_malloc_Some[OF mem_init_rel[of 128 zero_heap], of 20]
    by (auto simp: abs_malloc_def mem_round_def LWIP_MEM_ALIGN_SIZE_def split_block_def)
  have "mem_round 128 10 = Some 16"
    by (simp add: mem_round_def LWIP_MEM_ALIGN_SIZE_def)
  then show ?thesis
    using mem_trim_refines[OF hp, of 10 16] hp by (auto simp: trim_block_def)
qed



end
