(* ===== verification/Lwip_Memp.thy ===== *)
theory Lwip_Memp
  imports Lwip_Mem
begin

section \<open>Memory pools (memp.c)\<close>

text \<open>
  Pools of elements of one size: the free elements form a list linked through their own memory.
  An element is its address; \<open>mnext\<close> is the \<open>struct memp\<close> that lies at the start of a free one.
  The descriptors are the argument \<open>pools\<close>, since the linker places the pools; the library relies
  on them not overlapping. \<open>MEMP_SIZE\<close> is 0, and the sanity and overflow checks and statistics are
  compiled out. The pool is a second provider of the interface \<open>allocator\<close>.
\<close>

datatype memp_t =
  MEMP_RAW_PCB | MEMP_TCP_PCB | MEMP_TCP_PCB_LISTEN | MEMP_TCP_SEG | MEMP_REASSDATA | MEMP_FRAG_PBUF
| MEMP_SYS_TIMEOUT | MEMP_PBUF | MEMP_PBUF_POOL

record memp_desc =
  desc_size :: nat
  desc_num :: nat
  desc_base :: nat

record memps =
  mnext :: "nat \<Rightarrow> nat option"
  tab :: "memp_t \<Rightarrow> nat option"

definition LWIP_MEM_ALIGN :: "nat \<Rightarrow> nat" where
  "LWIP_MEM_ALIGN addr = (addr + MEM_ALIGNMENT - 1) div MEM_ALIGNMENT * MEM_ALIGNMENT"

fun memp_link_loop :: "memp_desc \<Rightarrow> memp_t \<Rightarrow> nat \<Rightarrow> nat \<Rightarrow> memps \<Rightarrow> memps" where
  "memp_link_loop d t 0 memp st = st"
| "memp_link_loop d t (Suc n) memp st =
     memp_link_loop d t n (memp + desc_size d)
       (st\<lparr>mnext := (mnext st)(memp := tab st t), tab := (tab st)(t := Some memp)\<rparr>)"

definition memp_init_pool :: "memp_desc \<Rightarrow> memp_t \<Rightarrow> memps \<Rightarrow> memps" where
  "memp_init_pool d t st =
     memp_link_loop d t (desc_num d) (LWIP_MEM_ALIGN (desc_base d)) (st\<lparr>tab := (tab st)(t := None)\<rparr>)"

definition memp_types :: "memp_t list" where
  "memp_types = [MEMP_RAW_PCB, MEMP_TCP_PCB, MEMP_TCP_PCB_LISTEN, MEMP_TCP_SEG, MEMP_REASSDATA,
     MEMP_FRAG_PBUF, MEMP_SYS_TIMEOUT, MEMP_PBUF, MEMP_PBUF_POOL]"

definition memp_init :: "(memp_t \<Rightarrow> memp_desc) \<Rightarrow> memps \<Rightarrow> memps" where
  "memp_init pools st = fold (\<lambda>t. memp_init_pool (pools t) t) memp_types st"

text \<open>\<open>None\<close> is a failed assertion, the inner \<open>None\<close> is NULL.\<close>

definition memp_malloc :: "memp_t \<Rightarrow> memps \<Rightarrow> (memps \<times> nat option) option" where
  "memp_malloc t st =
     (case tab st t of
        None \<Rightarrow> Some (st, None)
      | Some memp \<Rightarrow>
          let st = st\<lparr>tab := (tab st)(t := mnext st memp)\<rparr>
          in if memp mod MEM_ALIGNMENT \<noteq> 0 then None else Some (st, Some memp))"

definition memp_free :: "memp_t \<Rightarrow> nat option \<Rightarrow> memps \<Rightarrow> memps option" where
  "memp_free t m st =
     (case m of
        None \<Rightarrow> Some st
      | Some mem \<Rightarrow>
          if mem mod MEM_ALIGNMENT \<noteq> 0 then None
          else Some (st\<lparr>mnext := (mnext st)(mem := tab st t), tab := (tab st)(t := Some mem)\<rparr>))"

subsection \<open>The free lists\<close>

definition pool_elems :: "memp_desc \<Rightarrow> nat list" where
  "pool_elems d = map (\<lambda>i. LWIP_MEM_ALIGN (desc_base d) + i * desc_size d) [0..<desc_num d]"

definition pools_ok :: "(memp_t \<Rightarrow> memp_desc) \<Rightarrow> bool" where
  "pools_ok pools =
     ((\<forall>t. 8 \<le> desc_size (pools t) \<and> 8 dvd desc_size (pools t)) \<and>
      (\<forall>t u. t \<noteq> u \<longrightarrow> set (pool_elems (pools t)) \<inter> set (pool_elems (pools u)) = {}))"

fun mlist :: "(nat \<Rightarrow> nat option) \<Rightarrow> nat option \<Rightarrow> nat list \<Rightarrow> bool" where
  "mlist nx p [] = (p = None)"
| "mlist nx p (a # as) = (p = Some a \<and> mlist nx (nx a) as)"

definition pools_rel :: "(memp_t \<Rightarrow> memp_desc) \<Rightarrow> memps \<Rightarrow> (memp_t \<Rightarrow> nat list) \<Rightarrow> bool" where
  "pools_rel pools st fl =
     (pools_ok pools \<and>
      (\<forall>t. mlist (mnext st) (tab st t) (fl t) \<and> distinct (fl t) \<and> set (fl t) \<subseteq> set (pool_elems (pools t))))"

definition pool_live :: "(memp_t \<Rightarrow> memp_desc) \<Rightarrow> memp_t \<Rightarrow> (memp_t \<Rightarrow> nat list) \<Rightarrow> (nat \<times> nat) set" where
  "pool_live pools t fl = (\<lambda>p. (p, desc_size (pools t))) ` (set (pool_elems (pools t)) - set (fl t))"

text \<open>The two operations at the types of the interface: a pointer of no element is never freed.\<close>

definition pool_alloc :: "memp_t \<Rightarrow> nat \<Rightarrow> memps \<Rightarrow> (memps \<times> int option) option" where
  "pool_alloc t n st = map_option (map_prod id (map_option int)) (memp_malloc t st)"

definition pool_free :: "memp_t \<Rightarrow> int option \<Rightarrow> memps \<Rightarrow> memps option" where
  "pool_free t p st = memp_free t (map_option nat p) st"

definition pool_fits :: "(memp_t \<Rightarrow> memp_desc) \<Rightarrow> memp_t \<Rightarrow> nat \<Rightarrow> bool" where
  "pool_fits pools t n = (n \<le> desc_size (pools t))"

lemma mlist_cong: "(\<And>a. a \<in> set as \<Longrightarrow> nx a = nx' a) \<Longrightarrow> mlist nx p as = mlist nx' p as"
  by (induction as arbitrary: p) auto

lemma pools_relD:
  assumes "pools_rel pools st fl"
  shows "pools_ok pools" "mlist (mnext st) (tab st t) (fl t)" "distinct (fl t)"
    "set (fl t) \<subseteq> set (pool_elems (pools t))"
  using assms by (auto simp: pools_rel_def)

lemma mlist_upd: "a \<notin> set as \<Longrightarrow> mlist (nx(a := q)) p as = mlist nx p as"
  by (rule mlist_cong) auto

lemma elem_form: "p \<in> set (pool_elems d) \<longleftrightarrow> (\<exists>i < desc_num d. p = LWIP_MEM_ALIGN (desc_base d) + i * desc_size d)"
  by (auto simp: pool_elems_def)

lemma elem_aligned: "pools_ok pools \<Longrightarrow> p \<in> set (pool_elems (pools t)) \<Longrightarrow> p mod 8 = 0"
  by (auto simp: elem_form pools_ok_def LWIP_MEM_ALIGN_def mod_eq_0_iff_dvd)

lemma elem_apart:
  assumes "pools_ok pools" "p \<in> set (pool_elems (pools t))" "q \<in> set (pool_elems (pools t))" "p \<noteq> q"
  shows "apart (p, desc_size (pools t)) (q, desc_size (pools t))"
proof -
  let ?s = "desc_size (pools t)" and ?b = "LWIP_MEM_ALIGN (desc_base (pools t))"
  obtain i j where ij: "p = ?b + i * ?s" "q = ?b + j * ?s"
    using assms(2,3) by (auto simp: elem_form)
  have "i * ?s + ?s \<le> j * ?s \<or> j * ?s + ?s \<le> i * ?s"
  proof (cases "i < j")
    case True
    then show ?thesis using mult_le_mono1[of "Suc i" j ?s] by simp
  next
    case False
    then have "j < i" using assms(4) ij by (cases "i = j") auto
    then show ?thesis using mult_le_mono1[of "Suc j" i ?s] by simp
  qed
  then show ?thesis
    by (auto simp: ij)
qed

lemma memp_malloc_empty: "pools_rel pools st fl \<Longrightarrow> fl t = [] \<Longrightarrow> memp_malloc t st = Some (st, None)"
  using pools_relD(2)[of pools st fl t] by (simp add: memp_malloc_def)

lemma memp_malloc_rel:
  assumes r: "pools_rel pools st fl" and f: "fl t = p # as"
  shows "\<exists>st'. memp_malloc t st = Some (st', Some p) \<and> pools_rel pools st' (fl(t := as))"
proof -
  have h: "tab st t = Some p" "mlist (mnext st) (mnext st p) as" "distinct (p # as)" "p \<in> set (pool_elems (pools t))"
      "set as \<subseteq> set (pool_elems (pools t))"
    using pools_relD(2-4)[OF r, of t] by (auto simp: f)
  define st' where "st' = st\<lparr>tab := (tab st)(t := mnext st p)\<rparr>"
  have "memp_malloc t st = Some (st', Some p)"
    using h(1,4) elem_aligned[of pools p t] r
    by (simp add: memp_malloc_def Let_def st'_def pools_rel_def)
  moreover have "pools_rel pools st' (fl(t := as))"
    using r h by (auto simp: pools_rel_def st'_def)
  ultimately show ?thesis
    by blast
qed

lemma memp_free_rel:
  assumes r: "pools_rel pools st fl" and p: "p \<in> set (pool_elems (pools t)) - set (fl t)"
  shows "\<exists>st'. memp_free t (Some p) st = Some st' \<and> pools_rel pools st' (fl(t := p # fl t))"
proof -
  define st' where "st' = st\<lparr>mnext := (mnext st)(p := tab st t), tab := (tab st)(t := Some p)\<rparr>"
  have "memp_free t (Some p) st = Some st'"
    using elem_aligned[of pools p t] r p by (simp add: memp_free_def st'_def pools_rel_def)
  moreover have "p \<notin> set (fl u)" for u
  proof (cases "u = t")
    case False
    then have "set (fl u) \<subseteq> set (pool_elems (pools u))" "set (pool_elems (pools t)) \<inter> set (pool_elems (pools u)) = {}"
      using r by (auto simp: pools_rel_def pools_ok_def)
    then show ?thesis using p by blast
  qed (use p in simp)
  then have "mlist ((mnext st)(p := tab st t)) q (fl u) = mlist (mnext st) q (fl u)" for q u
    by (rule mlist_upd)
  then have "pools_rel pools st' (fl(t := p # fl t))"
    using r p by (auto simp: pools_rel_def st'_def)
  ultimately show ?thesis
    by blast
qed

lemma pool_alloc_law:
  assumes r: "pools_rel pools st fl" and n: "pool_fits pools t n"
  shows "pool_alloc t n st = Some (st, None) \<or>
      (\<exists>st' fl' p c. pool_alloc t n st = Some (st', Some (int p)) \<and> pools_rel pools st' fl' \<and> n \<le> c \<and>
         p \<notin> fst ` pool_live pools t fl \<and> pool_live pools t fl' = insert (p, c) (pool_live pools t fl))"
proof (cases "fl t")
  case Nil
  then show ?thesis
    using memp_malloc_empty[OF r] by (simp add: pool_alloc_def)
next
  case (Cons p as)
  obtain st' where st': "memp_malloc t st = Some (st', Some p)" "pools_rel pools st' (fl(t := as))"
    using memp_malloc_rel[OF r Cons] by blast
  moreover have "p \<notin> fst ` pool_live pools t fl"
    by (auto simp: pool_live_def Cons)
  moreover have "pool_live pools t (fl(t := as)) = insert (p, desc_size (pools t)) (pool_live pools t fl)"
    using pools_relD(3,4)[OF r, of t] by (auto simp: pool_live_def Cons)
  ultimately show ?thesis
    using n by (auto simp: pool_alloc_def pool_fits_def)
qed

lemma pool_free_law:
  assumes r: "pools_rel pools st fl" and p: "(p, c) \<in> pool_live pools t fl"
  shows "\<exists>st' fl'. pool_free t (Some (int p)) st = Some st' \<and> pools_rel pools st' fl' \<and>
           pool_live pools t fl' = pool_live pools t fl - {(p, c)}"
proof -
  have h: "p \<in> set (pool_elems (pools t)) - set (fl t)" "c = desc_size (pools t)"
    using p by (auto simp: pool_live_def)
  obtain st' where "pool_free t (Some (int p)) st = Some st'" "pools_rel pools st' (fl(t := p # fl t))"
    using memp_free_rel[OF r h(1)] by (auto simp: pool_free_def)
  moreover have "pool_live pools t (fl(t := p # fl t)) = pool_live pools t fl - {(p, c)}"
    using h by (auto simp: pool_live_def)
  ultimately show ?thesis
    by blast
qed

interpretation memp: allocator "pools_rel pools" "pool_live pools t" "pool_alloc t" "pool_free t" "pool_fits pools t"
  for pools t
proof unfold_locales
  show "apart x y" if "pools_rel pools st fl" "x \<in> pool_live pools t fl" "y \<in> pool_live pools t fl" "x \<noteq> y"
    for st fl x y
  proof -
    note xy = that
    obtain p q where "x = (p, desc_size (pools t))" "y = (q, desc_size (pools t))"
        "p \<in> set (pool_elems (pools t))" "q \<in> set (pool_elems (pools t))"
      using xy(2,3) by (auto simp: pool_live_def)
    then show ?thesis
      using elem_apart[of pools p t q] xy(1,4) by (simp add: pools_rel_def)
  qed
  show "c = d" if "pools_rel pools st fl" "(p, c) \<in> pool_live pools t fl" "(p, d) \<in> pool_live pools t fl"
    for st fl p c d
    using that by (auto simp: pool_live_def)
qed (use pool_alloc_law pool_free_law in blast)+

lemma memp_link_loop_spec:
  assumes "mlist (mnext st) (tab st t) as" "\<And>i. i < n \<Longrightarrow> memp + i * desc_size d \<notin> set as" "0 < desc_size d"
  shows "mlist (mnext (memp_link_loop d t n memp st)) (tab (memp_link_loop d t n memp st) t)
           (rev (map (\<lambda>i. memp + i * desc_size d) [0..<n]) @ as)"
  using assms
proof (induction n arbitrary: memp st as)
  case (Suc n)
  let ?st = "st\<lparr>mnext := (mnext st)(memp := tab st t), tab := (tab st)(t := Some memp)\<rparr>"
  have m: "memp \<notin> set as"
    using Suc.prems(2)[of 0] by simp
  have l: "mlist (mnext ?st) (tab ?st t) (memp # as)"
    using Suc.prems(1) m by (simp add: mlist_upd)
  have d: "memp + desc_size d + i * desc_size d \<notin> set (memp # as)" if "i < n" for i
    using Suc.prems(2)[of "Suc i"] Suc.prems(3) that by (auto simp: add.assoc)
  have "mlist (mnext (memp_link_loop d t (Suc n) memp st)) (tab (memp_link_loop d t (Suc n) memp st) t)
      (rev (map (\<lambda>i. memp + desc_size d + i * desc_size d) [0..<n]) @ memp # as)"
    unfolding memp_link_loop.simps by (rule Suc.IH[OF l d Suc.prems(3)])
  moreover have "map (\<lambda>i. memp + i * desc_size d) [0..<Suc n] =
      memp # map (\<lambda>i. memp + desc_size d + i * desc_size d) [0..<n]"
    by (simp add: upt_conv_Cons map_Suc_upt[symmetric] comp_def add.assoc del: upt_Suc)
  ultimately show ?case
    by simp
qed simp

lemma memp_link_loop_frame:
  "(\<And>i. i < n \<Longrightarrow> memp + i * desc_size d \<noteq> a) \<Longrightarrow> mnext (memp_link_loop d t n memp st) a = mnext st a"
  "u \<noteq> t \<Longrightarrow> tab (memp_link_loop d t n memp st) u = tab st u"
proof (induction n arbitrary: memp st)
  case (Suc n)
  {
    case 1
    have "memp \<noteq> a" "\<And>i. i < n \<Longrightarrow> memp + desc_size d + i * desc_size d \<noteq> a"
      using 1[of 0] 1[of "Suc _"] by (auto simp: add.assoc)
    then show ?case
      using Suc.IH(1) by simp
  next
    case 2
    then show ?case
      using Suc.IH(2) by simp
  }
qed simp_all

lemma memp_init_pool_spec:
  assumes "0 < desc_size d"
  shows "mlist (mnext (memp_init_pool d t st)) (tab (memp_init_pool d t st) t) (rev (pool_elems d))"
  using memp_link_loop_spec[of "st\<lparr>tab := (tab st)(t := None)\<rparr>" t "[]" "desc_num d" "LWIP_MEM_ALIGN (desc_base d)" d] assms
  by (simp add: memp_init_pool_def pool_elems_def)

lemma memp_init_pool_other:
  assumes "mlist (mnext st) (tab st u) as" "u \<noteq> t" "set as \<inter> set (pool_elems d) = {}"
  shows "mlist (mnext (memp_init_pool d t st)) (tab (memp_init_pool d t st) u) as"
proof -
  have "mnext (memp_init_pool d t st) a = mnext st a" if "a \<in> set as" for a
  proof -
    have "a \<notin> set (pool_elems d)"
      using assms(3) that by blast
    then show ?thesis
      by (auto simp: memp_init_pool_def elem_form intro!: trans[OF memp_link_loop_frame(1)])
  qed
  then show ?thesis
    using assms(1,2) mlist_cong[of as "mnext (memp_init_pool d t st)" "mnext st"]
    by (simp add: memp_init_pool_def memp_link_loop_frame(2))
qed

lemma memp_init_lists:
  assumes "pools_ok pools" "distinct ts" "t \<in> set ts \<or> mlist (mnext st) (tab st t) (rev (pool_elems (pools t)))"
  shows "mlist (mnext (fold (\<lambda>t. memp_init_pool (pools t) t) ts st))
           (tab (fold (\<lambda>t. memp_init_pool (pools t) t) ts st) t) (rev (pool_elems (pools t)))"
  using assms
proof (induction ts arbitrary: st)
  case (Cons u ts)
  show ?case
  proof (cases "u = t")
    case True
    have "0 < desc_size (pools t)"
      using Cons.prems(1) by (auto simp: pools_ok_def dest: spec[of _ t])
    then show ?thesis
      using Cons True memp_init_pool_spec[of "pools t" t st] by simp
  next
    case False
    then have "set (pool_elems (pools t)) \<inter> set (pool_elems (pools u)) = {}"
      using Cons.prems(1) by (auto simp: pools_ok_def)
    then show ?thesis
      using Cons False memp_init_pool_other[of st t "rev (pool_elems (pools t))" u "pools u"] by auto
  qed
qed simp

lemma pool_elems_distinct: "0 < desc_size d \<Longrightarrow> distinct (pool_elems d)"
  by (auto simp: pool_elems_def distinct_map intro!: inj_onI)

lemma memp_init_rel:
  assumes "pools_ok pools"
  shows "pools_rel pools (memp_init pools st) (\<lambda>t. rev (pool_elems (pools t)))"
proof -
  have "t \<in> set memp_types" for t
    by (cases t) (simp_all add: memp_types_def)
  moreover have "distinct memp_types"
    by (simp add: memp_types_def)
  moreover have "0 < desc_size (pools t)" for t
    using assms by (auto simp: pools_ok_def dest: spec[of _ t])
  ultimately show ?thesis
    using memp_init_lists[OF assms, of memp_types _ st]
    by (auto simp: pools_rel_def memp_init_def assms pool_elems_distinct)
qed

lemma memp_exhausted:
  assumes "pools_rel pools st fl" "held_ok (pool_live pools t fl) held" "memp_malloc t st = Some (st', None)"
  shows "length held = desc_num (pools t)"
proof -
  have "fl t = []"
    using pools_relD(2)[OF assms(1), of t] assms(3)
    by (cases "fl t") (auto simp: memp_malloc_def Let_def split: if_splits)
  then have "set (map fst held) = set (pool_elems (pools t))"
    using assms(2) by (simp add: held_ok_def pool_live_def image_image)
  moreover have "distinct (map fst held)" "distinct (pool_elems (pools t))"
    using assms(2) pools_relD(1)[OF assms(1)] pool_elems_distinct[of "pools t"]
    by (auto simp: held_ok_def pools_ok_def intro!: pool_elems_distinct dest: spec[of _ t])
  ultimately have "length (map fst held) = length (pool_elems (pools t))"
    by (metis distinct_card)
  then show ?thesis
    by (simp add: pool_elems_def)
qed

lemma memp_run:
  assumes "pools_ok pools" "list_all (request_ok (pool_fits pools t)) rs"
  shows "\<exists>st' held fl. client_run (pool_alloc t) (pool_free t) rs (memp_init pools st) [] = Some (st', held) \<and>
     pools_rel pools st' fl \<and> held_ok (pool_live pools t fl) held"
  using memp.client_run_ok[OF memp_init_rel[OF assms(1), of st] _ assms(2), of "[]"]
  by (simp add: held_ok_def pool_live_def)

subsection \<open>Properties\<close>

text \<open>C23. A pool hands out every element at most once: after \<open>memp_init\<close>, whatever sequence of
  allocations and frees of its own elements a client sends, no assertion fires, the elements it
  holds are aligned elements of that pool and do not overlap, and \<open>memp_malloc\<close> fails only when
  all \<open>num\<close> elements are held.\<close>

theorem memp_client_safe:
  assumes "pools_ok pools" "list_all (request_ok (pool_fits pools t)) rs"
  shows "\<exists>st' held. client_run (pool_alloc t) (pool_free t) rs (memp_init pools st) [] = Some (st', held) \<and>
     fst ` set held \<subseteq> set (pool_elems (pools t)) \<and> (\<forall>(p, n) \<in> set held. p mod 8 = 0) \<and>
     (\<forall>i < length held. \<forall>j < length held. i \<noteq> j \<longrightarrow> apart (held ! i) (held ! j)) \<and>
     (\<forall>st''. memp_malloc t st' = Some (st'', None) \<longrightarrow> length held = desc_num (pools t))"
proof -
  obtain st' held fl where run: "client_run (pool_alloc t) (pool_free t) rs (memp_init pools st) [] = Some (st', held)"
    and r: "pools_rel pools st' fl" and ok: "held_ok (pool_live pools t fl) held"
    using memp_run[OF assms] by blast
  have el: "fst ` set held \<subseteq> set (pool_elems (pools t))"
    using ok by (auto simp: held_ok_def pool_live_def)
  show ?thesis
  proof (intro exI conjI allI impI)
    show "client_run (pool_alloc t) (pool_free t) rs (memp_init pools st) [] = Some (st', held)"
      by (rule run)
    show "fst ` set held \<subseteq> set (pool_elems (pools t))"
      by (rule el)
    show "\<forall>(p, n) \<in> set held. p mod 8 = 0"
      using el elem_aligned[OF assms(1), of _ t] by force
    show "length held = desc_num (pools t)" if "memp_malloc t st' = Some (st'', None)" for st''
      by (rule memp_exhausted[OF r ok that])
  qed (rule memp.held_apart[OF r ok])
qed

definition two_pools :: "memp_t \<Rightarrow> memp_desc" where
  "two_pools t = \<lparr>desc_size = 16, desc_num = (if t = MEMP_TCP_SEG then 2 else 0), desc_base = 1001\<rparr>"

theorem memp_client_safe_witness:
  "\<exists>st' held. client_run (pool_alloc MEMP_TCP_SEG) (pool_free MEMP_TCP_SEG) [Malloc 8, Malloc 16, Free 1]
      (memp_init two_pools \<lparr>mnext = (\<lambda>_. None), tab = (\<lambda>_. None)\<rparr>) [] = Some (st', held) \<and>
     fst ` set held \<subseteq> set (pool_elems (two_pools MEMP_TCP_SEG))"
proof -
  have "pools_ok two_pools"
    by (auto simp: pools_ok_def two_pools_def pool_elems_def)
  moreover have "list_all (request_ok (pool_fits two_pools MEMP_TCP_SEG)) [Malloc 8, Malloc 16, Free 1]"
    by (simp add: pool_fits_def two_pools_def)
  ultimately show ?thesis
    using memp_client_safe[of two_pools MEMP_TCP_SEG "[Malloc 8, Malloc 16, Free 1]"] by blast
qed

end
