(* ===== verification/Lwip_Pbuf.thy ===== *)
theory Lwip_Pbuf
  imports Lwip_Prelude Lwip_Memp
begin

section \<open>Packet buffers (pbuf.c)\<close>

text \<open>
  Packets as chains of reference-counted buffers. The state is a store of \<open>struct pbuf\<close>s by
  address, the bytes of memory, the heap and the pools they come from; addresses count from the
  start of the heap region and 0 is NULL. A dereference of an address that holds no
  \<open>struct pbuf\<close> (never allocated, or freed), a failed assertion and a loop that does not end are
  all \<open>None\<close>. \<open>LWIP_ERROR\<close> only prints, so its handler is a branch. Assumed of the configuration:
  \<open>LWIP_SUPPORT_CUSTOM_PBUF\<close> is 1 (\<open>IP_FRAG\<close> without \<open>LWIP_NETIF_TX_SINGLE_PBUF\<close>), the reference
  count is a \<open>u8_t\<close>, \<open>LWIP_CHECKSUM_ON_COPY\<close> is 0 and \<open>sizeof(struct pbuf)\<close> is 24.
\<close>

subsection \<open>State\<close>

record pbuf =
  pnext :: "nat option"
  payload :: nat
  tot_len :: u16
  len :: u16
  type_internal :: u8
  pflags :: u8
  ref :: u8
  if_idx :: u8

datatype pbuf_layer = PBUF_TRANSPORT | PBUF_IP | PBUF_LINK | PBUF_RAW_TX | PBUF_RAW

fun layer_offset :: "pbuf_layer \<Rightarrow> nat" where
  "layer_offset PBUF_TRANSPORT = 54"
| "layer_offset PBUF_IP = 34"
| "layer_offset PBUF_LINK = 14"
| "layer_offset PBUF_RAW_TX = 0"
| "layer_offset PBUF_RAW = 0"

datatype pbuf_type = PBUF_RAM | PBUF_ROM | PBUF_REF | PBUF_POOL

definition PBUF_TYPE_FLAG_STRUCT_DATA_CONTIGUOUS :: u16 where "PBUF_TYPE_FLAG_STRUCT_DATA_CONTIGUOUS = 0x80"
definition PBUF_TYPE_FLAG_DATA_VOLATILE :: u16 where "PBUF_TYPE_FLAG_DATA_VOLATILE = 0x40"
definition PBUF_ALLOC_FLAG_RX :: u16 where "PBUF_ALLOC_FLAG_RX = 0x0100"
definition PBUF_ALLOC_FLAG_DATA_CONTIGUOUS :: u16 where "PBUF_ALLOC_FLAG_DATA_CONTIGUOUS = 0x0200"

fun pbuf_type_code :: "pbuf_type \<Rightarrow> u16" where
  "pbuf_type_code PBUF_RAM = PBUF_ALLOC_FLAG_DATA_CONTIGUOUS OR PBUF_TYPE_FLAG_STRUCT_DATA_CONTIGUOUS"
| "pbuf_type_code PBUF_ROM = 0x01"
| "pbuf_type_code PBUF_REF = PBUF_TYPE_FLAG_DATA_VOLATILE OR 0x01"
| "pbuf_type_code PBUF_POOL = PBUF_ALLOC_FLAG_RX OR PBUF_TYPE_FLAG_STRUCT_DATA_CONTIGUOUS OR 0x02"

definition PBUF_FLAG_IS_CUSTOM :: u8 where "PBUF_FLAG_IS_CUSTOM = 0x02"
definition PBUF_FLAG_TCP_FIN :: u8 where "PBUF_FLAG_TCP_FIN = 0x20"

text \<open>\<open>custom_freed\<close> records the calls of \<open>custom_free_function\<close>, which belongs to the pbuf's owner.\<close>

record pst =
  pbufs :: "nat \<Rightarrow> pbuf option"
  bytes :: "nat \<Rightarrow> u8"
  pheap :: heap
  pmemp :: memps
  pbuf_free_ooseq_pending :: bool
  custom_freed :: "nat list"

definition SIZEOF_STRUCT_PBUF :: nat where "SIZEOF_STRUCT_PBUF = LWIP_MEM_ALIGN_SIZE 24"
definition PBUF_POOL_BUFSIZE_ALIGNED :: nat where "PBUF_POOL_BUFSIZE_ALIGNED = LWIP_MEM_ALIGN_SIZE 1500"

abbreviation upd_pbuf :: "nat \<Rightarrow> (pbuf \<Rightarrow> pbuf) \<Rightarrow> pst \<Rightarrow> pst" where
  "upd_pbuf a f st \<equiv> st\<lparr>pbufs := (pbufs st)(a := map_option f (pbufs st a))\<rparr>"

definition rd :: "pst \<Rightarrow> nat \<Rightarrow> nat \<Rightarrow> u8 list" where
  "rd st a n = map (bytes st) [a..<a + n]"

definition MEMCPY :: "nat \<Rightarrow> u8 list \<Rightarrow> pst \<Rightarrow> pst" where
  "MEMCPY a bs st = st\<lparr>bytes := (\<lambda>x. if a \<le> x \<and> x < a + length bs then bs ! (x - a) else bytes st x)\<rparr>"

definition pbuf_get_allocsrc :: "pbuf \<Rightarrow> u8" where
  "pbuf_get_allocsrc b = type_internal b AND 0x0F"

subsection \<open>Allocation\<close>

definition pbuf_init_alloced_pbuf :: "nat \<Rightarrow> nat \<Rightarrow> u16 \<Rightarrow> u16 \<Rightarrow> pbuf_type \<Rightarrow> u8 \<Rightarrow> pst \<Rightarrow> pst" where
  "pbuf_init_alloced_pbuf p pl tlen l t fl st =
     st\<lparr>pbufs := (pbufs st)(p \<mapsto> \<lparr>pnext = None, payload = pl, tot_len = tlen, len = l,
         type_internal = ucast (pbuf_type_code t), pflags = fl, ref = 1, if_idx = 0\<rparr>)\<rparr>"

definition pbuf_pool_is_empty :: "pst \<Rightarrow> pst" where
  "pbuf_pool_is_empty st = st\<lparr>pbuf_free_ooseq_pending := True\<rparr>"

definition pbuf_release :: "nat \<Rightarrow> nat \<Rightarrow> pbuf \<Rightarrow> pst \<Rightarrow> pst option" where
  "pbuf_release M p b st =
     (let st1 = st\<lparr>pbufs := (pbufs st)(p := None)\<rparr>
      in if pflags b AND PBUF_FLAG_IS_CUSTOM \<noteq> 0 then Some (st1\<lparr>custom_freed := p # custom_freed st\<rparr>)
         else if pbuf_get_allocsrc b = 0x02
         then map_option (\<lambda>mp. st1\<lparr>pmemp := mp\<rparr>) (memp_free MEMP_PBUF_POOL (Some p) (pmemp st))
         else if pbuf_get_allocsrc b = 0x01
         then map_option (\<lambda>mp. st1\<lparr>pmemp := mp\<rparr>) (memp_free MEMP_PBUF (Some p) (pmemp st))
         else if pbuf_get_allocsrc b = 0x00
         then map_option (\<lambda>h. st1\<lparr>pheap := h\<rparr>) (mem_free M (Some (int p)) (pheap st))
         else None)"

partial_function (option) pbuf_free_loop :: "nat \<Rightarrow> nat option \<Rightarrow> u8 \<Rightarrow> pst \<Rightarrow> (pst \<times> u8) option" where
  [code]: "pbuf_free_loop M p count st =
     (case p of
        None \<Rightarrow> Some (st, count)
      | Some a \<Rightarrow>
          do {
            b \<leftarrow> pbufs st a;
            if ref b = 0 then None
            else
              let r = ref b - 1;
                  st = upd_pbuf a (\<lambda>b. b\<lparr>ref := r\<rparr>) st
              in if r = 0
                 then do { st \<leftarrow> pbuf_release M a b st; pbuf_free_loop M (pnext b) (count + 1) st }
                 else Some (st, count)
          })"

definition pbuf_free :: "nat \<Rightarrow> nat option \<Rightarrow> pst \<Rightarrow> (pst \<times> u8) option" where
  "pbuf_free M p st = (if p = None then None else pbuf_free_loop M p 0 st)"

definition pbuf_alloc_reference :: "nat \<Rightarrow> u16 \<Rightarrow> pbuf_type \<Rightarrow> pst \<Rightarrow> (pst \<times> nat option) option" where
  "pbuf_alloc_reference pl plen t st =
     (if t \<noteq> PBUF_REF \<and> t \<noteq> PBUF_ROM then None
      else
        do {
          (mp, q) \<leftarrow> memp_malloc MEMP_PBUF (pmemp st);
          let st = st\<lparr>pmemp := mp\<rparr>;
          case q of
            None \<Rightarrow> Some (st, None)
          | Some p \<Rightarrow> Some (pbuf_init_alloced_pbuf p pl plen plen t 0 st, Some p)
        })"

partial_function (option) pbuf_alloc_pool_loop ::
    "nat \<Rightarrow> nat option \<Rightarrow> nat option \<Rightarrow> u16 \<Rightarrow> nat \<Rightarrow> pst \<Rightarrow> (pst \<times> nat option) option" where
  [code]: "pbuf_alloc_pool_loop M p lastq rem_len offset st =
     do {
       (mp, q) \<leftarrow> memp_malloc MEMP_PBUF_POOL (pmemp st);
       let st = st\<lparr>pmemp := mp\<rparr>;
       case q of
         None \<Rightarrow>
           let st = pbuf_pool_is_empty st
           in if p = None then Some (st, None) else map_option (\<lambda>(st, _). (st, None)) (pbuf_free M p st)
       | Some a \<Rightarrow>
           let qlen = min rem_len (of_nat (PBUF_POOL_BUFSIZE_ALIGNED - LWIP_MEM_ALIGN_SIZE offset));
               pl = LWIP_MEM_ALIGN (a + SIZEOF_STRUCT_PBUF + offset);
               st = pbuf_init_alloced_pbuf a pl rem_len qlen PBUF_POOL 0 st
           in if pl mod MEM_ALIGNMENT \<noteq> 0 \<or> PBUF_POOL_BUFSIZE_ALIGNED - LWIP_MEM_ALIGN_SIZE offset = 0 then None
              else
                let st = (case (p, lastq) of (Some _, Some l) \<Rightarrow> upd_pbuf l (\<lambda>b. b\<lparr>pnext := Some a\<rparr>) st | _ \<Rightarrow> st);
                    p = (if p = None then Some a else p)
                in if rem_len - qlen > 0 then pbuf_alloc_pool_loop M p (Some a) (rem_len - qlen) 0 st
                   else Some (st, p)
     }"

definition pbuf_alloc :: "nat \<Rightarrow> pbuf_layer \<Rightarrow> u16 \<Rightarrow> pbuf_type \<Rightarrow> pst \<Rightarrow> (pst \<times> nat option) option" where
  "pbuf_alloc M layer plen t st =
     (let offset = layer_offset layer
      in case t of
           PBUF_REF \<Rightarrow> pbuf_alloc_reference 0 plen t st
         | PBUF_ROM \<Rightarrow> pbuf_alloc_reference 0 plen t st
         | PBUF_POOL \<Rightarrow> pbuf_alloc_pool_loop M None None plen offset st
         | PBUF_RAM \<Rightarrow>
             let payload_len = (LWIP_MEM_ALIGN_SIZE offset + LWIP_MEM_ALIGN_SIZE (unat plen)) mod 2 ^ 32;
                 alloc_len = (LWIP_MEM_ALIGN_SIZE SIZEOF_STRUCT_PBUF + payload_len) mod 2 ^ 32
             in if payload_len < LWIP_MEM_ALIGN_SIZE (unat plen) \<or> alloc_len < LWIP_MEM_ALIGN_SIZE (unat plen)
                then Some (st, None)
                else
                  do {
                    (h, r) \<leftarrow> mem_malloc M alloc_len (pheap st);
                    let st = st\<lparr>pheap := h\<rparr>;
                    case r of
                      None \<Rightarrow> Some (st, None)
                    | Some r \<Rightarrow>
                        let p = nat r;
                            pl = LWIP_MEM_ALIGN (p + SIZEOF_STRUCT_PBUF + offset)
                        in if pl mod MEM_ALIGNMENT \<noteq> 0 then None
                           else Some (pbuf_init_alloced_pbuf p pl plen plen t 0 st, Some p)
                  })"

definition pbuf_alloced_custom ::
    "pbuf_layer \<Rightarrow> u16 \<Rightarrow> pbuf_type \<Rightarrow> nat \<Rightarrow> nat \<Rightarrow> u16 \<Rightarrow> pst \<Rightarrow> pst \<times> nat option" where
  "pbuf_alloced_custom l plen t p payload_mem payload_mem_len st =
     (let offset = layer_offset l
      in if LWIP_MEM_ALIGN_SIZE offset + unat plen > unat payload_mem_len then (st, None)
         else
           let pl = (if payload_mem \<noteq> 0 then payload_mem + LWIP_MEM_ALIGN_SIZE offset else 0)
           in (pbuf_init_alloced_pbuf p pl plen plen t PBUF_FLAG_IS_CUSTOM st, Some p))"

subsection \<open>Shrinking, headers\<close>

partial_function (option) pbuf_realloc_loop :: "u16 \<Rightarrow> nat \<Rightarrow> u16 \<Rightarrow> pst \<Rightarrow> (pst \<times> nat \<times> u16) option" where
  [code]: "pbuf_realloc_loop shrink q rem_len st =
     do {
       b \<leftarrow> pbufs st q;
       if rem_len > len b
       then
         let st = upd_pbuf q (\<lambda>b. b\<lparr>tot_len := tot_len b - shrink\<rparr>) st
         in case pnext b of
              None \<Rightarrow> None
            | Some q' \<Rightarrow> pbuf_realloc_loop shrink q' (rem_len - len b) st
       else Some (st, q, rem_len)
     }"

definition pbuf_realloc :: "nat \<Rightarrow> nat \<Rightarrow> u16 \<Rightarrow> pst \<Rightarrow> pst option" where
  "pbuf_realloc M p new_len st =
     do {
       b \<leftarrow> pbufs st p;
       if new_len \<ge> tot_len b then Some st
       else
         do {
           let shrink = tot_len b - new_len;
           (st, q, rem_len) \<leftarrow> pbuf_realloc_loop shrink p new_len st;
           b \<leftarrow> pbufs st q;
           st \<leftarrow> (if pbuf_get_allocsrc b = 0 \<and> rem_len \<noteq> len b \<and> pflags b AND PBUF_FLAG_IS_CUSTOM = 0
                 then
                   do {
                     (h, r) \<leftarrow> mem_trim M (int q) (nat ((int (payload b) - int q + int (unat rem_len)) mod 2 ^ 32)) (pheap st);
                     if r = Some (int q) then Some (st\<lparr>pheap := h\<rparr>) else None
                   }
                 else Some st);
           let st = upd_pbuf q (\<lambda>b. b\<lparr>len := rem_len, tot_len := rem_len\<rparr>) st;
           st \<leftarrow> (if pnext b = None then Some st else map_option fst (pbuf_free M (pnext b) st));
           Some (upd_pbuf q (\<lambda>b. b\<lparr>pnext := None\<rparr>) st)
         }
     }"

text \<open>The \<open>bool\<close> is the result: whether it failed. Sizes are \<open>size_t\<close>.\<close>

definition pbuf_add_header_impl :: "nat option \<Rightarrow> nat \<Rightarrow> bool \<Rightarrow> pst \<Rightarrow> (pst \<times> bool) option" where
  "pbuf_add_header_impl p header_size_increment force st =
     (case p of
        None \<Rightarrow> None
      | Some a \<Rightarrow>
          if header_size_increment > 0xFFFF then Some (st, True)
          else if header_size_increment = 0 then Some (st, False)
          else
            do {
              b \<leftarrow> pbufs st a;
              let increment_magnitude = of_nat header_size_increment;
              if increment_magnitude + tot_len b < increment_magnitude then Some (st, True)
              else
                let set = (\<lambda>pl. Some (upd_pbuf a (\<lambda>b. b\<lparr>payload := pl,
                            len := len b + increment_magnitude, tot_len := tot_len b + increment_magnitude\<rparr>) st, False))
                in if ucast (type_internal b) AND PBUF_TYPE_FLAG_STRUCT_DATA_CONTIGUOUS \<noteq> 0
                   then
                     if int (payload b) - int header_size_increment < int (a + SIZEOF_STRUCT_PBUF) then Some (st, True)
                     else set (payload b - header_size_increment)
                   else if force then set ((payload b + 2 ^ 64 - header_size_increment) mod 2 ^ 64)
                   else Some (st, True)
            })"

definition pbuf_add_header :: "nat option \<Rightarrow> nat \<Rightarrow> pst \<Rightarrow> (pst \<times> bool) option" where
  "pbuf_add_header p header_size_increment st = pbuf_add_header_impl p header_size_increment False st"

definition pbuf_add_header_force :: "nat option \<Rightarrow> nat \<Rightarrow> pst \<Rightarrow> (pst \<times> bool) option" where
  "pbuf_add_header_force p header_size_increment st = pbuf_add_header_impl p header_size_increment True st"

definition pbuf_remove_header :: "nat option \<Rightarrow> nat \<Rightarrow> pst \<Rightarrow> (pst \<times> bool) option" where
  "pbuf_remove_header p header_size_decrement st =
     (case p of
        None \<Rightarrow> None
      | Some a \<Rightarrow>
          if header_size_decrement > 0xFFFF then Some (st, True)
          else if header_size_decrement = 0 then Some (st, False)
          else
            do {
              b \<leftarrow> pbufs st a;
              let increment_magnitude = of_nat header_size_decrement;
              if \<not> increment_magnitude \<le> len b then Some (st, True)
              else Some (upd_pbuf a (\<lambda>b. b\<lparr>payload := payload b + header_size_decrement,
                      len := len b - increment_magnitude, tot_len := tot_len b - increment_magnitude\<rparr>) st, False)
            })"

definition pbuf_header_impl :: "nat option \<Rightarrow> int \<Rightarrow> bool \<Rightarrow> pst \<Rightarrow> (pst \<times> bool) option" where
  "pbuf_header_impl p header_size_increment force st =
     (if header_size_increment < 0 then pbuf_remove_header p (nat (- header_size_increment)) st
      else pbuf_add_header_impl p (nat header_size_increment) force st)"

definition pbuf_header :: "nat option \<Rightarrow> int \<Rightarrow> pst \<Rightarrow> (pst \<times> bool) option" where
  "pbuf_header p header_size_increment st = pbuf_header_impl p header_size_increment False st"

definition pbuf_header_force :: "nat option \<Rightarrow> int \<Rightarrow> pst \<Rightarrow> (pst \<times> bool) option" where
  "pbuf_header_force p header_size_increment st = pbuf_header_impl p header_size_increment True st"

partial_function (option) pbuf_free_header_loop :: "nat \<Rightarrow> u16 \<Rightarrow> nat option \<Rightarrow> pst \<Rightarrow> (pst \<times> nat option) option" where
  [code]: "pbuf_free_header_loop M free_left p st =
     (case p of
        None \<Rightarrow> Some (st, None)
      | Some a \<Rightarrow>
          if free_left = 0 then Some (st, p)
          else
            do {
              b \<leftarrow> pbufs st a;
              if free_left \<ge> len b
              then
                do {
                  let st = upd_pbuf a (\<lambda>b. b\<lparr>pnext := None\<rparr>) st;
                  (st, _) \<leftarrow> pbuf_free M p st;
                  pbuf_free_header_loop M (free_left - len b) (pnext b) st
                }
              else map_option (\<lambda>(st, _). (st, p)) (pbuf_remove_header p (unat free_left) st)
            })"

definition pbuf_free_header :: "nat \<Rightarrow> nat option \<Rightarrow> u16 \<Rightarrow> pst \<Rightarrow> (pst \<times> nat option) option" where
  "pbuf_free_header M q sz st = pbuf_free_header_loop M sz q st"

subsection \<open>Chains\<close>

partial_function (option) pbuf_clen_loop :: "nat option \<Rightarrow> u16 \<Rightarrow> pst \<Rightarrow> u16 option" where
  [code]: "pbuf_clen_loop p n st =
     (case p of None \<Rightarrow> Some n | Some a \<Rightarrow> do { b \<leftarrow> pbufs st a; pbuf_clen_loop (pnext b) (n + 1) st })"

definition pbuf_clen :: "nat option \<Rightarrow> pst \<Rightarrow> u16 option" where
  "pbuf_clen p st = pbuf_clen_loop p 0 st"

definition pbuf_ref :: "nat option \<Rightarrow> pst \<Rightarrow> pst option" where
  "pbuf_ref p st =
     (case p of
        None \<Rightarrow> Some st
      | Some a \<Rightarrow>
          do {
            b \<leftarrow> pbufs st a;
            if ref b + 1 = 0 then None else Some (upd_pbuf a (\<lambda>b. b\<lparr>ref := ref b + 1\<rparr>) st)
          })"

partial_function (option) pbuf_cat_loop :: "nat \<Rightarrow> nat \<Rightarrow> pst \<Rightarrow> pst option" where
  [code]: "pbuf_cat_loop t p st =
     do {
       b \<leftarrow> pbufs st p;
       c \<leftarrow> pbufs st t;
       case pnext b of
         Some q \<Rightarrow> pbuf_cat_loop t q (upd_pbuf p (\<lambda>b. b\<lparr>tot_len := tot_len b + tot_len c\<rparr>) st)
       | None \<Rightarrow>
           if tot_len b \<noteq> len b then None
           else Some (upd_pbuf p (\<lambda>b. b\<lparr>tot_len := tot_len b + tot_len c, pnext := Some t\<rparr>) st)
     }"

definition pbuf_cat :: "nat option \<Rightarrow> nat option \<Rightarrow> pst \<Rightarrow> pst option" where
  "pbuf_cat h t st =
     (case (h, t) of
        (Some h, Some t) \<Rightarrow>
          if h = t then None else pbuf_cat_loop t h st
      | _ \<Rightarrow> Some st)"

definition pbuf_chain :: "nat option \<Rightarrow> nat option \<Rightarrow> pst \<Rightarrow> pst option" where
  "pbuf_chain h t st = do { st \<leftarrow> pbuf_cat h t st; pbuf_ref t st }"

definition pbuf_dechain :: "nat \<Rightarrow> nat \<Rightarrow> pst \<Rightarrow> (pst \<times> nat option) option" where
  "pbuf_dechain M p st =
     do {
       b \<leftarrow> pbufs st p;
       (st, tail_gone) \<leftarrow>
         (case pnext b of
            None \<Rightarrow> Some (st, 1)
          | Some q \<Rightarrow>
              do {
                c \<leftarrow> pbufs st q;
                if int (unat (tot_len c)) \<noteq> int (unat (tot_len b)) - int (unat (len b)) then None
                else
                  let st = upd_pbuf q (\<lambda>c. c\<lparr>tot_len := tot_len b - len b\<rparr>) st;
                      st = upd_pbuf p (\<lambda>b. b\<lparr>pnext := None, tot_len := len b\<rparr>) st
                  in pbuf_free M (Some q) st
              });
       b' \<leftarrow> pbufs st p;
       if tot_len b' \<noteq> len b' then None
       else Some (st, if tail_gone > 0 then None else pnext b)
     }"

subsection \<open>Reading and writing across a chain\<close>

partial_function (option) pbuf_skip_const :: "nat option \<Rightarrow> u16 \<Rightarrow> pst \<Rightarrow> (nat option \<times> u16) option" where
  [code]: "pbuf_skip_const q offset_left st =
     (case q of
        None \<Rightarrow> Some (None, offset_left)
      | Some a \<Rightarrow>
          do {
            b \<leftarrow> pbufs st a;
            if len b \<le> offset_left then pbuf_skip_const (pnext b) (offset_left - len b) st
            else Some (q, offset_left)
          })"

definition pbuf_skip :: "nat option \<Rightarrow> u16 \<Rightarrow> pst \<Rightarrow> (nat option \<times> u16) option" where
  "pbuf_skip q in_offset st = pbuf_skip_const q in_offset st"

text \<open>The bytes copied to \<open>dataptr\<close>; their number is the result.\<close>

partial_function (option) copy_partial_loop :: "nat option \<Rightarrow> u16 \<Rightarrow> u16 \<Rightarrow> pst \<Rightarrow> u8 list option" where
  [code]: "copy_partial_loop p n offset st =
     (case p of
        None \<Rightarrow> Some []
      | Some a \<Rightarrow>
          if n = 0 then Some []
          else
            do {
              b \<leftarrow> pbufs st a;
              if offset \<noteq> 0 \<and> offset \<ge> len b then copy_partial_loop (pnext b) n (offset - len b) st
              else
                do {
                  let buf_copy_len = min (len b - offset) n;
                  rest \<leftarrow> copy_partial_loop (pnext b) (n - buf_copy_len) 0 st;
                  Some (rd st (payload b + unat offset) (unat buf_copy_len) @ rest)
                }
            })"

definition pbuf_copy_partial :: "nat option \<Rightarrow> u16 \<Rightarrow> u16 \<Rightarrow> pst \<Rightarrow> (u8 list \<times> u16) option" where
  "pbuf_copy_partial buf n offset st =
     map_option (\<lambda>bs. (bs, of_nat (length bs))) (copy_partial_loop buf n offset st)"

text \<open>The result is NULL, a pointer into the chain, or the caller's buffer filled with bytes.\<close>

datatype contiguous = NoData | InPlace nat | Copied "u8 list"

definition pbuf_get_contiguous :: "nat option \<Rightarrow> nat option \<Rightarrow> u16 \<Rightarrow> u16 \<Rightarrow> pst \<Rightarrow> contiguous option" where
  "pbuf_get_contiguous p buffer n offset st =
     (if p = None then Some NoData
      else if (case buffer of None \<Rightarrow> False | Some bufsize \<Rightarrow> \<not> bufsize \<ge> unat n) then Some NoData
      else
        do {
          (q, out_offset) \<leftarrow> pbuf_skip_const p offset st;
          case q of
            None \<Rightarrow> Some NoData
          | Some a \<Rightarrow>
              do {
                b \<leftarrow> pbufs st a;
                if unat (len b) \<ge> unat out_offset + unat n then Some (InPlace (payload b + unat out_offset))
                else if buffer = None then Some NoData
                else
                  do {
                    (bs, copied) \<leftarrow> pbuf_copy_partial q n out_offset st;
                    if copied \<noteq> n then Some NoData else Some (Copied bs)
                  }
              }
        })"

partial_function (option) pbuf_take_loop :: "nat option \<Rightarrow> u8 list \<Rightarrow> pst \<Rightarrow> pst option" where
  [code]: "pbuf_take_loop p dataptr st =
     (if dataptr = [] then Some st
      else
        case p of
          None \<Rightarrow> None
        | Some a \<Rightarrow>
            do {
              b \<leftarrow> pbufs st a;
              let buf_copy_len = min (length dataptr) (unat (len b));
              pbuf_take_loop (pnext b) (drop buf_copy_len dataptr)
                (MEMCPY (payload b) (take buf_copy_len dataptr) st)
            })"

text \<open>The data to take is a list of fewer than \<open>2 ^ 16\<close> bytes, \<open>None\<close> for a NULL pointer.\<close>

definition pbuf_take :: "nat option \<Rightarrow> u8 list option \<Rightarrow> pst \<Rightarrow> (pst \<times> err_t) option" where
  "pbuf_take buf dataptr st =
     (case (buf, dataptr) of
        (Some a, Some bs) \<Rightarrow>
          do {
            b \<leftarrow> pbufs st a;
            if \<not> unat (tot_len b) \<ge> length bs then Some (st, ERR_MEM)
            else map_option (\<lambda>st. (st, ERR_OK)) (pbuf_take_loop buf bs st)
          }
      | _ \<Rightarrow> Some (st, ERR_ARG))"

definition pbuf_take_at :: "nat option \<Rightarrow> u8 list \<Rightarrow> u16 \<Rightarrow> pst \<Rightarrow> (pst \<times> err_t) option" where
  "pbuf_take_at buf dataptr offset st =
     do {
       (q, target_offset) \<leftarrow> pbuf_skip buf offset st;
       case q of
         None \<Rightarrow> Some (st, ERR_MEM)
       | Some a \<Rightarrow>
           do {
             b \<leftarrow> pbufs st a;
             if \<not> unat (tot_len b) \<ge> unat target_offset + length dataptr then Some (st, ERR_MEM)
             else if \<not> target_offset < len b then None
             else
               let first_copy_len = min (unat (len b) - unat target_offset) (length dataptr);
                   st = MEMCPY (payload b + unat target_offset) (take first_copy_len dataptr) st
               in if length dataptr - first_copy_len > 0
                  then pbuf_take (pnext b) (Some (drop first_copy_len dataptr)) st
                  else Some (st, ERR_OK)
           }
     }"

text \<open>A chain whose \<open>len\<close> equals its \<open>tot_len\<close> must end there: packet queues are refused.\<close>

definition packet_queue :: "nat option \<Rightarrow> pst \<Rightarrow> bool option" where
  "packet_queue p st =
     (case p of
        None \<Rightarrow> Some False
      | Some a \<Rightarrow> map_option (\<lambda>b. len b = tot_len b \<and> pnext b \<noteq> None) (pbufs st a))"

partial_function (option) copy_pbuf_loop ::
    "nat \<Rightarrow> nat \<Rightarrow> nat \<Rightarrow> nat \<Rightarrow> nat \<Rightarrow> pst \<Rightarrow> (pst \<times> err_t) option" where
  [code]: "copy_pbuf_loop p_to offset_to p_from offset_from copy_len st =
     do {
       t \<leftarrow> pbufs st p_to;
       f \<leftarrow> pbufs st p_from;
       let lt = sub64 (unat (len t)) offset_to;
       let lf = sub64 (unat (len f)) offset_from;
       let n = min copy_len (if lt \<ge> lf then lf else lt);
       let st = MEMCPY (payload t + offset_to) (rd st (payload f + offset_from) n) st;
       let offset_to = offset_to + n;
       let offset_from = offset_from + n;
       let copy_len = copy_len - n;
       if \<not> offset_to \<le> unat (len t) \<or> \<not> offset_from \<le> unat (len f) then None
       else
         let (from', offset_from) = (if offset_from \<ge> unat (len f) then (pnext f, 0) else (Some p_from, offset_from))
         in if from' = None \<and> copy_len \<noteq> 0 then Some (st, ERR_ARG)
            else
              let (to', offset_to) = (if offset_to = unat (len t) then (pnext t, 0) else (Some p_to, offset_to))
              in if to' = None \<and> copy_len \<noteq> 0 then Some (st, ERR_ARG)
                 else
                   do {
                     qf \<leftarrow> packet_queue from' st;
                     qt \<leftarrow> packet_queue to' st;
                     if qf \<or> qt then Some (st, ERR_VAL)
                     else if copy_len = 0 then Some (st, ERR_OK)
                     else
                       case (to', from') of
                         (Some t, Some f) \<Rightarrow> copy_pbuf_loop t offset_to f offset_from copy_len st
                       | _ \<Rightarrow> None
                   }
     }"

definition pbuf_copy_partial_pbuf :: "nat option \<Rightarrow> nat option \<Rightarrow> u16 \<Rightarrow> u16 \<Rightarrow> pst \<Rightarrow> (pst \<times> err_t) option" where
  "pbuf_copy_partial_pbuf p_to p_from copy_len offset st =
     (case p_from of
        None \<Rightarrow> Some (st, ERR_ARG)
      | Some f \<Rightarrow>
          do {
            fb \<leftarrow> pbufs st f;
            if \<not> tot_len fb \<ge> copy_len then Some (st, ERR_ARG)
            else
              case p_to of
                None \<Rightarrow> Some (st, ERR_ARG)
              | Some t \<Rightarrow>
                  do {
                    tb \<leftarrow> pbufs st t;
                    if \<not> unat (tot_len tb) \<ge> unat offset + unat copy_len then Some (st, ERR_ARG)
                    else copy_pbuf_loop t (unat offset) f 0 (unat copy_len) st
                  }
          })"

definition pbuf_copy :: "nat option \<Rightarrow> nat option \<Rightarrow> pst \<Rightarrow> (pst \<times> err_t) option" where
  "pbuf_copy p_to p_from st =
     (case p_from of
        None \<Rightarrow> Some (st, ERR_ARG)
      | Some f \<Rightarrow> do { b \<leftarrow> pbufs st f; pbuf_copy_partial_pbuf p_to p_from (tot_len b) 0 st })"

text \<open>\<open>LWIP_WND_SCALE\<close> only: cut a chain before its length, summed up in 16 bits, overflows.\<close>

partial_function (option) split_scan :: "u16 \<Rightarrow> nat \<Rightarrow> nat option \<Rightarrow> pst \<Rightarrow> (nat \<times> nat option) option" where
  [code]: "split_scan tot_len_front i r st =
     (case r of
        None \<Rightarrow> Some (i, None)
      | Some a \<Rightarrow>
          do {
            b \<leftarrow> pbufs st a;
            if tot_len_front + len b \<ge> tot_len_front then split_scan (tot_len_front + len b) a (pnext b) st
            else Some (i, r)
          })"

partial_function (option) split_adjust :: "nat \<Rightarrow> nat option \<Rightarrow> pst \<Rightarrow> pst option" where
  [code]: "split_adjust r i st =
     (case i of
        None \<Rightarrow> Some st
      | Some a \<Rightarrow>
          do {
            c \<leftarrow> pbufs st r;
            b \<leftarrow> pbufs st a;
            let st = upd_pbuf a (\<lambda>b. b\<lparr>tot_len := tot_len b - tot_len c\<rparr>) st;
            if pnext b \<noteq> None \<or> tot_len b - tot_len c = len b then split_adjust r (pnext b) st else None
          })"

definition pbuf_split_64k :: "nat option \<Rightarrow> pst \<Rightarrow> (pst \<times> nat option) option" where
  "pbuf_split_64k p st =
     (case p of
        None \<Rightarrow> Some (st, None)
      | Some a \<Rightarrow>
          do {
            b \<leftarrow> pbufs st a;
            if pnext b = None then Some (st, None)
            else
              do {
                (i, r) \<leftarrow> split_scan (len b) a (pnext b) st;
                let st = upd_pbuf i (\<lambda>b. b\<lparr>pnext := None\<rparr>) st;
                case r of
                  None \<Rightarrow> Some (st, None)
                | Some rr \<Rightarrow>
                    do {
                      st \<leftarrow> split_adjust rr p st;
                      let st = (if pflags b AND PBUF_FLAG_TCP_FIN \<noteq> 0
                                then upd_pbuf rr (\<lambda>c. c\<lparr>pflags := pflags c OR PBUF_FLAG_TCP_FIN\<rparr>) st else st);
                      Some (st, r)
                    }
              }
          })"

definition pbuf_clone :: "nat \<Rightarrow> pbuf_layer \<Rightarrow> pbuf_type \<Rightarrow> nat \<Rightarrow> pst \<Rightarrow> (pst \<times> nat option) option" where
  "pbuf_clone M layer t p st =
     do {
       b \<leftarrow> pbufs st p;
       (st, q) \<leftarrow> pbuf_alloc M layer (tot_len b) t st;
       if q = None then Some (st, None)
       else
         do {
           (st, e) \<leftarrow> pbuf_copy q (Some p) st;
           if e \<noteq> ERR_OK then None else Some (st, q)
         }
     }"

definition pbuf_coalesce :: "nat \<Rightarrow> nat \<Rightarrow> pbuf_layer \<Rightarrow> pst \<Rightarrow> (pst \<times> nat) option" where
  "pbuf_coalesce M p layer st =
     do {
       b \<leftarrow> pbufs st p;
       if pnext b = None then Some (st, p)
       else
         do {
           (st, q) \<leftarrow> pbuf_clone M layer PBUF_RAM p st;
           case q of
             None \<Rightarrow> Some (st, p)
           | Some a \<Rightarrow> map_option (\<lambda>(st, _). (st, a)) (pbuf_free M (Some p) st)
         }
     }"

text \<open>\<open>None\<close> inside is a negative result.\<close>

definition pbuf_try_get_at :: "nat option \<Rightarrow> u16 \<Rightarrow> pst \<Rightarrow> u8 option option" where
  "pbuf_try_get_at p offset st =
     do {
       (q, q_idx) \<leftarrow> pbuf_skip_const p offset st;
       case q of
         None \<Rightarrow> Some None
       | Some a \<Rightarrow>
           map_option (\<lambda>b. if len b > q_idx then Some (bytes st (payload b + unat q_idx)) else None) (pbufs st a)
     }"

definition pbuf_get_at :: "nat option \<Rightarrow> u16 \<Rightarrow> pst \<Rightarrow> u8 option" where
  "pbuf_get_at p offset st =
     map_option (\<lambda>r. case r of Some x \<Rightarrow> x | None \<Rightarrow> 0) (pbuf_try_get_at p offset st)"

definition pbuf_put_at :: "nat option \<Rightarrow> u16 \<Rightarrow> u8 \<Rightarrow> pst \<Rightarrow> pst option" where
  "pbuf_put_at p offset x st =
     do {
       (q, q_idx) \<leftarrow> pbuf_skip p offset st;
       case q of
         None \<Rightarrow> Some st
       | Some a \<Rightarrow>
           map_option (\<lambda>b. if len b > q_idx then MEMCPY (payload b + unat q_idx) [x] st else st) (pbufs st a)
     }"

fun memcmp_pbuf_loop :: "nat option \<Rightarrow> u16 \<Rightarrow> u8 list \<Rightarrow> u16 \<Rightarrow> pst \<Rightarrow> u16 option" where
  "memcmp_pbuf_loop q start [] i st = Some 0"
| "memcmp_pbuf_loop q start (b # bs) i st =
     do {
       a \<leftarrow> pbuf_get_at q (start + i) st;
       if a \<noteq> b then Some (of_nat (min (unat i + 1) 0xFFFF)) else memcmp_pbuf_loop q start bs (i + 1) st
     }"

definition pbuf_memcmp :: "nat \<Rightarrow> u16 \<Rightarrow> u8 list \<Rightarrow> pst \<Rightarrow> u16 option" where
  "pbuf_memcmp p offset s2 st =
     do {
       b \<leftarrow> pbufs st p;
       if unat (tot_len b) < unat offset + length s2 then Some 0xffff
       else
         do {
           (q, start) \<leftarrow> pbuf_skip_const (Some p) offset st;
           memcmp_pbuf_loop q start s2 0 st
         }
     }"

partial_function (option) memfind_loop :: "nat \<Rightarrow> u8 list \<Rightarrow> u16 \<Rightarrow> u16 \<Rightarrow> pst \<Rightarrow> u16 option" where
  [code]: "memfind_loop p mem max_cmp_start i st =
     (if i \<le> max_cmp_start
      then do { plus \<leftarrow> pbuf_memcmp p i mem st; if plus = 0 then Some i else memfind_loop p mem max_cmp_start (i + 1) st }
      else Some 0xFFFF)"

definition pbuf_memfind :: "nat \<Rightarrow> u8 list \<Rightarrow> u16 \<Rightarrow> pst \<Rightarrow> u16 option" where
  "pbuf_memfind p mem start_offset st =
     do {
       b \<leftarrow> pbufs st p;
       let max_cmp_start = tot_len b - of_nat (length mem);
       if unat (tot_len b) \<ge> length mem + unat start_offset
       then memfind_loop p mem max_cmp_start start_offset st
       else Some 0xFFFF
     }"

text \<open>A C string is the list of the bytes before its NUL, \<open>None\<close> for NULL.\<close>

definition pbuf_strstr :: "nat \<Rightarrow> u8 list option \<Rightarrow> pst \<Rightarrow> u16 option" where
  "pbuf_strstr p substr st =
     (case substr of
        None \<Rightarrow> Some 0xFFFF
      | Some s \<Rightarrow>
          if s = [] then Some 0xFFFF
          else
            do {
              b \<leftarrow> pbufs st p;
              if tot_len b = 0xFFFF then Some 0xFFFF
              else if length s \<ge> 0xFFFF then Some 0xFFFF
              else pbuf_memfind p s 0 st
            })"

subsection \<open>What a chain holds\<close>

fun chain :: "pst \<Rightarrow> nat option \<Rightarrow> nat list \<Rightarrow> bool" where
  "chain st p [] = (p = None)"
| "chain st p (a # as) = (p = Some a \<and> (\<exists>b. pbufs st a = Some b \<and> chain st (pnext b) as))"

definition segment :: "pst \<Rightarrow> nat \<Rightarrow> u8 list" where
  "segment st a = (case pbufs st a of None \<Rightarrow> [] | Some b \<Rightarrow> rd st (payload b) (unat (len b)))"

definition content :: "pst \<Rightarrow> nat list \<Rightarrow> u8 list" where
  "content st as = concat (map (segment st) as)"

text \<open>The invariant of \<open>tot_len\<close> that \<open>struct pbuf\<close> documents, for every suffix of the chain.\<close>

fun tot_ok :: "pst \<Rightarrow> nat list \<Rightarrow> bool" where
  "tot_ok st [] = True"
| "tot_ok st (a # as) = ((\<exists>b. pbufs st a = Some b \<and> unat (tot_len b) = length (content st (a # as))) \<and> tot_ok st as)"

definition packet :: "pst \<Rightarrow> nat option \<Rightarrow> nat list \<Rightarrow> bool" where
  "packet st p as = (chain st p as \<and> tot_ok st as)"

definition occurs_at :: "u8 list \<Rightarrow> u8 list \<Rightarrow> nat \<Rightarrow> bool" where
  "occurs_at mem c i = (i + length mem \<le> length c \<and> take (length mem) (drop i c) = mem)"

text \<open>The addresses of the bytes of a chain, in order, and writing to a list of addresses.\<close>

definition addrs :: "pst \<Rightarrow> nat list \<Rightarrow> nat list" where
  "addrs st as = concat (map (\<lambda>a. case pbufs st a of None \<Rightarrow> [] | Some b \<Rightarrow> [payload b..<payload b + unat (len b)]) as)"

definition blit :: "nat list \<Rightarrow> u8 list \<Rightarrow> (nat \<Rightarrow> u8) \<Rightarrow> nat \<Rightarrow> u8" where
  "blit ds vs m x = (case map_of (zip ds vs) x of None \<Rightarrow> m x | Some v \<Rightarrow> v)"

text \<open>Every pbuf behind the first one holds data.\<close>

definition full_tail :: "pst \<Rightarrow> nat list \<Rightarrow> bool" where
  "full_tail st as = (\<forall>a \<in> set (tl as). \<forall>b. pbufs st a = Some b \<longrightarrow> len b \<noteq> 0)"

lemma length_rd [simp]: "length (rd st a n) = n"
  by (simp add: rd_def)

lemma nth_rd [simp]: "i < n \<Longrightarrow> rd st a n ! i = bytes st (a + i)"
  by (simp add: rd_def)

lemma rd_slice: "o' + n \<le> m \<Longrightarrow> rd st (a + o') n = take n (drop o' (rd st a m))"
  by (intro nth_equalityI) (auto simp: add.assoc)

lemma content_Nil [simp]: "content st [] = []"
  by (simp add: content_def)

lemma content_Cons: "pbufs st a = Some b \<Longrightarrow> content st (a # as) = rd st (payload b) (unat (len b)) @ content st as"
  by (simp add: content_def segment_def)

lemma content_append [simp]: "content st (as @ bs) = content st as @ content st bs"
  by (simp add: content_def)


lemma min_u16: "unat (min a b :: u16) = min (unat a) (unat b)"
  by (simp add: min_def word_le_nat_alt)

lemma copy_partial_loop_spec:
  "chain st p as \<Longrightarrow> copy_partial_loop p n off st = Some (take (unat n) (drop (unat off) (content st as)))"
proof (induction as arbitrary: p n off)
  case Nil
  then show ?case by (subst copy_partial_loop.simps) simp
next
  case (Cons a as)
  then obtain b where b: "p = Some a" "pbufs st a = Some b" "chain st (pnext b) as"
    by auto
  note IH = Cons.IH[OF b(3)]
  consider (zero) "n = 0" | (skip) "n \<noteq> 0" "off \<noteq> 0" "len b \<le> off" | (copy) "n \<noteq> 0" "off = 0 \<or> off < len b"
    by fastforce
  then show ?case
  proof cases
    case zero
    then show ?thesis by (subst copy_partial_loop.simps) (simp add: b)
  next
    case skip
    then have "unat (len b) \<le> unat off" "unat (off - len b) = unat off - unat (len b)"
      by (simp_all add: word_le_nat_alt unat_u16_sub)
    then show ?thesis
      using skip by (subst copy_partial_loop.simps) (simp add: b IH content_Cons)
  next
    case copy
    let ?n = "min (len b - off) n"
    have le: "off \<le> len b" "unat off \<le> unat (len b)"
      using copy(2) by (auto simp: word_le_nat_alt word_less_nat_alt)
    have n: "unat ?n = min (unat (len b) - unat off) (unat n)" "unat (n - ?n) = unat n - unat ?n"
      using le by (simp_all add: min_u16 unat_u16_sub)
    have "copy_partial_loop p n off st =
        Some (rd st (payload b + unat off) (unat ?n) @ take (unat (n - ?n)) (content st as))"
      using copy by (subst copy_partial_loop.simps) (auto simp: b IH Let_def)
    also have "rd st (payload b + unat off) (unat ?n) = take (unat ?n) (drop (unat off) (rd st (payload b) (unat (len b))))"
      using le n(1) by (intro rd_slice) linarith
    finally show ?thesis
      using le n by (auto simp: b content_Cons min_def)
  qed
qed

lemma pbuf_skip_const_spec:
  assumes "chain st p as"
  obtains q o' as1 as2 where "pbuf_skip_const p off st = Some (q, o')" "as = as1 @ as2" "chain st q as2"
    "unat off = length (content st as1) + unat o'" "\<forall>a b. q = Some a \<longrightarrow> pbufs st a = Some b \<longrightarrow> o' < len b"
  using assms
proof (induction as arbitrary: p off thesis)
  case Nil
  show ?case
    by (rule Nil(1)[of None off "[]" "[]"]) (use Nil(2) in \<open>auto intro: trans[OF pbuf_skip_const.simps]\<close>)
next
  case (Cons a as)
  then obtain b where b: "p = Some a" "pbufs st a = Some b" "chain st (pnext b) as"
    by auto
  show ?case
  proof (cases "len b \<le> off")
    case True
    obtain q o' as1 as2 where q: "pbuf_skip_const (pnext b) (off - len b) st = Some (q, o')" "as = as1 @ as2" "chain st q as2"
      "unat (off - len b) = length (content st as1) + unat o'" "\<forall>a b. q = Some a \<longrightarrow> pbufs st a = Some b \<longrightarrow> o' < len b"
      using Cons.IH[OF _ b(3), of "off - len b"] by blast
    show ?thesis
    proof (rule Cons.prems(1)[of q o' "a # as1" as2])
      show "pbuf_skip_const p off st = Some (q, o')"
        using True q(1) by (subst pbuf_skip_const.simps) (simp add: b)
      show "unat off = length (content st (a # as1)) + unat o'"
        using True q(4) by (simp add: content_Cons[OF b(2)] unat_u16_sub word_le_nat_alt)
    qed (use q in auto)
  next
    case False
    show ?thesis
    proof (rule Cons.prems(1)[of p off "[]" "a # as"])
      show "pbuf_skip_const p off st = Some (p, off)"
        using False by (subst pbuf_skip_const.simps) (simp add: b)
    qed (use False Cons.prems(2) b in auto)
  qed
qed

lemma content_nth:
  assumes "pbufs st a = Some b" "o' < len b"
  shows "content st (a # as) ! unat o' = bytes st (payload b + unat o')" "unat o' < length (content st (a # as))"
  using assms by (auto simp: content_Cons nth_append word_less_nat_alt)

lemma pbuf_try_get_at_spec:
  assumes "chain st p as"
  shows "pbuf_try_get_at p off st =
    Some (if unat off < length (content st as) then Some (content st as ! unat off) else None)"
proof -
  obtain q o' as1 as2 where q: "pbuf_skip_const p off st = Some (q, o')" "as = as1 @ as2" "chain st q as2"
    "unat off = length (content st as1) + unat o'" "\<forall>a b. q = Some a \<longrightarrow> pbufs st a = Some b \<longrightarrow> o' < len b"
    by (rule pbuf_skip_const_spec[OF assms, of off])
  show ?thesis
  proof (cases as2)
    case Nil
    then show ?thesis using q by (simp add: pbuf_try_get_at_def)
  next
    case (Cons a as')
    then obtain b where b: "q = Some a" "pbufs st a = Some b" "o' < len b"
      using q(3,5) by auto
    then show ?thesis
      using q(1,2,4) content_nth[OF b(2,3), of as'] Cons
      by (simp add: pbuf_try_get_at_def nth_append)
  qed
qed

lemma pbuf_get_at_spec:
  "chain st p as \<Longrightarrow> unat off < length (content st as) \<Longrightarrow> pbuf_get_at p off st = Some (content st as ! unat off)"
  by (simp add: pbuf_get_at_def pbuf_try_get_at_spec)

lemma memcmp_pbuf_loop_spec:
  assumes "chain st q as" "unat start + unat i + length s2 \<le> length (content st as)" "length (content st as) < 65536"
  shows "\<exists>r. memcmp_pbuf_loop q start s2 i st = Some r \<and>
           (r = 0 \<longleftrightarrow> take (length s2) (drop (unat start + unat i) (content st as)) = s2)"
  using assms
proof (induction s2 arbitrary: i)
  case (Cons x s2)
  have e: "unat (start + i) = unat start + unat i"
    using Cons.prems(2,3) by (simp add: unat_u16_add)
  let ?c = "content st as" and ?k = "unat start + unat i"
  have k: "?k < length ?c"
    using Cons.prems(2) by simp
  have d: "take (length (x # s2)) (drop ?k ?c) = ?c ! ?k # take (length s2) (drop (Suc ?k) ?c)"
    using Cons_nth_drop_Suc[OF k, symmetric] by simp
  have g: "pbuf_get_at q (start + i) st = Some (?c ! ?k)"
    using pbuf_get_at_spec[OF assms(1)] k e by simp
  show ?case
  proof (cases "?c ! ?k = x")
    case True
    show ?thesis
    proof (cases s2)
      case Nil
      then show ?thesis using True g d by simp
    next
      case (Cons y s2')
      then have "unat (i + 1) = unat i + 1"
        using Cons.prems Cons \<open>length ?c < 65536\<close> k by (simp add: unat_u16_add)
      then show ?thesis
        using Cons.IH[of "i + 1"] Cons.prems True g d by simp
    qed
  next
    case False
    have "min (unat i + 1) 0xFFFF mod 65536 \<noteq> 0"
      by (simp add: min_def)
    then have "of_nat (min (unat i + 1) 0xFFFF) \<noteq> (0 :: u16)"
      by (metis unat_0 unat_u16_of_nat)
    then show ?thesis using False g d by simp
  qed
qed simp

lemma packet_length: "packet st (Some p) as \<Longrightarrow> \<exists>b as'. as = p # as' \<and> pbufs st p = Some b \<and> unat (tot_len b) = length (content st as)"
  by (cases as) (auto simp: packet_def)

lemma pbuf_memcmp_spec:
  assumes p: "packet st (Some p) as" and fits: "unat off + length s2 \<le> length (content st as)"
  shows "\<exists>r. pbuf_memcmp p off s2 st = Some r \<and> (r = 0 \<longleftrightarrow> occurs_at s2 (content st as) (unat off))"
proof -
  have c: "chain st (Some p) as"
    using p by (simp add: packet_def)
  obtain b where b: "pbufs st p = Some b" "unat (tot_len b) = length (content st as)"
    using packet_length[OF p] by blast
  have lt: "length (content st as) < 65536"
    using b(2) unat_u16_less[of "tot_len b"] by linarith
  obtain q o' as1 as2 where q: "pbuf_skip_const (Some p) off st = Some (q, o')" "as = as1 @ as2" "chain st q as2"
    "unat off = length (content st as1) + unat o'"
    by (rule pbuf_skip_const_spec[OF c, of off])
  obtain r where "memcmp_pbuf_loop q o' s2 0 st = Some r"
      "r = 0 \<longleftrightarrow> take (length s2) (drop (unat o') (content st as2)) = s2"
    using memcmp_pbuf_loop_spec[OF q(3), of o' 0 s2] fits lt q(2,4) by auto
  moreover have "drop (unat off) (content st as) = drop (unat o') (content st as2)"
    using q(2,4) by simp
  ultimately show ?thesis
    using b q(1) fits by (auto simp: pbuf_memcmp_def occurs_at_def)
qed

lemma memfind_loop_spec:
  assumes p: "packet st (Some p) as" and m: "mem \<noteq> []" "unat mx + length mem = length (content st as)"
  shows "\<exists>r. memfind_loop p mem mx i st = Some r \<and>
     (if \<exists>j \<ge> unat i. occurs_at mem (content st as) j
      then unat r = (LEAST j. j \<ge> unat i \<and> occurs_at mem (content st as) j) else r = 0xFFFF)"
proof (induction "unat mx + 1 - unat i" arbitrary: i)
  case 0
  then have "\<not> i \<le> mx"
    by (simp add: word_le_nat_alt)
  moreover have "\<not> occurs_at mem (content st as) j" if "j \<ge> unat i" for j
    using that 0 m by (auto simp: occurs_at_def)
  ultimately show ?case
    by (subst memfind_loop.simps) auto
next
  case (Suc n)
  have le: "unat i \<le> unat mx" "i \<le> mx"
    using Suc.hyps(2) by (auto simp: word_le_nat_alt)
  obtain r where r: "pbuf_memcmp p i mem st = Some r" "r = 0 \<longleftrightarrow> occurs_at mem (content st as) (unat i)"
    using pbuf_memcmp_spec[OF p, of i mem] le m by auto
  show ?case
  proof (cases "r = 0")
    case True
    then have occ: "occurs_at mem (content st as) (unat i)"
      using r(2) by simp
    then have "(LEAST j. j \<ge> unat i \<and> occurs_at mem (content st as) j) = unat i"
      by (intro Least_equality) auto
    then show ?thesis
      using occ r le True by (subst memfind_loop.simps) auto
  next
    case False
    have "unat mx + 1 < 65536"
    proof -
      obtain b :: pbuf where "unat (tot_len b) = length (content st as)"
        using packet_length[OF p] by blast
      moreover have "0 < length mem" using m(1) by simp
      ultimately show ?thesis
        using m(2) unat_u16_less[of "tot_len b"] by linarith
    qed
    then have i1: "unat (i + 1) = unat i + 1"
      using le by (simp add: unat_u16_add)
    have iff: "(j \<ge> unat (i + 1) \<and> occurs_at mem (content st as) j) = (j \<ge> unat i \<and> occurs_at mem (content st as) j)" for j
      using r(2) False i1 by (cases "j = unat i") auto
    have "memfind_loop p mem mx i st = memfind_loop p mem mx (i + 1) st"
      using r(1) le False by (subst memfind_loop.simps) simp
    then show ?thesis
      using Suc.hyps(1)[of "i + 1"] Suc.hyps(2) i1 unfolding iff by simp
  qed
qed

subsection \<open>Writing to a chain\<close>

lemma addrs_Nil [simp]: "addrs st [] = []"
  by (simp add: addrs_def)

lemma addrs_Cons: "pbufs st a = Some b \<Longrightarrow> addrs st (a # as) = [payload b..<payload b + unat (len b)] @ addrs st as"
  by (simp add: addrs_def)

lemma addrs_append [simp]: "addrs st (as @ bs) = addrs st as @ addrs st bs"
  by (simp add: addrs_def)

lemma content_addrs: "content st as = map (bytes st) (addrs st as)"
  by (induction as) (auto simp: content_def addrs_def segment_def rd_def split: option.split)

lemma length_content: "length (content st as) = length (addrs st as)"
  by (simp add: content_addrs)

lemma chain_bytes [simp]: "chain (st\<lparr>bytes := m\<rparr>) p as = chain st p as"
  by (induction as arbitrary: p) auto

lemma addrs_bytes [simp]: "addrs (st\<lparr>bytes := m\<rparr>) as = addrs st as"
  by (simp add: addrs_def)

lemma content_bytes: "content (st\<lparr>bytes := m\<rparr>) as = map m (addrs st as)"
  by (simp add: content_addrs)

lemma tot_ok_bytes [simp]: "tot_ok (st\<lparr>bytes := m\<rparr>) as = tot_ok st as"
  by (induction as) (auto simp: length_content)

lemma packet_bytes [simp]: "packet (st\<lparr>bytes := m\<rparr>) p as = packet st p as"
  by (simp add: packet_def)

lemma blit_Nil [simp]: "blit [] vs m = m" "blit ds [] m = m"
  by (auto simp: blit_def)

lemma blit_outside: "x \<notin> set ds \<Longrightarrow> blit ds vs m x = m x"
  by (auto simp: blit_def split: option.split dest!: map_of_SomeD set_zip_leftD)

lemma blit_append:
  assumes "length ds1 = length vs1" "set ds1 \<inter> set ds2 = {}"
  shows "blit (ds1 @ ds2) (vs1 @ vs2) m = blit ds2 vs2 (blit ds1 vs1 m)"
proof
  fix x
  have "map_of (zip ds1 vs1) x = None \<or> map_of (zip ds2 vs2) x = None"
  proof (rule ccontr)
    assume "\<not> ?thesis"
    then obtain v w where "map_of (zip ds1 vs1) x = Some v" "map_of (zip ds2 vs2) x = Some w"
      by auto
    then show False
      using assms(2) by (auto dest!: map_of_SomeD set_zip_leftD)
  qed
  then show "blit (ds1 @ ds2) (vs1 @ vs2) m x = blit ds2 vs2 (blit ds1 vs1 m) x"
    using assms(1) by (auto simp: blit_def zip_append simp del: map_of_zip_is_None split: option.split)
qed

lemma map_blit:
  assumes "distinct ds" "length ds = length vs"
  shows "map (blit ds vs m) ds = vs"
proof (rule nth_equalityI)
  fix i assume "i < length (map (blit ds vs m) ds)"
  then have "i < length ds" by simp
  then have "map_of (zip ds vs) (ds ! i) = Some (vs ! i)"
    using assms by (simp add: map_of_zip_nth)
  then show "map (blit ds vs m) ds ! i = vs ! i"
    using \<open>i < length ds\<close> by (simp add: blit_def)
qed (use assms in simp)

lemma map_blit_outside: "set xs \<inter> set ds = {} \<Longrightarrow> map (blit ds vs m) xs = map m xs"
  by (auto intro!: blit_outside)

lemma MEMCPY_blit: "MEMCPY a bs st = st\<lparr>bytes := blit [a..<a + length bs] bs (bytes st)\<rparr>"
proof -
  have "blit [a..<a + length bs] bs m x = (if a \<le> x \<and> x < a + length bs then bs ! (x - a) else m x)" for m x
  proof (cases "a \<le> x \<and> x < a + length bs")
    case True
    then have "[a..<a + length bs] ! (x - a) = x" "x - a < length [a..<a + length bs]"
      by auto
    then have "map_of (zip [a..<a + length bs] bs) x = Some (bs ! (x - a))"
      using map_of_zip_nth[of "[a..<a + length bs]" bs "x - a"] True by simp
    then show ?thesis using True by (simp add: blit_def)
  next
    case False
    then show ?thesis
      by (auto simp: blit_outside)
  qed
  then show ?thesis
    unfolding MEMCPY_def by (simp add: fun_eq_iff cong: if_cong)
qed

lemma pbuf_take_loop_spec:
  assumes "chain st p as" "length bs \<le> length (addrs st as)" "distinct (addrs st as)"
  shows "pbuf_take_loop p bs st = Some (st\<lparr>bytes := blit (take (length bs) (addrs st as)) bs (bytes st)\<rparr>)"
  using assms
proof (induction as arbitrary: p bs st)
  case Nil
  then show ?case by (subst pbuf_take_loop.simps) simp
next
  case (Cons a as)
  then obtain b where b: "p = Some a" "pbufs st a = Some b" "chain st (pnext b) as"
    by auto
  show ?case
  proof (cases "bs = []")
    case True
    then show ?thesis by (subst pbuf_take_loop.simps) simp
  next
    case False
    let ?n = "min (length bs) (unat (len b))"
    define st1 where "st1 = MEMCPY (payload b) (take ?n bs) st"
    have st1: "st1 = st\<lparr>bytes := blit [payload b..<payload b + ?n] (take ?n bs) (bytes st)\<rparr>"
      by (simp add: st1_def MEMCPY_blit)
    have ad: "addrs st (a # as) = [payload b..<payload b + unat (len b)] @ addrs st as"
      by (rule addrs_Cons[OF b(2)])
    have "pbuf_take_loop p bs st = pbuf_take_loop (pnext b) (drop ?n bs) st1"
      using False by (subst pbuf_take_loop.simps) (simp add: b st1_def Let_def)
    also have "\<dots> = Some (st1\<lparr>bytes := blit (take (length (drop ?n bs)) (addrs st1 as)) (drop ?n bs) (bytes st1)\<rparr>)"
      using Cons.prems(2,3) b(3) ad by (intro Cons.IH) (auto simp: st1)
    also have "blit (take (length (drop ?n bs)) (addrs st1 as)) (drop ?n bs) (bytes st1) =
        blit ([payload b..<payload b + ?n] @ take (length bs - ?n) (addrs st as)) (take ?n bs @ drop ?n bs) (bytes st)"
    proof (subst blit_append)
      show "set [payload b..<payload b + ?n] \<inter> set (take (length bs - ?n) (addrs st as)) = {}"
        using Cons.prems(3) unfolding ad by (force dest!: in_set_takeD)
    qed (simp_all add: st1)
    also have "[payload b..<payload b + ?n] @ take (length bs - ?n) (addrs st as) = take (length bs) (addrs st (a # as))"
      unfolding ad by (simp add: min_def take_upt)
    finally show ?thesis
      by (simp add: st1)
  qed
qed

lemma full_tailD:
  assumes "full_tail st (a # as)" "chain st p (a # as)" "tot_ok st (a # as)"
  shows "packet_queue p st = Some False"
proof -
  obtain b where b: "p = Some a" "pbufs st a = Some b" "chain st (pnext b) as" "unat (tot_len b) = length (addrs st (a # as))"
    using assms(2,3) by (auto simp: length_content)
  have "len b \<noteq> tot_len b" if n: "pnext b \<noteq> None"
  proof -
    obtain c as' where c: "as = c # as'"
      using b(3) n by (cases as) auto
    then obtain d where d: "pbufs st c = Some d" "len d \<noteq> 0"
      using assms(1) b(3) by (auto simp: full_tail_def)
    have "unat (tot_len b) = unat (len b) + unat (len d) + length (addrs st as')"
      using b(2,4) d(1) by (simp add: addrs_Cons c)
    then show ?thesis
      using d(2) by (auto simp: unat_eq_0)
  qed
  then have "\<not> (len b = tot_len b \<and> pnext b \<noteq> None)"
    by blast
  then show ?thesis
    using b(1,2) by (simp add: packet_queue_def)
qed

lemma full_tail_tl: "full_tail st (a # as) \<Longrightarrow> full_tail st as"
  by (cases as) (auto simp: full_tail_def)

lemma packet_queue_None [simp]: "packet_queue None st = Some False"
  by (simp add: packet_queue_def)

lemma packet_queue_ok:
  "full_tail st as \<Longrightarrow> chain st p as \<Longrightarrow> tot_ok st as \<Longrightarrow> packet_queue p st = Some False"
  using full_tailD by (cases as) auto

lemma full_tail_bytes [simp]: "full_tail (st\<lparr>bytes := m\<rparr>) as = full_tail st as"
  by (simp add: full_tail_def)

text \<open>One iteration moves to what is left of a chain.\<close>

definition rest :: "nat \<Rightarrow> nat \<Rightarrow> pbuf \<Rightarrow> nat list \<Rightarrow> nat list" where
  "rest o' a b as = (if o' \<ge> unat (len b) then as else a # as)"

definition rest_off :: "nat \<Rightarrow> pbuf \<Rightarrow> nat" where
  "rest_off o' b = (if o' \<ge> unat (len b) then 0 else o')"

lemma rest_addrs:
  assumes "pbufs st a = Some b" "o' \<le> unat (len b)"
  shows "drop (rest_off o' b) (addrs st (rest o' a b as)) = drop o' (addrs st (a # as))"
  using assms by (auto simp: rest_def rest_off_def addrs_Cons)

lemma rest_chain:
  assumes "chain st (Some a) (a # as)" "pbufs st a = Some b"
  shows "chain st (if o' \<ge> unat (len b) then pnext b else Some a) (rest o' a b as)"
  using assms by (auto simp: rest_def)

lemma rest_ok:
  assumes "tot_ok st (a # as)" "full_tail st (a # as)"
  shows "tot_ok st (rest o' a b as)" "full_tail st (rest o' a b as)"
  using assms full_tail_tl[OF assms(2)] by (simp_all add: rest_def)

lemma copy_pbuf_loop_step:
  assumes t: "chain st (Some t) (t # ts)" "tot_ok st (t # ts)" "full_tail st (t # ts)" "pbufs st t = Some tb" "ot \<le> unat (len tb)"
    and f: "chain st (Some f) (f # fs)" "tot_ok st (f # fs)" "full_tail st (f # fs)" "pbufs st f = Some fb" "off \<le> unat (len fb)"
    and n: "n \<le> length (drop ot (addrs st (t # ts)))" "n \<le> length (drop off (addrs st (f # fs)))"
    and m: "m = min n (min (unat (len fb) - off) (unat (len tb) - ot))"
    and st1: "st1 = MEMCPY (payload tb + ot) (rd st (payload fb + off) m) st"
  shows "copy_pbuf_loop t ot f off n st =
    (if n = m then Some (st1, ERR_OK)
     else copy_pbuf_loop (hd (rest (ot + m) t tb ts)) (rest_off (ot + m) tb) (hd (rest (off + m) f fb fs))
            (rest_off (off + m) fb) (n - m) st1)
    \<and> (n \<noteq> m \<longrightarrow> rest (ot + m) t tb ts \<noteq> [] \<and> rest (off + m) f fb fs \<noteq> [] \<and>
        length (rest (ot + m) t tb ts) + length (rest (off + m) f fb fs) < length (t # ts) + length (f # fs))"
proof -
  have sub: "sub64 (unat (len tb)) ot = unat (len tb) - ot" "sub64 (unat (len fb)) off = unat (len fb) - off"
    using t(5) f(5) order_less_trans[OF unat_u16_less] by (simp_all add: sub64_le)
  have m': "min n (if unat (len tb) - ot \<ge> unat (len fb) - off then unat (len fb) - off else unat (len tb) - ot) = m"
    by (simp add: m)
  have le: "ot + m \<le> unat (len tb)" "off + m \<le> unat (len fb)"
    using t(5) f(5) by (simp_all add: m)
  have p1: "pbufs st1 = pbufs st"
    by (simp add: st1 MEMCPY_def)
  have pq: "packet_queue p st1 = packet_queue p st" for p
    by (cases p) (simp_all add: packet_queue_def p1)
  let ?tn = "if ot + m \<ge> unat (len tb) then pnext tb else Some t"
  let ?fn = "if off + m \<ge> unat (len fb) then pnext fb else Some f"
  have ct: "chain st ?tn (rest (ot + m) t tb ts)" and cf: "chain st ?fn (rest (off + m) f fb fs)"
    using rest_chain[OF t(1,4)] rest_chain[OF f(1,4)] by blast+
  have q: "packet_queue ?tn st1 = Some False" "packet_queue ?fn st1 = Some False"
    using packet_queue_ok[OF rest_ok(2)[OF t(2,3)] ct rest_ok(1)[OF t(2,3)]]
      packet_queue_ok[OF rest_ok(2)[OF f(2,3)] cf rest_ok(1)[OF f(2,3)]]
    by (simp_all only: pq)
  have nle: "(\<not> ot + m \<le> unat (len tb) \<or> \<not> off + m \<le> unat (len fb)) = False"
    using le by simp
  have tt: "(if ot + m = unat (len tb) then (pnext tb, 0) else (Some t, ot + m)) = (?tn, rest_off (ot + m) tb)"
    using le(1) by (simp add: rest_off_def)
  have ff: "(if off + m \<ge> unat (len fb) then (pnext fb, 0) else (Some f, off + m)) = (?fn, rest_off (off + m) fb)"
    by (simp add: rest_off_def)
  have unf: "copy_pbuf_loop t ot f off n st =
      (if ?fn = None \<and> n - m \<noteq> 0 then Some (st1, ERR_ARG)
       else if ?tn = None \<and> n - m \<noteq> 0 then Some (st1, ERR_ARG)
       else if n - m = 0 then Some (st1, ERR_OK)
       else case (?tn, ?fn) of
              (Some t', Some f') \<Rightarrow> copy_pbuf_loop t' (rest_off (ot + m) tb) f' (rest_off (off + m) fb) (n - m) st1
            | _ \<Rightarrow> None)"
    by (subst copy_pbuf_loop.simps)
      (simp only: t(4) f(4) Option.bind_lunit Let_def sub m' st1[symmetric] nle if_False tt ff prod.case q simp_thms)
  show ?thesis
  proof (cases "n = m")
    case True
    have "copy_pbuf_loop t ot f off n st = Some (st1, ERR_OK)"
      unfolding unf using True by simp
    then show ?thesis
      using True by simp
  next
    case False
    have mn: "m < n"
      using False by (simp add: m)
    have lt: "length (addrs st (t # ts)) = unat (len tb) + length (addrs st ts)"
        "length (addrs st (f # fs)) = unat (len fb) + length (addrs st fs)"
      using t(4) f(4) by (simp_all add: addrs_Cons)
    have "rest (ot + m) t tb ts \<noteq> []"
      using n(1) mn lt(1) by (cases ts) (auto simp: rest_def)
    then obtain t' ts' where t': "rest (ot + m) t tb ts = t' # ts'"
      by (auto simp: neq_Nil_conv)
    have "rest (off + m) f fb fs \<noteq> []"
      using n(2) mn lt(2) by (cases fs) (auto simp: rest_def)
    then obtain f' fs' where f': "rest (off + m) f fb fs = f' # fs'"
      by (auto simp: neq_Nil_conv)
    have tn: "?tn = Some t'" and fn: "?fn = Some f'"
      using ct cf unfolding t' f' by simp_all
    have "copy_pbuf_loop t ot f off n st = copy_pbuf_loop t' (rest_off (ot + m) tb) f' (rest_off (off + m) fb) (n - m) st1"
      unfolding unf tn fn using mn by simp
    moreover have "unat (len tb) \<le> ot + m \<or> unat (len fb) \<le> off + m"
      using mn by (auto simp: m min_def split: if_splits)
    then have "length (rest (ot + m) t tb ts) + length (rest (off + m) f fb fs) < length (t # ts) + length (f # fs)"
      by (auto simp: rest_def)
    ultimately show ?thesis
      using False by (simp add: t' f')
  qed
qed

lemma copy_pbuf_loop_spec:
  assumes "chain st (Some t) (t # ts)" "tot_ok st (t # ts)" "full_tail st (t # ts)" "pbufs st t = Some tb" "ot \<le> unat (len tb)"
    and "chain st (Some f) (f # fs)" "tot_ok st (f # fs)" "full_tail st (f # fs)" "pbufs st f = Some fb" "off \<le> unat (len fb)"
    and "n \<le> length (drop ot (addrs st (t # ts)))" "n \<le> length (drop off (addrs st (f # fs)))"
    and "distinct (addrs st (t # ts))" "set (addrs st (t # ts)) \<inter> set (addrs st (f # fs)) = {}"
  shows "copy_pbuf_loop t ot f off n st =
    Some (st\<lparr>bytes := blit (take n (drop ot (addrs st (t # ts)))) (map (bytes st) (take n (drop off (addrs st (f # fs))))) (bytes st)\<rparr>, ERR_OK)"
  using assms
proof (induction "length (t # ts) + length (f # fs)" arbitrary: t ts tb ot f fs fb off n st rule: less_induct)
  case less
  note t = less.prems(1-5) and f = less.prems(6-10) and n = less.prems(11,12) and d = less.prems(13,14)
  define m where m: "m = min n (min (unat (len fb) - off) (unat (len tb) - ot))"
  define st1 where st1: "st1 = MEMCPY (payload tb + ot) (rd st (payload fb + off) m) st"
  let ?D = "drop ot (addrs st (t # ts))" and ?S = "drop off (addrs st (f # fs))"
  have le: "m \<le> n" "ot + m \<le> unat (len tb)" "off + m \<le> unat (len fb)"
    using t(5) f(5) by (auto simp: m)
  have tD: "take m ?D = [payload tb + ot..<payload tb + ot + m]"
    using le(2) by (simp add: addrs_Cons[OF t(4)] take_upt)
  have tS: "map (bytes st) (take m ?S) = rd st (payload fb + off) m"
    using le(3) by (simp add: addrs_Cons[OF f(4)] take_upt rd_def)
  have b1: "st1 = st\<lparr>bytes := blit (take m ?D) (map (bytes st) (take m ?S)) (bytes st)\<rparr>"
    unfolding st1 MEMCPY_blit tD tS by simp
  note step = copy_pbuf_loop_step[OF t f n m st1]
  show ?case
  proof (cases "n = m")
    case True
    then show ?thesis
      using step b1 by simp
  next
    case False
    then obtain t' ts' f' fs' where r: "rest (ot + m) t tb ts = t' # ts'" "rest (off + m) f fb fs = f' # fs'"
        "length (t' # ts') + length (f' # fs') < length (t # ts) + length (f # fs)"
      using step by (metis list.exhaust)
    have ct: "chain st1 (Some t') (t' # ts')" and cf: "chain st1 (Some f') (f' # fs')"
      using rest_chain[OF t(1,4), of "ot + m"] rest_chain[OF f(1,4), of "off + m"] unfolding r b1 by simp_all
    obtain tb' fb' where tb': "pbufs st1 t' = Some tb'" and fb': "pbufs st1 f' = Some fb'"
      using ct cf by auto
    have ok: "tot_ok st1 (t' # ts')" "full_tail st1 (t' # ts')" "tot_ok st1 (f' # fs')" "full_tail st1 (f' # fs')"
      using rest_ok[OF t(2,3), of "ot + m" tb] rest_ok[OF f(2,3), of "off + m" fb] unfolding r b1
      by (simp_all only: tot_ok_bytes full_tail_bytes)
    have o: "rest_off (ot + m) tb \<le> unat (len tb')" "rest_off (off + m) fb \<le> unat (len fb')"
      using r(1,2) t(4) f(4) tb' fb' by (auto simp: rest_def rest_off_def b1 split: if_splits)
    have D': "drop (rest_off (ot + m) tb) (addrs st1 (t' # ts')) = drop m ?D"
      and S': "drop (rest_off (off + m) fb) (addrs st1 (f' # fs')) = drop m ?S"
      using rest_addrs[OF t(4) le(2), of ts] rest_addrs[OF f(4) le(3), of fs] unfolding r b1
      by (simp_all add: add.commute)
    have sub: "distinct (addrs st1 (t' # ts'))" "set (addrs st1 (t' # ts')) \<subseteq> set (addrs st (t # ts))"
        "set (addrs st1 (f' # fs')) \<subseteq> set (addrs st (f # fs))"
      using d(1) unfolding r(1,2)[symmetric] b1 by (auto simp: rest_def addrs_Cons[OF t(4)] addrs_Cons[OF f(4)])
    have "copy_pbuf_loop t ot f off n st =
        copy_pbuf_loop t' (rest_off (ot + m) tb) f' (rest_off (off + m) fb) (n - m) st1"
      using step False by (simp add: r)
    also have "\<dots> = Some (st1\<lparr>bytes := blit (take (n - m) (drop (rest_off (ot + m) tb) (addrs st1 (t' # ts'))))
        (map (bytes st1) (take (n - m) (drop (rest_off (off + m) fb) (addrs st1 (f' # fs'))))) (bytes st1)\<rparr>, ERR_OK)"
    proof (rule less.hyps[OF r(3) ct ok(1,2) tb' o(1) cf ok(3,4) fb' o(2)])
      show "n - m \<le> length (drop (rest_off (ot + m) tb) (addrs st1 (t' # ts')))"
        "n - m \<le> length (drop (rest_off (off + m) fb) (addrs st1 (f' # fs')))"
        unfolding D' S' using n by auto
      show "set (addrs st1 (t' # ts')) \<inter> set (addrs st1 (f' # fs')) = {}"
        using sub d(2) by blast
    qed (rule sub)
    also have "map (bytes st1) (take (n - m) (drop (rest_off (off + m) fb) (addrs st1 (f' # fs')))) =
        map (bytes st) (take (n - m) (drop m ?S))"
    proof -
      have "set (take (n - m) (drop m ?S)) \<inter> set (take m ?D) = {}"
        using d(2) by (auto dest!: in_set_takeD in_set_dropD)
      from map_blit_outside[OF this] show ?thesis
        unfolding S' by (simp add: b1)
    qed
    also have "st1\<lparr>bytes := blit (take (n - m) (drop (rest_off (ot + m) tb) (addrs st1 (t' # ts'))))
        (map (bytes st) (take (n - m) (drop m ?S))) (bytes st1)\<rparr> =
        st\<lparr>bytes := blit (take m ?D @ take (n - m) (drop m ?D))
          (map (bytes st) (take m ?S) @ map (bytes st) (take (n - m) (drop m ?S))) (bytes st)\<rparr>"
    proof (subst blit_append)
      show "length (take m ?D) = length (map (bytes st) (take m ?S))"
        using n le(1) by simp
      show "set (take m ?D) \<inter> set (take (n - m) (drop m ?D)) = {}"
        using set_take_disj_set_drop_if_distinct[OF distinct_drop[OF d(1)], of m m ot]
        by (auto dest!: in_set_takeD[of _ "n - m"])
    qed (simp only: D', simp add: b1)
    also have "take m ?D @ take (n - m) (drop m ?D) = take n ?D"
      using le(1) by (metis le_add_diff_inverse take_add)
    also have "map (bytes st) (take m ?S) @ map (bytes st) (take (n - m) (drop m ?S)) = map (bytes st) (take n ?S)"
      using le(1) by (metis le_add_diff_inverse map_append take_add)
    finally show ?thesis .
  qed
qed

lemma tot_ok_append: "tot_ok st (as1 @ as2) \<Longrightarrow> tot_ok st as2"
  by (induction as1) auto

lemma pbuf_take_spec:
  assumes "packet st p as" "p \<noteq> None" "distinct (addrs st as)"
  shows "pbuf_take p (Some bs) st =
    (if length bs \<le> length (content st as)
     then Some (st\<lparr>bytes := blit (take (length bs) (addrs st as)) bs (bytes st)\<rparr>, ERR_OK)
     else Some (st, ERR_MEM))"
proof -
  obtain a where a: "p = Some a" using assms(2) by blast
  obtain b where b: "pbufs st a = Some b" "unat (tot_len b) = length (content st as)"
    using packet_length[OF assms(1)[unfolded a]] by blast
  show ?thesis
    using assms b pbuf_take_loop_spec[of st p as bs]
    by (auto simp: pbuf_take_def a packet_def length_content)
qed

lemma pbuf_take_at_spec:
  assumes p: "packet st p as" and d: "distinct (addrs st as)"
  shows "pbuf_take_at p bs off st =
    (if unat off < length (content st as) \<and> unat off + length bs \<le> length (content st as)
     then Some (st\<lparr>bytes := blit (take (length bs) (drop (unat off) (addrs st as))) bs (bytes st)\<rparr>, ERR_OK)
     else Some (st, ERR_MEM))"
proof -
  have c: "chain st p as" "tot_ok st as"
    using p by (auto simp: packet_def)
  obtain q o' as1 as2 where q: "pbuf_skip_const p off st = Some (q, o')" "as = as1 @ as2" "chain st q as2"
    "unat off = length (content st as1) + unat o'" "\<forall>a b. q = Some a \<longrightarrow> pbufs st a = Some b \<longrightarrow> o' < len b"
    by (rule pbuf_skip_const_spec[OF c(1), of off])
  show ?thesis
  proof (cases as2)
    case Nil
    then show ?thesis using q by (simp add: pbuf_take_at_def pbuf_skip_def)
  next
    case (Cons a as')
    then obtain b where b: "q = Some a" "pbufs st a = Some b" "chain st (pnext b) as'" "o' < len b"
      using q(3,5) by auto
    have tl: "unat (tot_len b) = length (addrs st as2)" "tot_ok st as'"
      using tot_ok_append[of st as1 as2] c(2) b(2) by (auto simp: q(2) Cons length_content)
    have ol: "unat o' < unat (len b)"
      using b(4) by (simp add: word_less_nat_alt)
    let ?k = "min (unat (len b) - unat o') (length bs)"
    have ad: "addrs st as2 = [payload b..<payload b + unat (len b)] @ addrs st as'"
      by (simp add: Cons addrs_Cons[OF b(2)])
    have dr: "drop (unat off) (addrs st as) = drop (unat o') (addrs st as2)"
      using q(2,4) by (simp add: length_content)
    define st1 where "st1 = MEMCPY (payload b + unat o') (take ?k bs) st"
    have st1: "st1 = st\<lparr>bytes := blit [payload b + unat o'..<payload b + unat o' + ?k] (take ?k bs) (bytes st)\<rparr>"
      by (simp add: st1_def MEMCPY_blit)
    have fits: "unat off + length bs \<le> length (content st as) \<longleftrightarrow> unat o' + length bs \<le> length (addrs st as2)"
      "unat off < length (content st as)"
      using q(2,4) ol ad by (auto simp: length_content)
    show ?thesis
    proof (cases "unat o' + length bs \<le> length (addrs st as2)")
      case False
      then show ?thesis
        using q(1) b fits tl(1) by (simp add: pbuf_take_at_def pbuf_skip_def)
    next
      case True
      have "pbuf_take_at p bs off st =
          (if length bs - ?k > 0 then pbuf_take (pnext b) (Some (drop ?k bs)) st1 else Some (st1, ERR_OK))"
        using q(1) b True tl(1) by (simp add: pbuf_take_at_def pbuf_skip_def Let_def st1_def)
      also have "\<dots> = Some (st1\<lparr>bytes := blit (take (length bs - ?k) (addrs st as')) (drop ?k bs) (bytes st1)\<rparr>, ERR_OK)"
      proof (cases "length bs - ?k > 0")
        case gt: True
        then have k: "?k = unat (len b) - unat o'"
          by (simp add: min_def split: if_splits)
        have "length (addrs st as2) = unat (len b) + length (addrs st as')"
          by (simp add: ad)
        then have le: "length bs - ?k \<le> length (addrs st as')"
          using True ol k by linarith
        then have "as' \<noteq> []"
          using gt by auto
        then have "pnext b \<noteq> None"
          using b(3) by (cases as') auto
        moreover have "packet st1 (pnext b) as'" "distinct (addrs st1 as')"
          using b(3) tl(2) d q(2) ad by (auto simp: packet_def st1)
        moreover have "length (drop ?k bs) \<le> length (content st1 as')"
          using le by (simp only: length_content st1 addrs_bytes length_drop)
        moreover have "addrs st1 as' = addrs st as'"
          by (simp add: st1)
        ultimately show ?thesis
          using gt pbuf_take_spec[of st1 "pnext b" as' "drop ?k bs"] by (simp only: if_True length_drop simp_thms True_implies_equals)
      next
        case z: False
        then have "drop ?k bs = []"
          by simp
        then show ?thesis
          using z by (simp only: if_False blit_Nil) (simp add: st1)
      qed
      also have "st1\<lparr>bytes := blit (take (length bs - ?k) (addrs st as')) (drop ?k bs) (bytes st1)\<rparr> =
          st\<lparr>bytes := blit ([payload b + unat o'..<payload b + unat o' + ?k] @ take (length bs - ?k) (addrs st as'))
             (take ?k bs @ drop ?k bs) (bytes st)\<rparr>"
      proof (subst blit_append)
        show "set [payload b + unat o'..<payload b + unat o' + ?k] \<inter> set (take (length bs - ?k) (addrs st as')) = {}"
        proof -
          have "{payload b..<payload b + unat (len b)} \<inter> set (addrs st as') = {}"
            using d unfolding q(2) addrs_append ad by simp
          moreover have "set [payload b + unat o'..<payload b + unat o' + ?k] \<subseteq> {payload b..<payload b + unat (len b)}"
            using ol by auto
          ultimately show ?thesis
            using set_take_subset[of "length bs - ?k" "addrs st as'"] by blast
        qed
      qed (simp_all add: st1)
      also have "[payload b + unat o'..<payload b + unat o' + ?k] @ take (length bs - ?k) (addrs st as') =
          take (length bs) (drop (unat o') (addrs st as2))"
        using ol by (simp add: ad take_upt min_def)
      finally show ?thesis
        using True fits dr by simp
    qed
  qed
qed

lemma map_blit_slice:
  assumes "distinct ds" "k + length vs \<le> length ds"
  shows "map (blit (take (length vs) (drop k ds)) vs m) ds =
    take k (map m ds) @ vs @ drop (k + length vs) (map m ds)"
proof -
  let ?s = "take (length vs) (drop k ds)"
  have e: "ds = take k ds @ ?s @ drop (k + length vs) ds"
    by (metis add.commute append_take_drop_id drop_drop)
  have dd: "distinct (take k ds @ ?s @ drop (k + length vs) ds)"
    using assms(1) e by metis
  have "map (blit ?s vs m) (take k ds) = map m (take k ds)"
    by (rule map_blit_outside) (use dd in auto)
  moreover have "map (blit ?s vs m) (drop (k + length vs) ds) = map m (drop (k + length vs) ds)"
    by (rule map_blit_outside) (use dd in auto)
  moreover have "map (blit ?s vs m) ?s = vs"
    using dd assms(2) by (intro map_blit) auto
  ultimately have "map (blit ?s vs m) (take k ds @ ?s @ drop (k + length vs) ds) = map m (take k ds) @ vs @ map m (drop (k + length vs) ds)"
    by simp
  then show ?thesis
    using e by (simp add: take_map drop_map)
qed

end
