(* ===== verification/Pbuf_Memory.thy ===== *)
theory Pbuf_Memory
  imports Lwip_Pbuf
begin

section \<open>Packet buffers and the memory they own\<close>

text \<open>
  What \<open>pbuf.c\<close> does to the memory behind the buffers, proved on the model of \<open>Lwip_Pbuf\<close> with the
  laws of the interface \<open>allocator\<close> at its two providers, the heap and the pools: every operation
  keeps each buffer inside memory its allocator has handed out, reference counts decide what is
  given back, and the operations that change the shape of a chain (\<open>pbuf_realloc\<close>, \<open>pbuf_cat\<close>,
  \<open>pbuf_chain\<close>, \<open>pbuf_dechain\<close>, the headers) keep the \<open>tot_len\<close> invariant and the bytes.
\<close>

subsection \<open>Ownership of memory\<close>

definition in_block :: "nat \<Rightarrow> nat \<Rightarrow> pbuf \<Rightarrow> bool" where
  "in_block a n b = (a + 24 \<le> payload b \<and> payload b + unat (len b) \<le> a + n)"

definition owned :: "nat \<Rightarrow> (memp_t \<Rightarrow> memp_desc) \<Rightarrow> blocks \<Rightarrow> (memp_t \<Rightarrow> nat list) \<Rightarrow> nat \<Rightarrow> pbuf \<Rightarrow> bool" where
  "owned M pools bl fl a b =
     (if pflags b AND PBUF_FLAG_IS_CUSTOM \<noteq> 0 then M \<le> a \<and> (\<forall>t. a \<notin> set (pool_elems (pools t)))
      else
        type_internal b = 0x80 \<and> (\<exists>c. (a, c) \<in> used_at 0 bl \<and> in_block a c b) \<or>
        type_internal b \<in> {0x01, 0x41} \<and> a \<in> set (pool_elems (pools MEMP_PBUF)) - set (fl MEMP_PBUF) \<or>
        type_internal b = 0x82 \<and> a \<in> set (pool_elems (pools MEMP_PBUF_POOL)) - set (fl MEMP_PBUF_POOL) \<and>
          in_block a (desc_size (pools MEMP_PBUF_POOL)) b)"

definition pst_rep :: "nat \<Rightarrow> (memp_t \<Rightarrow> memp_desc) \<Rightarrow> blocks \<Rightarrow> (memp_t \<Rightarrow> nat list) \<Rightarrow> pst \<Rightarrow> bool" where
  "pst_rep M pools bl fl st =
     (heap_rel M (pheap st) bl \<and> pools_rel pools (pmemp st) fl \<and>
      (\<forall>t e. e \<in> set (pool_elems (pools t)) \<longrightarrow> M \<le> e) \<and>
      (\<forall>a b. pbufs st a = Some b \<longrightarrow> owned M pools bl fl a b))"

text \<open>Every \<open>struct pbuf\<close> lives in memory that its allocator has handed out, and the payload of the
  contiguous types lies in the same block, behind the structure.\<close>

definition pst_inv :: "nat \<Rightarrow> (memp_t \<Rightarrow> memp_desc) \<Rightarrow> pst \<Rightarrow> bool" where
  "pst_inv M pools st = (\<exists>bl fl. pst_rep M pools bl fl st)"

lemma chain_unique: "chain st p as \<Longrightarrow> chain st p bs \<Longrightarrow> as = bs"
proof (induction as arbitrary: p bs)
  case Nil
  then show ?case by (cases bs) auto
next
  case (Cons a as)
  then show ?case by (cases bs) auto
qed

lemma chain_suffix: "chain st p (as @ a # bs) \<Longrightarrow> chain st (Some a) (a # bs)"
  by (induction as arbitrary: p) auto

lemma chain_distinct: "chain st p as \<Longrightarrow> distinct as"
proof (induction as arbitrary: p)
  case (Cons a as)
  have "a \<notin> set as"
  proof
    assume "a \<in> set as"
    then obtain us vs where as: "as = us @ a # vs"
      by (meson split_list)
    then have "chain st (Some a) (a # vs)" "chain st (Some a) (a # as)"
      using Cons.prems chain_suffix[of st p "a # us" a vs] by auto
    then have "vs = as"
      using chain_unique by blast
    then show False using as by simp
  qed
  then show ?case
    using Cons by auto
qed simp

lemma owned_cong:
  "pflags c = pflags b \<Longrightarrow> type_internal c = type_internal b \<Longrightarrow> payload c = payload b \<Longrightarrow> len c = len b \<Longrightarrow>
   owned M pools bl fl a c = owned M pools bl fl a b"
  by (simp add: owned_def in_block_def)

lemma pst_rep_upd:
  assumes "pst_rep M pools bl fl st" "\<And>b. pbufs st a = Some b \<Longrightarrow> owned M pools bl fl a b \<Longrightarrow> owned M pools bl fl a (f b)"
  shows "pst_rep M pools bl fl (upd_pbuf a f st)"
  using assms unfolding pst_rep_def by (simp add: fun_upd_def) blast

text \<open>Writing \<open>next\<close>, \<open>tot_len\<close> or \<open>ref\<close> moves no memory.\<close>

lemma pst_inv_upd:
  assumes "pst_inv M pools st"
    and "\<And>b. pbufs st a = Some b \<Longrightarrow> pflags (f b) = pflags b \<and> type_internal (f b) = type_internal b \<and>
           payload (f b) = payload b \<and> len (f b) = len b"
  shows "pst_inv M pools (upd_pbuf a f st)"
proof -
  obtain bl fl where r: "pst_rep M pools bl fl st"
    using assms(1) by (auto simp: pst_inv_def)
  have "owned M pools bl fl a (f b)" if "pbufs st a = Some b" "owned M pools bl fl a b" for b
    using assms(2)[OF that(1)] that(2) owned_cong[of "f b" b M pools bl fl a] by blast
  then show ?thesis
    using pst_rep_upd[OF r, of a f] by (auto simp: pst_inv_def)
qed

lemma allocsrc_values:
  "type_internal b = 0x80 \<Longrightarrow> pbuf_get_allocsrc b = 0" "type_internal b = 0x82 \<Longrightarrow> pbuf_get_allocsrc b = 2"
  "type_internal b = 0x01 \<Longrightarrow> pbuf_get_allocsrc b = 1" "type_internal b = 0x41 \<Longrightarrow> pbuf_get_allocsrc b = 1"
  by (simp_all add: pbuf_get_allocsrc_def)

text \<open>Giving back the memory of one pbuf leaves the others theirs.\<close>

lemma owned_heap_less: "used_at 0 bl' = used_at 0 bl - {(a, c)} \<Longrightarrow> x \<noteq> a \<Longrightarrow> owned M pools bl fl x b \<Longrightarrow> owned M pools bl' fl x b"
  by (auto simp: owned_def split: if_splits)

lemma owned_pool_less: "x \<noteq> a \<Longrightarrow> owned M pools bl fl x b \<Longrightarrow> owned M pools bl (fl(t := a # fl t)) x b"
  by (auto simp: owned_def split: if_splits)

lemma pbuf_release_ok:
  assumes r: "pst_rep M pools bl fl st" and b: "pbufs st a = Some b0"
    and same: "pflags b0 = pflags b" "type_internal b0 = type_internal b"
  shows "\<exists>st'. pbuf_release M a b st = Some st' \<and> pst_inv M pools st' \<and> pbufs st' = (pbufs st)(a := None) \<and>
           bytes st' = bytes st"
proof -
  let ?st1 = "st\<lparr>pbufs := (pbufs st)(a := None)\<rparr>"
  have rep: "heap_rel M (pheap st) bl" "pools_rel pools (pmemp st) fl" "\<forall>t e. e \<in> set (pool_elems (pools t)) \<longrightarrow> M \<le> e"
    and ow: "\<And>x c. pbufs st x = Some c \<Longrightarrow> owned M pools bl fl x c"
    using r by (auto simp: pst_rep_def)
  have ob: "owned M pools bl fl a b0"
    using ow b by blast
  show ?thesis
  proof (cases "pflags b AND PBUF_FLAG_IS_CUSTOM \<noteq> 0")
    case True
    have "pst_rep M pools bl fl (?st1\<lparr>custom_freed := a # custom_freed st\<rparr>)"
      using rep ow by (auto simp: pst_rep_def)
    then show ?thesis
      using True by (auto simp: pbuf_release_def pst_inv_def Let_def)
  next
    case nc: False
    then consider (heap) c where "type_internal b = 0x80" "(a, c) \<in> used_at 0 bl"
      | (ref) "type_internal b \<in> {0x01, 0x41}" "a \<in> set (pool_elems (pools MEMP_PBUF)) - set (fl MEMP_PBUF)"
      | (pool) "type_internal b = 0x82" "a \<in> set (pool_elems (pools MEMP_PBUF_POOL)) - set (fl MEMP_PBUF_POOL)"
      using ob same by (auto simp: owned_def)
    then show ?thesis
    proof cases
      case heap
      obtain h bl' where h: "mem_free M (Some (int a)) (pheap st) = Some h" "heap_rel M h bl'"
          "used_at 0 bl' = used_at 0 bl - {(a, c)}"
        using mem.free_law[OF rep(1) heap(2)] by blast
      have "pst_rep M pools bl' fl (?st1\<lparr>pheap := h\<rparr>)"
        using rep h(2) ow owned_heap_less[OF h(3)] by (auto simp: pst_rep_def)
      then show ?thesis
        using nc h(1) allocsrc_values[of b] heap(1) by (auto simp: pbuf_release_def pst_inv_def Let_def)
    next
      case ref
      obtain mp where mp: "memp_free MEMP_PBUF (Some a) (pmemp st) = Some mp"
          "pools_rel pools mp (fl(MEMP_PBUF := a # fl MEMP_PBUF))"
        using memp_free_rel[OF rep(2) ref(2)] by blast
      have "pst_rep M pools bl (fl(MEMP_PBUF := a # fl MEMP_PBUF)) (?st1\<lparr>pmemp := mp\<rparr>)"
        using rep mp(2) ow owned_pool_less[of _ a M pools bl fl _ MEMP_PBUF] by (auto simp: pst_rep_def)
      then show ?thesis
        using nc mp(1) allocsrc_values[of b] ref(1) by (auto simp: pbuf_release_def pst_inv_def Let_def)
    next
      case pool
      obtain mp where mp: "memp_free MEMP_PBUF_POOL (Some a) (pmemp st) = Some mp"
          "pools_rel pools mp (fl(MEMP_PBUF_POOL := a # fl MEMP_PBUF_POOL))"
        using memp_free_rel[OF rep(2) pool(2)] by blast
      have "pst_rep M pools bl (fl(MEMP_PBUF_POOL := a # fl MEMP_PBUF_POOL)) (?st1\<lparr>pmemp := mp\<rparr>)"
        using rep mp(2) ow owned_pool_less[of _ a M pools bl fl _ MEMP_PBUF_POOL] by (auto simp: pst_rep_def)
      then show ?thesis
        using nc mp(1) allocsrc_values[of b] pool(1) by (auto simp: pbuf_release_def pst_inv_def Let_def)
    qed
  qed
qed

text \<open>How many pbufs at the head of a chain nobody else refers to.\<close>

definition sole :: "pst \<Rightarrow> nat \<Rightarrow> bool" where
  "sole st a = (\<exists>b. pbufs st a = Some b \<and> ref b = 1)"

definition freed_store :: "pst \<Rightarrow> nat list \<Rightarrow> nat \<Rightarrow> pbuf option" where
  "freed_store st as a =
     (if a \<in> set (takeWhile (sole st) as) then None
      else if dropWhile (sole st) as \<noteq> [] \<and> a = hd (dropWhile (sole st) as)
      then map_option (\<lambda>b. b\<lparr>ref := ref b - 1\<rparr>) (pbufs st a)
      else pbufs st a)"

lemma chain_cong: "(\<And>a. a \<in> set as \<Longrightarrow> pbufs st' a = pbufs st a) \<Longrightarrow> chain st' p as = chain st p as"
  by (induction as arbitrary: p) auto

lemma pbuf_free_loop_spec:
  assumes "pst_inv M pools st" "chain st p as" "\<forall>a \<in> set as. \<forall>b. pbufs st a = Some b \<longrightarrow> ref b \<noteq> 0"
  shows "\<exists>st'. pbuf_free_loop M p c st = Some (st', c + of_nat (length (takeWhile (sole st) as))) \<and>
           pst_inv M pools st' \<and> pbufs st' = freed_store st as \<and> bytes st' = bytes st"
  using assms
proof (induction as arbitrary: p c st)
  case Nil
  then show ?case
    by (subst pbuf_free_loop.simps) (auto simp: freed_store_def)
next
  case (Cons a as)
  then obtain b where b: "p = Some a" "pbufs st a = Some b" "chain st (pnext b) as" "ref b \<noteq> 0"
    by auto
  define st1 where "st1 = upd_pbuf a (\<lambda>b'. b'\<lparr>ref := ref b - 1\<rparr>) st"
  have i1: "pst_inv M pools st1"
    unfolding st1_def by (rule pst_inv_upd[OF Cons.prems(1)]) simp
  have a1: "pbufs st1 a = Some (b\<lparr>ref := ref b - 1\<rparr>)"
    by (simp add: st1_def b)
  have d: "a \<notin> set as"
    using chain_distinct[OF Cons.prems(2)] by simp
  show ?case
  proof (cases "ref b = 1")
    case False
    then have "ref b - 1 \<noteq> 0" by simp
    then have "pbuf_free_loop M p c st = Some (st1, c)"
      using b by (subst pbuf_free_loop.simps) (simp add: st1_def Let_def)
    moreover have "pbufs st1 = freed_store st (a # as)"
      using False b(2) by (auto simp: freed_store_def sole_def st1_def fun_eq_iff)
    ultimately show ?thesis
      using i1 False b(2) by (simp add: sole_def st1_def)
  next
    case True
    obtain bl fl where "pst_rep M pools bl fl st1"
      using i1 by (auto simp: pst_inv_def)
    from pbuf_release_ok[OF this a1, of b]
    obtain st2 where st2: "pbuf_release M a b st1 = Some st2" "pst_inv M pools st2" "pbufs st2 = (pbufs st1)(a := None)"
        "bytes st2 = bytes st1"
      by auto
    have eq: "pbufs st2 x = pbufs st x" if "x \<in> set as" for x
      using that d by (auto simp: st2(3) st1_def)
    have "chain st2 (pnext b) as"
      using b(3) chain_cong[OF eq] by blast
    then obtain st' where st': "pbuf_free_loop M (pnext b) (c + 1) st2 = Some (st', c + 1 + of_nat (length (takeWhile (sole st2) as)))"
        "pst_inv M pools st'" "pbufs st' = freed_store st2 as" "bytes st' = bytes st2"
      using Cons.IH[OF st2(2), of "pnext b" "c + 1"] Cons.prems(3) eq by auto
    have sa: "sole st a"
      using True b(2) by (simp add: sole_def)
    have sl: "sole st2 x = sole st x" if "x \<in> set as" for x
      using eq[OF that] by (simp add: sole_def)
    then have tw: "takeWhile (sole st2) as = takeWhile (sole st) as" "dropWhile (sole st2) as = dropWhile (sole st) as"
      by (auto intro: takeWhile_cong dropWhile_cong)
    have "pbuf_free_loop M p c st = Some (st', c + of_nat (length (takeWhile (sole st) (a # as))))"
    proof -
      have "st\<lparr>pbufs := (pbufs st)(a \<mapsto> b\<lparr>ref := 0\<rparr>)\<rparr> = st1"
        using True by (simp add: st1_def b)
      then show ?thesis
        using b True st2(1) st'(1) tw by (subst pbuf_free_loop.simps) (simp add: Let_def sole_def add.assoc)
    qed
    moreover have "pbufs st' = freed_store st (a # as)"
    proof
      fix x
      have hd: "hd (dropWhile (sole st) as) \<in> set as" if "dropWhile (sole st) as \<noteq> []"
        using that set_dropWhileD by (metis list.set_sel(1))
      show "pbufs st' x = freed_store st (a # as) x"
      proof (cases "x = a")
        case True
        then show ?thesis
          using \<open>ref b = 1\<close> b(2) d hd set_takeWhileD[of a "sole st" as]
          by (auto simp: st'(3) freed_store_def tw st2(3) sole_def)
      next
        case False
        then have "pbufs st2 x = pbufs st x"
          by (simp add: st2(3) st1_def)
        then show ?thesis
          using False sa by (auto simp: st'(3) freed_store_def tw)
      qed
    qed
    ultimately show ?thesis
      using st'(2,4) st2(4) by (simp add: st1_def)
  qed
qed

subsection \<open>Allocation, headers\<close>

lemma pst_rep_fresh:
  assumes "pst_rep M pools bl fl st"
  shows "a < M \<Longrightarrow> a \<notin> fst ` used_at 0 bl \<Longrightarrow> pbufs st a = None"
proof (rule ccontr)
  assume a: "a < M" "a \<notin> fst ` used_at 0 bl" and "pbufs st a \<noteq> None"
  then obtain b where "pbufs st a = Some b"
    by auto
  then have "owned M pools bl fl a b"
    using assms by (simp add: pst_rep_def)
  moreover have "a \<notin> set (pool_elems (pools t))" for t
    using assms a(1) unfolding pst_rep_def by (meson leD)
  moreover have "(a, c) \<notin> used_at 0 bl" for c
    using a(2) by force
  ultimately show False
    using a(1) by (auto simp: owned_def split: if_splits)
qed

lemma type_codes:
  "(ucast (pbuf_type_code PBUF_RAM) :: u8) = 0x80" "(ucast (pbuf_type_code PBUF_ROM) :: u8) = 0x01"
  "(ucast (pbuf_type_code PBUF_REF) :: u8) = 0x41" "(ucast (pbuf_type_code PBUF_POOL) :: u8) = 0x82"
  by code_simp+

lemma align_sizes [simp]: "SIZEOF_STRUCT_PBUF = 24" "PBUF_POOL_BUFSIZE_ALIGNED = 1504"
  by (simp_all add: SIZEOF_STRUCT_PBUF_def PBUF_POOL_BUFSIZE_ALIGNED_def LWIP_MEM_ALIGN_SIZE_def)

lemma align_size_ge: "n < 2 ^ 31 \<Longrightarrow> n \<le> LWIP_MEM_ALIGN_SIZE n \<and> LWIP_MEM_ALIGN_SIZE n < n + 8 \<and> 8 dvd LWIP_MEM_ALIGN_SIZE n"
  by (auto simp: LWIP_MEM_ALIGN_SIZE_def)

lemma align_payload:
  "8 dvd a \<Longrightarrow> LWIP_MEM_ALIGN (a + 24 + layer_offset l) = a + 24 + LWIP_MEM_ALIGN_SIZE (layer_offset l)"
  by (cases l) (auto simp: LWIP_MEM_ALIGN_def LWIP_MEM_ALIGN_SIZE_def elim!: dvdE)

lemma pbuf_alloc_ram_ok:
  assumes inv: "pst_inv M pools st"
  shows "pbuf_alloc M l n PBUF_RAM st = Some (st, None) \<or>
    (\<exists>st' p b. pbuf_alloc M l n PBUF_RAM st = Some (st', Some p) \<and> pst_inv M pools st' \<and> pbufs st p = None \<and>
       pbufs st' = (pbufs st)(p \<mapsto> b) \<and> bytes st' = bytes st \<and> packet st' (Some p) [p] \<and>
       length (content st' [p]) = unat n \<and> ref b = 1 \<and> payload b mod 8 = 0 \<and> p + 24 + layer_offset l \<le> payload b)"
proof -
  obtain bl fl where r: "pst_rep M pools bl fl st"
    using inv by (auto simp: pst_inv_def)
  then have rep: "heap_rel M (pheap st) bl" "pools_rel pools (pmemp st) fl" "\<forall>t e. e \<in> set (pool_elems (pools t)) \<longrightarrow> M \<le> e"
    and ow: "\<And>x c. pbufs st x = Some c \<Longrightarrow> owned M pools bl fl x c"
    by (auto simp: pst_rep_def)
  let ?o = "LWIP_MEM_ALIGN_SIZE (layer_offset l)" and ?n = "LWIP_MEM_ALIGN_SIZE (unat n)"
  have o: "layer_offset l \<le> ?o" "?o \<le> 56" "8 dvd ?o"
    by (cases l; simp add: LWIP_MEM_ALIGN_SIZE_def)+
  have nl: "unat n < 65536" by simp
  have "unat n < 2 ^ 31"
    by (rule order_less_trans[OF nl]) simp
  from align_size_ge[OF this] have nn: "unat n \<le> ?n" "?n < 65544" "8 dvd ?n"
    using nl by linarith+
  let ?k = "24 + ?o + ?n"
  have len: "(?o + ?n) mod 2 ^ 32 = ?o + ?n" "(LWIP_MEM_ALIGN_SIZE SIZEOF_STRUCT_PBUF + (?o + ?n)) mod 2 ^ 32 = ?k"
    using o(2) nn(2) by (simp_all add: LWIP_MEM_ALIGN_SIZE_def[of 24])
  have "mem_fits ?k"
    using o(2) nn(2) by (simp add: mem_fits_def)
  from mem.alloc_law[OF rep(1) this] show ?thesis
  proof (elim disjE exE conjE)
    assume "mem_malloc M ?k (pheap st) = Some (pheap st, None)"
    then show ?thesis
      unfolding pbuf_alloc_def Let_def pbuf_type.case len by simp
  next
    fix h bl' p c
    assume h: "mem_malloc M ?k (pheap st) = Some (h, Some (int p))" "heap_rel M h bl'" "?k \<le> c" "p \<notin> fst ` used_at 0 bl"
      "used_at 0 bl' = insert (p, c) (used_at 0 bl)"
    have "seg h 0 0 bl'" "total bl' = M" "(p, c) \<in> used_at 0 bl'"
      using h(2,5) by (auto simp: heap_rel_def linked_def)
    from used_at_range[OF this(1,3)] this(2) have p: "8 dvd p" "p < M" "p + c \<le> M"
      by auto
    define pl where "pl = p + 24 + ?o"
    have pl: "LWIP_MEM_ALIGN (p + SIZEOF_STRUCT_PBUF + layer_offset l) = pl" "pl mod 8 = 0"
      using align_payload[OF p(1)] o(3) p(1) by (simp_all add: pl_def)
    define b :: pbuf where "b = \<lparr>pnext = None, payload = pl, tot_len = n, len = n, type_internal = 0x80,
        pflags = 0, ref = 1, if_idx = 0\<rparr>"
    define st' where "st' = st\<lparr>pheap := h, pbufs := (pbufs st)(p \<mapsto> b)\<rparr>"
    have al: "pbuf_alloc M l n PBUF_RAM st = Some (st', Some p)"
      unfolding pbuf_alloc_def Let_def pbuf_type.case len h(1) using pl
      by (simp add: pbuf_init_alloced_pbuf_def st'_def b_def type_codes del: pbuf_type_code.simps)
    have "owned M pools bl' fl p b"
      using h(3,5) nn(1) by (auto simp: owned_def in_block_def b_def pl_def)
    moreover have "owned M pools bl' fl x d" if "pbufs st x = Some d" for x d
      using ow[OF that] h(5) by (auto simp: owned_def split: if_splits)
    ultimately have "pst_rep M pools bl' fl st'"
      using rep(2,3) h(2) by (auto simp: pst_rep_def st'_def)
    moreover have "pbufs st p = None"
      using pst_rep_fresh(1)[OF r p(2) h(4)] .
    moreover have "packet st' (Some p) [p]" "length (content st' [p]) = unat n"
      by (simp_all add: packet_def st'_def b_def content_def segment_def)
    ultimately show ?thesis
      using al pl(2) o(1) by (auto simp: pst_inv_def st'_def b_def pl_def)
  qed
qed

subsection \<open>Moving the payload\<close>

lemma unat_add_le: "unat (x + y :: u16) \<le> unat x + unat y"
  by (simp add: unat_u16_add)

lemma pbufs_update_same: "pbufs st a = Some b \<Longrightarrow> st\<lparr>pbufs := (pbufs st)(a \<mapsto> b)\<rparr> = st"
  by (simp add: fun_upd_idem)

lemma owned_moved:
  assumes "owned M pools bl fl a b" "pflags c = pflags b" "type_internal c = type_internal b"
    and "type_internal b \<in> {0x80, 0x82} \<Longrightarrow> pflags b AND PBUF_FLAG_IS_CUSTOM = 0 \<Longrightarrow>
      a + 24 \<le> payload c \<and> payload c + unat (len c) \<le> payload b + unat (len b)"
  shows "owned M pools bl fl a c"
proof (cases "pflags b AND PBUF_FLAG_IS_CUSTOM = 0")
  case True
  have "in_block a k c" if "in_block a k b" "type_internal b \<in> {0x80, 0x82}" for k
    using that assms(4)[OF that(2) True] by (auto simp: in_block_def)
  then show ?thesis
    using assms(1-3) True by (auto simp: owned_def)
qed (use assms in \<open>simp add: owned_def\<close>)

lemma pst_inv_moved:
  assumes "pst_inv M pools st" "pbufs st a = Some b" "pflags (f b) = pflags b" "type_internal (f b) = type_internal b"
    and "type_internal b \<in> {0x80, 0x82} \<Longrightarrow> pflags b AND PBUF_FLAG_IS_CUSTOM = 0 \<Longrightarrow>
      a + 24 \<le> payload b \<Longrightarrow> a + 24 \<le> payload (f b) \<and> payload (f b) + unat (len (f b)) \<le> payload b + unat (len b)"
  shows "pst_inv M pools (upd_pbuf a f st)"
proof -
  obtain bl fl where r: "pst_rep M pools bl fl st"
    using assms(1) by (auto simp: pst_inv_def)
  have "owned M pools bl fl a b"
    using r assms(2) by (simp add: pst_rep_def)
  note o = this
  have "a + 24 \<le> payload b" if "type_internal b \<in> {0x80, 0x82}" "pflags b AND PBUF_FLAG_IS_CUSTOM = 0"
    using that o by (auto simp: owned_def in_block_def)
  then have "owned M pools bl fl a (f b)"
    by (intro owned_moved[OF o assms(3,4)] assms(5))
  then have "pst_rep M pools bl fl (upd_pbuf a f st)"
    using pst_rep_upd[OF r, of a f] assms(2) by simp
  then show ?thesis
    by (auto simp: pst_inv_def)
qed

lemma contiguous_types: "ucast (t :: u8) AND PBUF_TYPE_FLAG_STRUCT_DATA_CONTIGUOUS = 0 \<Longrightarrow> t \<noteq> 0x80 \<and> t \<noteq> 0x82"
  by (auto simp: PBUF_TYPE_FLAG_STRUCT_DATA_CONTIGUOUS_def)

lemma pbuf_add_header_cases:
  assumes "pbufs st a = Some b" "pbuf_add_header (Some a) n st = Some (st', failed)"
  shows "failed \<and> st' = st \<or> \<not> failed \<and> n = 0 \<and> st' = st \<or>
    \<not> failed \<and> 0 < n \<and> n \<le> 0xFFFF \<and> a + 24 + n \<le> payload b \<and> n + unat (tot_len b) < 65536 \<and>
    st' = upd_pbuf a (\<lambda>b. b\<lparr>payload := payload b - n, len := len b + of_nat n, tot_len := tot_len b + of_nat n\<rparr>) st"
proof -
  have w: "n + unat (tot_len b) < 65536" if "n \<le> 0xFFFF" "\<not> of_nat n + tot_len b < (of_nat n :: u16)"
  proof (rule ccontr)
    assume big: "\<not> ?thesis"
    then have "(n + unat (tot_len b)) mod 65536 = n + unat (tot_len b) - 65536"
      using that(1) big unat_u16_less[of "tot_len b"] by (simp add: mod_if del: unat_u16_less)
    then show False
      using that big unat_u16_less[of "tot_len b"]
      by (simp add: word_less_nat_alt unat_u16_add unat_u16_of_nat del: unat_u16_less)
  qed
  consider "n > 0xFFFF" | "n = 0" | "0 < n" "n \<le> 0xFFFF" "of_nat n + tot_len b < (of_nat n :: u16)"
    | "0 < n" "n \<le> 0xFFFF" "\<not> of_nat n + tot_len b < (of_nat n :: u16)"
    by linarith
  then show ?thesis
  proof cases
    case 4
    show ?thesis
      using assms w[OF 4(2,3)] 4
      by (simp add: pbuf_add_header_def pbuf_add_header_impl_def Let_def SIZEOF_STRUCT_PBUF_def split: if_splits)
  qed (use assms in \<open>simp_all add: pbuf_add_header_def pbuf_add_header_impl_def Let_def\<close>)
qed

lemma pbuf_remove_header_cases:
  assumes "pbufs st a = Some b" "pbuf_remove_header (Some a) n st = Some (st', failed)"
  shows "failed \<and> st' = st \<or> \<not> failed \<and> n = 0 \<and> st' = st \<or>
    \<not> failed \<and> 0 < n \<and> n \<le> unat (len b) \<and>
    st' = upd_pbuf a (\<lambda>b. b\<lparr>payload := payload b + n, len := len b - of_nat n, tot_len := tot_len b - of_nat n\<rparr>) st"
proof -
  consider "n > 0xFFFF" | "n = 0" | "0 < n" "n \<le> 0xFFFF"
    by linarith
  then show ?thesis
  proof cases
    case 3
    then show ?thesis
      using assms by (simp add: pbuf_remove_header_def Let_def word_le_nat_alt unat_u16_of_nat split: if_splits)
  qed (use assms in \<open>simp_all add: pbuf_remove_header_def Let_def\<close>)
qed


lemma pbuf_add_header_inv:
  assumes "pst_inv M pools st" "pbufs st a = Some b" "pbuf_add_header (Some a) n st = Some (st', failed)"
  shows "pst_inv M pools st'"
  using pbuf_add_header_cases[OF assms(2,3)]
proof (elim disjE conjE)
  assume h: "a + 24 + n \<le> payload b" "n \<le> 0xFFFF"
    and st': "st' = upd_pbuf a (\<lambda>b. b\<lparr>payload := payload b - n, len := len b + of_nat n, tot_len := tot_len b + of_nat n\<rparr>) st"
  have "unat (len b + of_nat n) \<le> unat (len b) + n"
    using unat_add_le[of "len b" "of_nat n"] h(2) by (simp add: unat_u16_of_nat)
  then have "payload b - n + unat (len b + of_nat n) \<le> payload b + unat (len b)" "a + 24 \<le> payload b - n"
    using h(1) by linarith+
  then show ?thesis
    unfolding st' by (intro pst_inv_moved[OF assms(1,2)]) (simp_all del: Nat.add_diff_assoc2)
qed (use assms(1) in simp_all)

lemma pbuf_remove_header_inv:
  assumes "pst_inv M pools st" "pbufs st a = Some b" "pbuf_remove_header (Some a) n st = Some (st', failed)"
  shows "pst_inv M pools st'"
  using pbuf_remove_header_cases[OF assms(2,3)]
proof (elim disjE conjE)
  assume h: "n \<le> unat (len b)"
    and st': "st' = upd_pbuf a (\<lambda>b. b\<lparr>payload := payload b + n, len := len b - of_nat n, tot_len := tot_len b - of_nat n\<rparr>) st"
  have "of_nat n \<le> len b"
    using h unat_u16_less[of "len b"] by (simp add: word_le_nat_alt unat_u16_of_nat del: unat_u16_less)
  then have "unat (len b - of_nat n) = unat (len b) - n"
    using h unat_u16_less[of "len b"] by (simp add: unat_sub unat_u16_of_nat del: unat_u16_less)
  then show ?thesis
    unfolding st' by (intro pst_inv_moved[OF assms(1,2)]) (use h in simp_all)
qed (use assms(1) in simp_all)

lemma pbuf_add_remove_header:
  assumes "pbufs st a = Some b" "len b \<le> tot_len b" "pbuf_add_header (Some a) n st = Some (st', False)"
  shows "pbuf_remove_header (Some a) n st' = Some (st, False)"
  using pbuf_add_header_cases[OF assms(1,3)]
proof (elim disjE conjE)
  assume h: "0 < n" "n \<le> 0xFFFF" "n + unat (tot_len b) < 65536" "a + 24 + n \<le> payload b"
    and st': "st' = upd_pbuf a (\<lambda>b. b\<lparr>payload := payload b - n, len := len b + of_nat n, tot_len := tot_len b + of_nat n\<rparr>) st"
  have "of_nat n \<le> len b + of_nat n"
    using h assms(2) by (simp add: word_le_nat_alt unat_u16_add unat_u16_of_nat)
  then show ?thesis
    using h assms(1) unfolding st'
    by (simp add: pbuf_remove_header_def Let_def pbufs_update_same)
qed (use assms in \<open>simp_all add: pbuf_remove_header_def\<close>)

subsection \<open>Joining, splitting and trimming chains\<close>

lemma segment_upd [simp]:
  "segment (upd_pbuf a f st) x = (if x = a then (case pbufs st a of None \<Rightarrow> [] | Some b \<Rightarrow> rd st (payload (f b)) (unat (len (f b)))) else segment st x)"
  by (auto simp: segment_def rd_def split: option.split)

lemma content_upd_outside: "a \<notin> set as \<Longrightarrow> content (upd_pbuf a f st) as = content st as"
  by (induction as) (auto simp: content_def)

lemma content_upd_shape:
  "(\<And>b. payload (f b) = payload b \<and> len (f b) = len b) \<Longrightarrow> content (upd_pbuf a f st) as = content st as"
  by (induction as) (auto simp: content_def segment_def rd_def split: option.split)

lemma chain_upd_outside: "a \<notin> set as \<Longrightarrow> chain (upd_pbuf a f st) p as = chain st p as"
  by (rule chain_cong) auto

lemma tot_ok_cong:
  "(\<And>a. a \<in> set as \<Longrightarrow> pbufs st' a = pbufs st a) \<Longrightarrow> bytes st' = bytes st \<Longrightarrow> tot_ok st' as = tot_ok st as \<and> content st' as = content st as"
  by (induction as) (auto simp: content_def segment_def rd_def split: option.split)

lemma tot_ok_upd_outside: "a \<notin> set as \<Longrightarrow> tot_ok (upd_pbuf a f st) as = tot_ok st as"
  by (rule tot_ok_cong[THEN conjunct1]) auto

lemma pbuf_cat_loop_spec:
  assumes "packet st (Some h) (h # hs)" "packet st (Some t) ts" "set (h # hs) \<inter> set ts = {}"
    and "length (content st (h # hs)) + length (content st ts) < 65536"
  shows "\<exists>st'. pbuf_cat_loop t h st = Some st' \<and> packet st' (Some h) ((h # hs) @ ts) \<and>
    content st' ((h # hs) @ ts) = content st (h # hs) @ content st ts \<and> bytes st' = bytes st \<and>
    (\<forall>x. x \<notin> set (h # hs) \<longrightarrow> pbufs st' x = pbufs st x) \<and> (\<forall>M pools. pst_inv M pools st \<longrightarrow> pst_inv M pools st')"
  using assms
proof (induction hs arbitrary: h st)
  case Nil
  obtain b where b: "pbufs st h = Some b" "pnext b = None" "unat (tot_len b) = unat (len b)"
    using Nil.prems(1) by (auto simp: packet_def content_Cons)
  then have tl: "tot_len b = len b"
    by (simp add: word_unat_eq_iff)
  obtain c ts' where c: "pbufs st t = Some c" "ts = t # ts'" "unat (tot_len c) = length (content st ts)"
    using packet_length[OF Nil.prems(2)] by auto
  let ?f = "\<lambda>b. b\<lparr>tot_len := tot_len b + tot_len c, pnext := Some t\<rparr>"
  let ?st = "upd_pbuf h ?f st"
  have h: "h \<notin> set ts"
    using Nil.prems(3) by simp
  have cont: "content ?st as = content st as" for as
    by (rule content_upd_shape) simp
  have "unat (tot_len b + tot_len c) = length (content st (h # ts))"
    using Nil.prems(4) b c by (simp add: unat_u16_add content_Cons)
  moreover have "chain ?st (Some t) ts" "tot_ok ?st ts"
    using Nil.prems(2) unfolding packet_def by (simp_all only: chain_upd_outside[OF h] tot_ok_upd_outside[OF h])
  moreover have "pbufs ?st h = Some (?f b)"
    using b by simp
  ultimately have "packet ?st (Some h) (h # ts)"
    by (simp only: packet_def cont chain.simps tot_ok.simps option.inject ex_simps) simp
  moreover have "pbuf_cat_loop t h st = Some ?st"
    using b c tl by (subst pbuf_cat_loop.simps) simp
  moreover have "pst_inv M pools st \<Longrightarrow> pst_inv M pools ?st" for M pools
    by (rule pst_inv_upd) simp_all
  ultimately show ?case
    by (intro exI[of _ ?st]) (simp add: cont del: content_append, simp add: content_def)
next
  case (Cons a hs)
  obtain b where b: "pbufs st h = Some b" "pnext b = Some a" "chain st (Some a) (a # hs)"
      "unat (tot_len b) = length (content st (h # a # hs))" "tot_ok st (a # hs)"
    using Cons.prems(1) unfolding packet_def by auto
  obtain c ts' where c: "pbufs st t = Some c" "ts = t # ts'" "unat (tot_len c) = length (content st ts)"
    using packet_length[OF Cons.prems(2)] by auto
  let ?f = "\<lambda>b. b\<lparr>tot_len := tot_len b + tot_len c\<rparr>"
  let ?st = "upd_pbuf h ?f st"
  have h: "h \<notin> set ts" "h \<notin> set (a # hs)"
    using Cons.prems(1,3) chain_distinct[of st "Some h" "h # a # hs"] unfolding packet_def by auto
  have cont: "content ?st as = content st as" for as
    by (rule content_upd_shape) simp
  have p1: "packet ?st (Some a) (a # hs)" "packet ?st (Some t) ts"
    using Cons.prems(2) b(3,5) unfolding packet_def
    by (simp_all only: chain_upd_outside[OF h(1)] tot_ok_upd_outside[OF h(1)] chain_upd_outside[OF h(2)] tot_ok_upd_outside[OF h(2)] simp_thms)
  have d: "set (a # hs) \<inter> set ts = {}" "length (content ?st (a # hs)) + length (content ?st ts) < 65536"
    using Cons.prems(3,4) b(1) unfolding cont by (auto simp: content_Cons)
  obtain st' where st': "pbuf_cat_loop t a ?st = Some st'" "packet st' (Some a) ((a # hs) @ ts)"
      "content st' ((a # hs) @ ts) = content ?st (a # hs) @ content ?st ts" "bytes st' = bytes ?st"
      "\<forall>x. x \<notin> set (a # hs) \<longrightarrow> pbufs st' x = pbufs ?st x" "\<forall>M pools. pst_inv M pools ?st \<longrightarrow> pst_inv M pools st'"
    using Cons.IH[OF p1 d] by blast
  have hb: "pbufs st' h = Some (?f b)"
    using st'(5) h b(1) by simp
  have cc: "content st' ((h # a # hs) @ ts) = content st (h # a # hs) @ content st ts"
    using st'(3)[unfolded cont] st'(4) b(1) hb by (simp add: content_Cons rd_def del: content_append)
  have "unat (tot_len b + tot_len c) = length (content st' ((h # a # hs) @ ts))"
    using Cons.prems(4) b(4) c(3) unfolding cc by (simp add: unat_u16_add)
  then have "packet st' (Some h) ((h # a # hs) @ ts)"
    using st'(2) hb b(2) by (simp add: packet_def)
  moreover have "pbuf_cat_loop t h st = Some st'"
    using b c st'(1) by (subst pbuf_cat_loop.simps) simp
  moreover have "pst_inv M pools st \<Longrightarrow> pst_inv M pools st'" for M pools
    by (intro st'(6)[rule_format] pst_inv_upd) simp_all
  ultimately show ?case
    using cc st'(4,5) by (intro exI[of _ st']) simp
qed

definition shape :: "pbuf \<Rightarrow> nat option \<times> nat \<times> u16 \<times> u16" where
  "shape b = (pnext b, payload b, len b, tot_len b)"

lemma shapeD:
  assumes "map_option shape x = map_option shape y" "y = Some b"
  obtains c where "x = Some c" "pnext c = pnext b" "payload c = payload b" "len c = len b" "tot_len c = tot_len b"
  using assms by (cases x) (auto simp: shape_def)

lemma shape_ref: "map_option shape (map_option (\<lambda>b. b\<lparr>ref := ref b + r\<rparr>) x) = map_option shape x"
  by (cases x) (simp_all add: shape_def)

lemma packet_shape1:
  assumes "\<And>a. a \<in> set as \<Longrightarrow> map_option shape (pbufs st' a) = map_option shape (pbufs st a)" "bytes st' = bytes st"
    and "chain st p as"
  shows "chain st' p as \<and> content st' as = content st as \<and> (tot_ok st as \<longrightarrow> tot_ok st' as)"
  using assms(1,3)
proof (induction as arbitrary: p)
  case (Cons a as)
  obtain b where b: "p = Some a" "pbufs st a = Some b" "chain st (pnext b) as"
    using Cons.prems by auto
  obtain c where c: "pbufs st' a = Some c" "pnext c = pnext b" "payload c = payload b" "len c = len b" "tot_len c = tot_len b"
    using shapeD[OF Cons.prems(1) b(2)] by auto
  have i: "chain st' (pnext b) as \<and> content st' as = content st as \<and> (tot_ok st as \<longrightarrow> tot_ok st' as)"
    by (rule Cons.IH) (use Cons.prems b in simp_all)
  then have "content st' (a # as) = content st (a # as)"
    using b c assms(2) by (simp add: content_Cons rd_def)
  then show ?case
    using b c i by simp
qed auto

lemma packet_shape:
  assumes "\<And>a. a \<in> set as \<Longrightarrow> map_option shape (pbufs st' a) = map_option shape (pbufs st a)" "bytes st' = bytes st"
    and "packet st p as"
  shows "packet st' p as" "content st' as = content st as"
  using packet_shape1[of as st' st p, OF assms(1,2)] assms(3) by (auto simp: packet_def)

lemma pbuf_cat_spec:
  assumes "packet st (Some h) hs" "packet st (Some t) ts" "set hs \<inter> set ts = {}"
    and "length (content st hs) + length (content st ts) < 65536"
  shows "\<exists>st'. pbuf_cat (Some h) (Some t) st = Some st' \<and> packet st' (Some h) (hs @ ts) \<and>
    content st' (hs @ ts) = content st hs @ content st ts \<and> bytes st' = bytes st \<and>
    (\<forall>x. x \<notin> set hs \<longrightarrow> pbufs st' x = pbufs st x) \<and> (\<forall>M pools. pst_inv M pools st \<longrightarrow> pst_inv M pools st')"
proof -
  obtain hs' ts' where e: "hs = h # hs'" "ts = t # ts'"
    using packet_length[OF assms(1)] packet_length[OF assms(2)] by auto
  then have "h \<noteq> t"
    using assms(3) by auto
  then show ?thesis
    using pbuf_cat_loop_spec[of st h hs' t ts] assms e(1) by (simp add: pbuf_cat_def)
qed

lemma pbuf_dechain_step:
  assumes "pbufs st p = Some b" "pnext b = Some q" "pbufs st q = Some c" "p \<noteq> q" "ref c \<noteq> 0" "ref c \<noteq> 1"
    and "uint (tot_len c) = uint (tot_len b) - uint (len b)"
  shows "pbuf_dechain M p st = Some (st\<lparr>pbufs := (pbufs st)
    (q \<mapsto> c\<lparr>tot_len := tot_len b - len b, ref := ref c - 1\<rparr>, p \<mapsto> b\<lparr>pnext := None, tot_len := len b\<rparr>)\<rparr>, Some q)"
proof -
  let ?st = "st\<lparr>pbufs := (pbufs st)(q \<mapsto> c\<lparr>tot_len := tot_len b - len b\<rparr>, p \<mapsto> b\<lparr>pnext := None, tot_len := len b\<rparr>)\<rparr>"
  have f: "pbuf_free M (Some q) ?st = Some (st\<lparr>pbufs := (pbufs st)
    (q \<mapsto> c\<lparr>tot_len := tot_len b - len b, ref := ref c - 1\<rparr>, p \<mapsto> b\<lparr>pnext := None, tot_len := len b\<rparr>)\<rparr>, 0)"
    using assms by (simp add: pbuf_free_def pbuf_free_loop.simps Let_def fun_upd_twist)
  show ?thesis
    using assms f by (simp add: pbuf_dechain_def Let_def)
qed

lemma map_restore: "f h = Some b \<Longrightarrow> f t = Some c \<Longrightarrow> (\<And>x. x \<noteq> h \<Longrightarrow> x \<noteq> t \<Longrightarrow> g x = f x) \<Longrightarrow> g(t \<mapsto> c, h \<mapsto> b) = f"
  by auto

lemma pbuf_chain_dechain:
  assumes h: "packet st (Some h) [h]" and t: "packet st (Some t) ts" "h \<notin> set ts" and c: "pbufs st t = Some c" "0 < ref c"
    "ref c + 1 \<noteq> 0" and fits: "length (content st [h]) + length (content st ts) < 65536"
    and inv: "pst_inv M pools st"
  shows "\<exists>st1 st2. pbuf_chain (Some h) (Some t) st = Some st1 \<and> packet st1 (Some h) (h # ts) \<and>
    pbuf_dechain M h st1 = Some (st2, Some t) \<and> pbufs st2 = pbufs st \<and> bytes st2 = bytes st"
proof -
  obtain b where b: "pbufs st h = Some b" "pnext b = None" "unat (tot_len b) = unat (len b)"
    using h by (auto simp: packet_def content_Cons)
  then have tl: "tot_len b = len b"
    by (simp add: word_unat_eq_iff)
  have ne: "h \<noteq> t" and tc: "unat (tot_len c) = length (content st ts)"
    using packet_length[OF t(1)] t(2) c(1) by auto
  let ?st = "upd_pbuf h (\<lambda>b. b\<lparr>tot_len := tot_len b + tot_len c, pnext := Some t\<rparr>) st"
  let ?st1 = "upd_pbuf t (\<lambda>b. b\<lparr>ref := ref b + 1\<rparr>) ?st"
  have cat: "pbuf_cat (Some h) (Some t) st = Some ?st"
    using b c tl ne by (subst pbuf_cat_def) (simp add: pbuf_cat_loop.simps)
  have pk: "packet ?st (Some h) (h # ts)"
    using pbuf_cat_spec[OF h t(1) _ fits] t(2) cat by simp
  have nz: "ref c + 1 \<noteq> 1"
    using c(2) by simp
  have sum: "unat (tot_len b + tot_len c) = unat (len b) + unat (tot_len c)"
    using fits b tc by (simp add: unat_u16_add content_Cons)
  then have "uint (len b + tot_len c) = uint (len b) + uint (tot_len c)"
    by (metis uint_nat of_nat_add tl)
  note u = this
  have "pbuf_chain (Some h) (Some t) st = Some ?st1"
    using b c ne by (simp add: pbuf_chain_def cat pbuf_ref_def)
  moreover have "packet ?st1 (Some h) (h # ts)"
    by (rule packet_shape(1)[OF _ _ pk]) (simp_all add: shape_ref del: option.map_comp)
  moreover obtain st2 where "pbuf_dechain M h ?st1 = Some (st2, Some t)" "pbufs st2 = pbufs st" "bytes st2 = bytes st"
  proof -
    define B C where "B = b\<lparr>tot_len := tot_len b + tot_len c, pnext := Some t\<rparr>" and "C = c\<lparr>ref := ref c + 1\<rparr>"
    have f: "pbufs ?st1 h = Some B" "pbufs ?st1 t = Some C"
      using b c ne by (simp_all add: B_def C_def)
    have d: "pnext B = Some t" "ref C \<noteq> 0" "ref C \<noteq> 1" "uint (tot_len C) = uint (tot_len B) - uint (len B)"
      using c nz u tl by (simp_all add: B_def C_def)
    have "pbufs ?st1 x = pbufs st x" if "x \<noteq> h" "x \<noteq> t" for x
      using that by simp
    moreover have "C\<lparr>tot_len := tot_len B - len B, ref := ref C - 1\<rparr> = c" "B\<lparr>pnext := None, tot_len := len B\<rparr> = b"
      using b tl by (simp_all add: B_def C_def)
    ultimately have "(pbufs ?st1)(t \<mapsto> C\<lparr>tot_len := tot_len B - len B, ref := ref C - 1\<rparr>, h \<mapsto> B\<lparr>pnext := None, tot_len := len B\<rparr>) = pbufs st"
      using map_restore[of "pbufs st" h b t c "pbufs ?st1"] b(1) c(1) by simp
    then show thesis
      using that[OF pbuf_dechain_step[OF f(1) d(1) f(2) ne d(2-4)]] by simp
  qed
  ultimately show ?thesis
    by blast
qed

lemma pbuf_realloc_loop_spec:
  assumes "packet st (Some q) as" "unat r \<le> length (content st as)" "unat sh + unat r = length (content st as)"
    and "pst_inv M pools st"
  shows "\<exists>st' q' r' as1 as2. pbuf_realloc_loop sh q r st = Some (st', q', r') \<and> as = as1 @ q' # as2 \<and>
    pst_inv M pools st' \<and> bytes st' = bytes st \<and> unat r = length (content st as1) + unat r' \<and>
    (\<exists>b. pbufs st q' = Some b \<and> r' \<le> len b) \<and>
    pbufs st' = (\<lambda>x. if x \<in> set as1 then map_option (\<lambda>b. b\<lparr>tot_len := tot_len b - sh\<rparr>) (pbufs st x) else pbufs st x)"
  using assms
proof (induction as arbitrary: q r st)
  case Nil
  then show ?case by (simp add: packet_def)
next
  case (Cons a as)
  obtain b where b: "q = a" "pbufs st a = Some b" "chain st (pnext b) as" "tot_ok st as"
      "unat (tot_len b) = length (content st (a # as))"
    using Cons.prems(1) unfolding packet_def by auto
  show ?case
  proof (cases "r > len b")
    case False
    then have "pbuf_realloc_loop sh q r st = Some (st, a, r)"
      using b by (subst pbuf_realloc_loop.simps) simp
    then show ?thesis
      using False b Cons.prems(4)
      by - (rule exI[of _ st], rule exI[of _ a], rule exI[of _ r], rule exI[of _ "[]"], rule exI[of _ as], simp add: not_less)
  next
    case True
    let ?f = "\<lambda>b. b\<lparr>tot_len := tot_len b - sh\<rparr>"
    let ?st = "upd_pbuf a ?f st"
    have a: "a \<notin> set as"
      using Cons.prems(1) chain_distinct[of st "Some q" "a # as"] unfolding packet_def by auto
    have cont: "content ?st xs = content st xs" for xs
      by (rule content_upd_shape) simp
    have lr: "unat (r - len b) = unat r - unat (len b)" "unat (len b) < unat r"
      using True by (simp_all add: unat_sub word_less_nat_alt word_le_nat_alt)
    have la: "length (content st (a # as)) = unat (len b) + length (content st as)"
      using b(2) by (simp add: content_Cons)
    obtain a2 as' where as: "as = a2 # as'" "pnext b = Some a2"
      using b(3) la lr(2) Cons.prems(2) by (cases as) auto
    have "chain ?st (pnext b) as" "tot_ok ?st as"
      using b(3,4) by (simp_all only: chain_upd_outside[OF a] tot_ok_upd_outside[OF a])
    then have p1: "packet ?st (Some a2) as"
      by (simp only: packet_def as)
    have i1: "pst_inv M pools ?st"
      by (rule pst_inv_upd[OF Cons.prems(4)]) simp
    have l1: "unat (r - len b) \<le> length (content ?st as)" "unat sh + unat (r - len b) = length (content ?st as)"
      using Cons.prems(2,3) la lr unfolding cont by simp_all
    obtain st' q' r' as1 as2 where i: "pbuf_realloc_loop sh a2 (r - len b) ?st = Some (st', q', r')" "as = as1 @ q' # as2"
      "pst_inv M pools st'" "bytes st' = bytes ?st" "unat (r - len b) = length (content ?st as1) + unat r'"
      "\<exists>b. pbufs ?st q' = Some b \<and> r' \<le> len b"
      "pbufs st' = (\<lambda>x. if x \<in> set as1 then map_option ?f (pbufs ?st x) else pbufs ?st x)"
      using Cons.IH[OF p1 l1 i1] by blast
    have na: "a \<notin> set as1" "a \<noteq> q'"
      using a i(2) by auto
    have "pbuf_realloc_loop sh q r st = Some (st', q', r')"
      using b(1,2) True as i(1) by (subst pbuf_realloc_loop.simps) simp
    moreover have "unat r = length (content st (a # as1)) + unat r'"
      using i(5)[unfolded cont] lr b(2) by (simp add: content_Cons)
    moreover have "pbufs st' = (\<lambda>x. if x \<in> set (a # as1) then map_option ?f (pbufs st x) else pbufs st x)"
      using na unfolding i(7) by (auto simp: fun_eq_iff)
    moreover have "\<exists>b. pbufs st q' = Some b \<and> r' \<le> len b"
      using i(6) na(2) by simp
    ultimately show ?thesis
      using i(2,3,4)
      by - (rule exI[of _ st'], rule exI[of _ q'], rule exI[of _ r'], rule exI[of _ "a # as1"], rule exI[of _ as2], simp)
  qed
qed



lemma freed_store_outside: "x \<notin> set as \<Longrightarrow> freed_store st as x = pbufs st x"
proof -
  assume "x \<notin> set as"
  moreover have "set (takeWhile (sole st) as) \<subseteq> set as"
    by (auto dest: set_takeWhileD)
  moreover have "hd (dropWhile (sole st) as) \<in> set as" if "dropWhile (sole st) as \<noteq> []"
    using that by (metis hd_in_set set_dropWhileD)
  ultimately show ?thesis
    by (auto simp: freed_store_def)
qed

text \<open>A chain that keeps its first pbufs: each one's \<open>tot_len\<close> goes down by what the last one and the
  cut lose.\<close>

lemma packet_cut:
  assumes "packet st p (as1 @ q # as2)" "pbufs st q = Some b" "r \<le> len b" "bytes st' = bytes st"
    and "unat sh + (length (content st as1) + unat r) = length (content st (as1 @ q # as2))"
    and "\<And>x. x \<in> set as1 \<Longrightarrow> pbufs st' x = map_option (\<lambda>b. b\<lparr>tot_len := tot_len b - sh\<rparr>) (pbufs st x)"
    and "pbufs st' q = Some (b\<lparr>len := r, tot_len := r, pnext := None\<rparr>)"
  shows "packet st' p (as1 @ [q]) \<and> content st' (as1 @ [q]) = take (length (content st as1) + unat r) (content st (as1 @ q # as2))"
  using assms(1,5,6)
proof (induction as1 arbitrary: p)
  case Nil
  have "rd st (payload b) (unat r) = take (unat r) (rd st (payload b) (unat (len b)))"
    using rd_slice[of 0 "unat r" "unat (len b)" st "payload b"] assms(3) by (simp add: word_le_nat_alt)
  then show ?case
    using Nil assms(2,3,4,7) by (auto simp: packet_def content_Cons rd_def word_le_nat_alt)
next
  case (Cons a as1)
  obtain c where c: "p = Some a" "pbufs st a = Some c" "packet st (pnext c) (as1 @ q # as2)"
      "unat (tot_len c) = length (content st (a # as1 @ q # as2))"
    using Cons.prems(1) by (auto simp: packet_def)
  have a: "pbufs st' a = Some (c\<lparr>tot_len := tot_len c - sh\<rparr>)"
    using Cons.prems(3)[of a] c(2) by simp
  have i: "packet st' (pnext c) (as1 @ [q])" "content st' (as1 @ [q]) = take (length (content st as1) + unat r) (content st (as1 @ q # as2))"
    using Cons.IH[OF c(3)] Cons.prems(2,3) c(2) by (simp_all add: content_Cons)
  have e: "content st' ((a # as1) @ [q]) = take (length (content st (a # as1)) + unat r) (content st ((a # as1) @ q # as2))"
    using a c(2) i(2) assms(4) by (simp add: content_Cons rd_def del: content_append)
  have "unat (tot_len c - sh) = unat (tot_len c) - unat sh"
    using Cons.prems(2) c(4) by (intro unat_sub) (simp add: word_le_nat_alt)
  then have "unat (tot_len c - sh) = length (content st' ((a # as1) @ [q]))"
    using Cons.prems(2) c(4) unfolding e by simp
  then show ?case
    using e i(1) a c(1) by (simp add: packet_def)
qed

lemma pbuf_realloc_spec:
  assumes inv: "pst_inv M pools st" and p: "packet st (Some p) as" and n: "unat new_len \<le> length (content st as)"
    and refs: "\<forall>a \<in> set as. \<forall>b. pbufs st a = Some b \<longrightarrow> ref b \<noteq> 0 \<and> (pbuf_get_allocsrc b \<noteq> 0 \<or> pflags b AND PBUF_FLAG_IS_CUSTOM \<noteq> 0)"
  shows "\<exists>st' as1 as2. pbuf_realloc M p new_len st = Some st' \<and> as = as1 @ as2 \<and> packet st' (Some p) as1 \<and>
    content st' as1 = take (unat new_len) (content st as) \<and> pst_inv M pools st' \<and> bytes st' = bytes st"
proof -
  obtain b as' where b: "as = p # as'" "pbufs st p = Some b" "unat (tot_len b) = length (content st as)"
    using packet_length[OF p] by auto
  show ?thesis
  proof (cases "new_len \<ge> tot_len b")
    case True
    then have "unat new_len = length (content st as)"
      using n b(3) by (simp add: word_le_nat_alt)
    then show ?thesis
      using True b(2) inv p by (intro exI[of _ st] exI[of _ as] exI[of _ "[]"]) (simp add: pbuf_realloc_def)
  next
    case False
    let ?sh = "tot_len b - new_len"
    have sh: "unat ?sh + unat new_len = length (content st as)"
      using False b(3) by (simp add: unat_sub word_le_nat_alt)
    obtain st1 q r as1 as2 where l: "pbuf_realloc_loop ?sh p new_len st = Some (st1, q, r)" "as = as1 @ q # as2"
        "pst_inv M pools st1" "bytes st1 = bytes st" "unat new_len = length (content st as1) + unat r"
        "\<exists>b. pbufs st q = Some b \<and> r \<le> len b"
        "pbufs st1 = (\<lambda>x. if x \<in> set as1 then map_option (\<lambda>b. b\<lparr>tot_len := tot_len b - ?sh\<rparr>) (pbufs st x) else pbufs st x)"
      using pbuf_realloc_loop_spec[OF p n sh inv] by blast
    obtain c where c: "pbufs st q = Some c" "r \<le> len c"
      using l(6) by blast
    have d: "q \<notin> set as1" "q \<notin> set as2" "set as1 \<inter> set as2 = {}"
      using chain_distinct[of st "Some p" as] p l(2) by (auto simp: packet_def)
    have ch: "chain st (pnext c) as2"
      using chain_suffix[of st "Some p" as1 q as2] p l(2) c(1) by (auto simp: packet_def)
    have q1: "pbufs st1 q = Some c"
      using d c(1) l(7) by simp
    define st2 where "st2 = upd_pbuf q (\<lambda>b. b\<lparr>len := r, tot_len := r\<rparr>) st1"
    have inv2: "pst_inv M pools st2"
      unfolding st2_def using c(2) by (intro pst_inv_moved[OF l(3) q1]) (simp_all add: word_le_nat_alt)
    have ch2: "chain st2 (pnext c) as2"
      using ch d by (subst chain_cong[of as2 st2 st]) (auto simp: st2_def l(7))
    have rf: "\<forall>a \<in> set as2. \<forall>b. pbufs st2 a = Some b \<longrightarrow> ref b \<noteq> 0"
      using refs d l(2) by (auto simp: st2_def l(7))
    obtain st3 where st3: "(if pnext c = None then Some st2 else map_option fst (pbuf_free M (pnext c) st2)) = Some st3"
        "pst_inv M pools st3" "\<And>x. x \<notin> set as2 \<Longrightarrow> pbufs st3 x = pbufs st2 x" "bytes st3 = bytes st2"
    proof (cases "pnext c")
      case None
      then show ?thesis using that[of st2] inv2 by simp
    next
      case (Some a)
      then show ?thesis
        using pbuf_free_loop_spec[OF inv2 ch2 rf, of 0] that freed_store_outside[of _ as2 st2]
        by (auto simp: pbuf_free_def)
    qed
    define st4 where "st4 = upd_pbuf q (\<lambda>b. b\<lparr>pnext := None\<rparr>) st3"
    have nt: "pbuf_get_allocsrc c \<noteq> 0 \<or> pflags c AND PBUF_FLAG_IS_CUSTOM \<noteq> 0"
      using refs c(1) l(2) by simp
    have "pbuf_realloc M p new_len st =
        do { st \<leftarrow> (if pnext c = None then Some st2 else map_option fst (pbuf_free M (pnext c) st2));
             Some (upd_pbuf q (\<lambda>b. b\<lparr>pnext := None\<rparr>) st) }"
      using nt by (rule disjE) (use False b(2) l(1) q1 in \<open>simp_all add: pbuf_realloc_def Let_def st2_def\<close>)
    then have "pbuf_realloc M p new_len st = Some st4"
      unfolding st3(1) st4_def by simp
    moreover have "pst_inv M pools st4"
      unfolding st4_def by (rule pst_inv_upd[OF st3(2)]) simp
    moreover have "packet st4 (Some p) (as1 @ [q]) \<and> content st4 (as1 @ [q]) = take (length (content st as1) + unat r) (content st (as1 @ q # as2))"
    proof (rule packet_cut)
      show "packet st (Some p) (as1 @ q # as2)" "pbufs st q = Some c" "r \<le> len c"
        "unat ?sh + (length (content st as1) + unat r) = length (content st (as1 @ q # as2))"
        using p l(2,5) c sh by simp_all
      show "bytes st4 = bytes st"
        by (simp add: st4_def st3(4) st2_def l(4))
      show "pbufs st4 x = map_option (\<lambda>b. b\<lparr>tot_len := tot_len b - ?sh\<rparr>) (pbufs st x)" if "x \<in> set as1" for x
      proof -
        have "x \<noteq> q" "x \<notin> set as2"
          using that d by auto
        then show ?thesis
          using that st3(3)[of x] by (simp add: st4_def st2_def l(7))
      qed
      show "pbufs st4 q = Some (c\<lparr>len := r, tot_len := r, pnext := None\<rparr>)"
        using st3(3)[OF d(2)] q1 by (simp add: st4_def st2_def)
    qed
    ultimately show ?thesis
      using l(2,4,5) st3(4) by (intro exI[of _ st4] exI[of _ "as1 @ [q]"] exI[of _ as2]) (simp add: st4_def st2_def)
  qed
qed

lemma u8_minus_1: "(- 1 :: u8) = 255"
  by simp

lemma least_first:
  fixes n s :: nat
  assumes "if \<exists>j \<ge> s. P j then n = (LEAST j. j \<ge> s \<and> P j) else F"
  shows "if \<exists>j \<ge> s. P j then s \<le> n \<and> P n \<and> (\<forall>j. s \<le> j \<and> j < n \<longrightarrow> \<not> P j) else F"
proof (cases "\<exists>j \<ge> s. P j")
  case True
  then have n: "n = (LEAST j. j \<ge> s \<and> P j)" and ex: "\<exists>j. j \<ge> s \<and> P j"
    using assms by auto
  have "n \<ge> s \<and> P n"
    unfolding n by (rule LeastI_ex[OF ex])
  moreover have "\<not> P j" if "s \<le> j" "j < n" for j
    using not_less_Least[of j "\<lambda>j. j \<ge> s \<and> P j"] that n by blast
  ultimately show ?thesis
    using True by auto
next
  case False
  then have "(\<exists>j \<ge> s. P j) = False"
    by blast
  then show ?thesis
    using assms by (simp only: if_False)
qed

lemma packet_fits: "packet st p as \<Longrightarrow> length (content st as) < 65536"
proof (cases as)
  case (Cons a as')
  assume "packet st p as"
  then obtain b :: pbuf where "unat (tot_len b) = length (content st as)"
    unfolding packet_def Cons by auto
  then show ?thesis
    using unat_u16_less[of "tot_len b"] by linarith
qed simp

subsection \<open>Properties\<close>


definition demo_pools :: "memp_t \<Rightarrow> memp_desc" where
  "demo_pools t = \<lparr>desc_size = 32, desc_num = (if t = MEMP_PBUF then 2 else 0), desc_base = 1001\<rparr>"

definition demo_buf :: "nat option \<Rightarrow> nat \<Rightarrow> u16 \<Rightarrow> u16 \<Rightarrow> pbuf" where
  "demo_buf nx pl t l = \<lparr>pnext = nx, payload = pl, tot_len = t, len = l, type_internal = 0x41, pflags = 2, ref = 1, if_idx = 0\<rparr>"

definition demo :: pst where
  "demo = \<lparr>pbufs = [600 \<mapsto> demo_buf (Some 700) 10 5 3, 700 \<mapsto> demo_buf None 40 2 2, 800 \<mapsto> demo_buf None 80 6 6],
     bytes = (\<lambda>x. of_nat x), pheap = mem_init 512 zero_heap, pmemp = memp_init demo_pools \<lparr>mnext = (\<lambda>_. None), tab = (\<lambda>_. None)\<rparr>,
     pbuf_free_ooseq_pending = False, custom_freed = []\<rparr>"

lemma demo_buf_sel [simp]:
  "pnext (demo_buf nx pl t l) = nx" "payload (demo_buf nx pl t l) = pl" "tot_len (demo_buf nx pl t l) = t"
  "len (demo_buf nx pl t l) = l" "type_internal (demo_buf nx pl t l) = 0x41" "pflags (demo_buf nx pl t l) = 2"
  "ref (demo_buf nx pl t l) = 1"
  by (simp_all add: demo_buf_def)

lemma demo_sel [simp]: "pbufs demo = [600 \<mapsto> demo_buf (Some 700) 10 5 3, 700 \<mapsto> demo_buf None 40 2 2, 800 \<mapsto> demo_buf None 80 6 6]"
  "bytes demo = of_nat"
  by (simp_all add: demo_def fun_eq_iff)

lemma demo_custom:
  assumes "\<And>a b. m a = Some b \<Longrightarrow> pflags b = 2 \<and> 512 \<le> a \<and> a < 1008"
  shows "pst_inv 512 demo_pools (demo\<lparr>pbufs := m\<rparr>)"
proof -
  have "pools_ok demo_pools"
    by (auto simp: pools_ok_def demo_pools_def pool_elems_def)
  then have "pools_rel demo_pools (pmemp demo) (\<lambda>t. rev (pool_elems (demo_pools t)))"
    unfolding demo_def pst.simps by (rule memp_init_rel)
  moreover have "heap_rel 512 (pheap demo) [(512, False)]"
    unfolding demo_def pst.simps by (rule mem_init_rel) simp_all
  moreover have e: "1008 \<le> e" if "e \<in> set (pool_elems (demo_pools t))" for t e
    using that by (auto simp: pool_elems_def demo_pools_def LWIP_MEM_ALIGN_def)
  have "owned 512 demo_pools bl fl a b" if "m a = Some b" for bl fl a b
    using assms[OF that] e[of a] by (auto simp: owned_def PBUF_FLAG_IS_CUSTOM_def)
  moreover have "512 \<le> e" if "e \<in> set (pool_elems (demo_pools t))" for t e
    using e[OF that] by simp
  ultimately show ?thesis
    unfolding pst_inv_def pst_rep_def by auto
qed

lemma demo_inv: "pst_inv 512 demo_pools demo"
proof -
  have "pst_inv 512 demo_pools (demo\<lparr>pbufs := pbufs demo\<rparr>)"
    by (rule demo_custom) (auto split: if_splits)
  then show ?thesis
    by (simp del: demo_sel)
qed

lemma demo_content [simp]: "content demo [600, 700] = [10, 11, 12, 40, 41]" "content demo [800] = [80, 81, 82, 83, 84, 85]"
  by (simp_all add: content_Cons rd_def upt_rec)

lemma demo_addrs [simp]: "addrs demo [600, 700] = [10, 11, 12, 40, 41]" "addrs demo [800] = [80, 81, 82, 83, 84, 85]"
  by (simp_all add: addrs_Cons upt_rec)

lemma demo_packet [simp]: "packet demo (Some 600) [600, 700]" "packet demo (Some 800) [800]"
  by (simp_all add: packet_def content_Cons rd_def)


text \<open>C19. \<open>pbuf_copy_partial\<close> gives the bytes of the packet from the offset on, at most as many as asked
  for, wherever the boundaries between its pbufs are, and returns their number.\<close>

theorem pbuf_copy_partial_slice:
  assumes "packet st p as"
  shows "pbuf_copy_partial p n offset st =
     Some (take (unat n) (drop (unat offset) (content st as)),
           of_nat (min (unat n) (length (content st as) - unat offset)))"
  using assms by (simp add: pbuf_copy_partial_def packet_def copy_partial_loop_spec min.commute)

theorem pbuf_copy_partial_slice_witness:
  "pbuf_copy_partial (Some 600) 3 1 demo = Some ([11, 12, 40], 3)"
  using pbuf_copy_partial_slice[of demo "Some 600" "[600, 700]" 3 1] by simp

text \<open>C18. What \<open>pbuf_take_at\<close> stores is what \<open>pbuf_copy_partial\<close> reads back: when the bytes fit it puts
  them at the offset and leaves the rest of the packet as it was, across the pbufs of the chain;
  when they do not fit it returns \<open>ERR_MEM\<close> and writes nothing.\<close>

theorem pbuf_take_at_roundtrip:
  assumes "packet st p as" "distinct (addrs st as)" "unat offset < length (content st as)"
  shows "if unat offset + length bs \<le> length (content st as)
     then \<exists>st'. pbuf_take_at p bs offset st = Some (st', ERR_OK) \<and> packet st' p as \<and>
            content st' as = take (unat offset) (content st as) @ bs @ drop (unat offset + length bs) (content st as) \<and>
            pbuf_copy_partial p (of_nat (length bs)) offset st' = Some (bs, of_nat (length bs))
     else pbuf_take_at p bs offset st = Some (st, ERR_MEM)"
proof (cases "unat offset + length bs \<le> length (content st as)")
  case True
  let ?st = "st\<lparr>bytes := blit (take (length bs) (drop (unat offset) (addrs st as))) bs (bytes st)\<rparr>"
  have p: "packet ?st p as"
    using assms(1) by simp
  have c: "content ?st as = take (unat offset) (content st as) @ bs @ drop (unat offset + length bs) (content st as)"
    using map_blit_slice[OF assms(2), of "unat offset" bs] True
    unfolding content_bytes content_addrs by simp
  have "length (content st as) < 65536"
    using packet_fits[OF assms(1)] .
  then have "unat (of_nat (length bs) :: u16) = length bs"
    using True by (simp add: unat_u16_of_nat)
  moreover have "copy_partial_loop p (of_nat (length bs)) offset ?st =
      Some (take (unat (of_nat (length bs) :: u16)) (drop (unat offset) (content ?st as)))"
    by (rule copy_partial_loop_spec) (use p in \<open>simp add: packet_def\<close>)
  ultimately have "pbuf_copy_partial p (of_nat (length bs)) offset ?st = Some (bs, of_nat (length bs))"
    using True assms(3) by (simp add: pbuf_copy_partial_def c)
  then show ?thesis
    using True p c pbuf_take_at_spec[OF assms(1,2), of bs offset] assms(3) by simp
qed (use pbuf_take_at_spec[OF assms(1,2), of bs offset] in simp)

theorem pbuf_take_at_roundtrip_witness:
  "\<exists>st'. pbuf_take_at (Some 600) [1, 2] 2 demo = Some (st', ERR_OK) \<and> content st' [600, 700] = [10, 11, 1, 2, 41]"
  using pbuf_take_at_roundtrip[of demo "Some 600" "[600, 700]" 2 "[1, 2]"] by auto




text \<open>C20. \<open>pbuf_memfind\<close> returns the offset of the first occurrence of a non-empty byte string at or
  after the start offset, also when it lies across pbufs, and \<open>0xFFFF\<close> when there is none.\<close>

theorem pbuf_memfind_first:
  assumes "packet st (Some p) as" "mem \<noteq> []"
  shows "\<exists>r. pbuf_memfind p mem start_offset st = Some r \<and>
     (if \<exists>j \<ge> unat start_offset. occurs_at mem (content st as) j
      then unat start_offset \<le> unat r \<and> occurs_at mem (content st as) (unat r) \<and>
           (\<forall>j. unat start_offset \<le> j \<and> j < unat r \<longrightarrow> \<not> occurs_at mem (content st as) j)
      else r = 0xFFFF)"
proof -
  obtain b as' where b: "pbufs st p = Some b" "unat (tot_len b) = length (content st as)"
    using packet_length[OF assms(1)] by auto
  show ?thesis
  proof (cases "length mem + unat start_offset \<le> unat (tot_len b)")
    case True
    let ?mx = "tot_len b - of_nat (length mem)"
    have l: "unat (of_nat (length mem) :: u16) = length mem"
      using True unat_u16_less[of "tot_len b"] unfolding unat_u16_of_nat by (intro mod_less) linarith
    have "unat ?mx + length mem = length (content st as)"
      using True b(2) by (subst unat_sub) (simp_all add: word_le_nat_alt l)
    from memfind_loop_spec[OF assms this, of start_offset]
    obtain r where r: "memfind_loop p mem ?mx start_offset st = Some r"
        "if \<exists>j \<ge> unat start_offset. occurs_at mem (content st as) j
         then unat r = (LEAST j. j \<ge> unat start_offset \<and> occurs_at mem (content st as) j) else r = 0xFFFF"
      by (elim exE conjE)
    have "pbuf_memfind p mem start_offset st = Some r"
      using b True r(1) by (simp add: pbuf_memfind_def)
    then show ?thesis
      using least_first[OF r(2)] by (intro exI[of _ r] conjI)
  next
    case False
    then have "\<not> occurs_at mem (content st as) j" if "j \<ge> unat start_offset" for j
      using b(2) that by (simp add: occurs_at_def)
    then have "\<not> (\<exists>j \<ge> unat start_offset. occurs_at mem (content st as) j)"
      by blast
    moreover have "pbuf_memfind p mem start_offset st = Some 0xFFFF"
      using b(1) False by (simp add: pbuf_memfind_def)
    ultimately show ?thesis
      by (intro exI[of _ "0xFFFF"]) (simp only: if_False simp_thms)
  qed
qed

theorem pbuf_memfind_first_witness:
  "\<exists>r. pbuf_memfind 600 [12, 40] 1 demo = Some r \<and> occurs_at [12, 40] [10, 11, 12, 40, 41] (unat r)"
proof -
  have "occurs_at [12, 40] [10, 11, 12, 40, 41 :: u8] 2"
    by (simp add: occurs_at_def)
  then show ?thesis
    using pbuf_memfind_first[of demo 600 "[600, 700]" "[12, 40]" 1] by (auto split: if_splits intro: exI[of _ 2])
qed



text \<open>C15. \<open>pbuf_cat\<close> of two separate packets whose lengths fit in 16 bits makes one packet with the bytes
  of the first followed by those of the second and \<open>tot_len\<close> right in every pbuf.\<close>

theorem pbuf_cat_appends:
  assumes "packet st (Some h) hs" "packet st (Some t) ts" "set hs \<inter> set ts = {}"
    and "length (content st hs) + length (content st ts) < 65536" "pst_inv M pools st"
  shows "\<exists>st'. pbuf_cat (Some h) (Some t) st = Some st' \<and> packet st' (Some h) (hs @ ts) \<and>
    content st' (hs @ ts) = content st hs @ content st ts \<and> pst_inv M pools st'"
  using pbuf_cat_spec[OF assms(1-4)] assms(5) by blast

theorem pbuf_cat_appends_witness:
  "\<exists>st'. pbuf_cat (Some 600) (Some 800) demo = Some st' \<and>
     content st' [600, 700, 800] = [10, 11, 12, 40, 41, 80, 81, 82, 83, 84, 85]"
  using pbuf_cat_appends[OF demo_packet _ _ demo_inv] by (auto simp del: content_append)



text \<open>C21. Headers stay inside the buffer: \<open>pbuf_add_header\<close> moves the payload back only as far as the
  memory of the pbuf reaches and only when \<open>tot_len\<close> does not wrap, else it fails and changes nothing;
  in both cases every pbuf still lies inside memory its allocator has handed out, and
  \<open>pbuf_remove_header\<close> of the same size gives the state back.\<close>

theorem pbuf_header_bounds:
  assumes "pst_inv M pools st" "pbufs st a = Some b" "len b \<le> tot_len b"
    and "pbuf_add_header (Some a) n st = Some (st', failed)"
  shows "pst_inv M pools st' \<and> (failed \<longrightarrow> st' = st) \<and>
    (\<not> failed \<and> n \<noteq> 0 \<longrightarrow> a + 24 + n \<le> payload b \<and> n + unat (tot_len b) < 65536) \<and>
    (\<not> failed \<longrightarrow> pbuf_remove_header (Some a) n st' = Some (st, False))"
  using pbuf_add_header_inv[OF assms(1,2,4)] pbuf_add_header_cases[OF assms(2,4)]
    pbuf_add_remove_header[OF assms(2,3), of n st'] assms(4) by (cases failed) auto

theorem pbuf_header_bounds_witness:
  "\<exists>st'. pbuf_add_header (Some 600) 20 (demo\<lparr>pbufs := [600 \<mapsto> (demo_buf None 650 3 3)\<lparr>type_internal := 0x80\<rparr>]\<rparr>) = Some (st', False) \<and>
     600 + 24 + 20 \<le> (650 :: nat) \<and>
     pbuf_remove_header (Some 600) 20 st' = Some (demo\<lparr>pbufs := [600 \<mapsto> (demo_buf None 650 3 3)\<lparr>type_internal := 0x80\<rparr>]\<rparr>, False)"
proof -
  let ?b = "(demo_buf None 650 3 3)\<lparr>type_internal := 0x80\<rparr>"
  let ?st = "demo\<lparr>pbufs := [600 \<mapsto> ?b]\<rparr>"
  have "pst_inv 512 demo_pools ?st"
    by (rule demo_custom) (auto split: if_splits)
  moreover obtain st' where a: "pbuf_add_header (Some 600) 20 ?st = Some (st', False)"
    by (simp add: pbuf_add_header_def pbuf_add_header_impl_def Let_def SIZEOF_STRUCT_PBUF_def
        PBUF_TYPE_FLAG_STRUCT_DATA_CONTIGUOUS_def LWIP_MEM_ALIGN_SIZE_def)
  ultimately show ?thesis
    using pbuf_header_bounds[of 512 demo_pools ?st 600 ?b 20 st' False] by auto
qed



end
