(* ===== verification/Tcp_Defs.thy ===== *)
theory Tcp_Defs
  imports Lwip_Prelude
begin

unbundle bit_operations_syntax

section \<open>TCP: configuration, control block, sequence numbers\<close>

text \<open>
  The data of the TCP module (\<open>tcpbase.h\<close>, \<open>tcp.h\<close>, \<open>priv/tcp_priv.h\<close>, \<open>prot/tcp.h\<close>): the options of the
  two platform configurations as a record, the states, segments and protocol control blocks, the
  macros on sequence numbers, windows and flags, and the globals of \<open>tcp.c\<close> and \<open>tcp_in.c\<close>.

  A segment keeps the payload of each pbuf of its chain, so that \<open>pbuf_clen\<close> is the length of that list;
  the header fields that are written again whenever the segment is sent (ports, acknowledgement,
  window, checksum) are not stored. Sequence numbers are kept in host byte order. A value of
  \<open>tcpwnd_size_t\<close>, 32 bits with window scaling and 16 bits without, is a 32-bit word that \<open>tcpwnd\<close> cuts
  to its width. What the allocators and the IP layer answer to the calls to come is an input of the
  model: \<open>mem_ok\<close> and \<open>ip_errs\<close> list the outcomes, and every theorem holds for all of them.
\<close>

subsection \<open>Configuration\<close>

record tcp_cfg =
  LWIP_WND_SCALE :: bool
  TCP_RCV_SCALE :: u8
  TCP_WND :: u32
  TCP_SND_BUF :: u32
  TCP_MAXRTX :: u8
  TCP_SYNMAXRTX :: u8
  TCP_TTL :: u8

definition ios :: tcp_cfg where
  "ios = \<lparr>LWIP_WND_SCALE = False, TCP_RCV_SCALE = 0, TCP_WND = 32 * 1024, TCP_SND_BUF = 16 * 1024,
          TCP_MAXRTX = 12, TCP_SYNMAXRTX = 6, TCP_TTL = 255\<rparr>"

definition macos :: tcp_cfg where
  "macos = \<lparr>LWIP_WND_SCALE = True, TCP_RCV_SCALE = 4, TCP_WND = 65535, TCP_SND_BUF = 512 * 1024,
          TCP_MAXRTX = 8, TCP_SYNMAXRTX = 4, TCP_TTL = 64\<rparr>"

definition TCP_MSS :: u16 where "TCP_MSS = 1460"
definition INITIAL_MSS :: u16 where "INITIAL_MSS = 536"
definition TCP_OVERSIZE :: nat where "TCP_OVERSIZE = unat TCP_MSS"
definition TCP_TMR_INTERVAL :: nat where "TCP_TMR_INTERVAL = 250"
definition TCP_SLOW_INTERVAL :: nat where "TCP_SLOW_INTERVAL = 2 * TCP_TMR_INTERVAL"
definition TCP_MSL :: nat where "TCP_MSL = 15000"
definition TCP_FIN_WAIT_TIMEOUT :: nat where "TCP_FIN_WAIT_TIMEOUT = 20000"
definition TCP_SYN_RCVD_TIMEOUT :: nat where "TCP_SYN_RCVD_TIMEOUT = 20000"
definition TCP_OOSEQ_TIMEOUT :: nat where "TCP_OOSEQ_TIMEOUT = 6"
definition TCP_KEEPIDLE_DEFAULT :: u32 where "TCP_KEEPIDLE_DEFAULT = 7200000"
definition TCP_KEEPINTVL_DEFAULT :: u32 where "TCP_KEEPINTVL_DEFAULT = 75000"
definition TCP_KEEPCNT_DEFAULT :: u32 where "TCP_KEEPCNT_DEFAULT = 9"
definition LWIP_TCP_RTO_TIME :: nat where "LWIP_TCP_RTO_TIME = 3000"

definition TCP_SND_QUEUELEN :: "tcp_cfg \<Rightarrow> nat" where
  "TCP_SND_QUEUELEN c = 2 * (unat (TCP_SND_BUF c) div unat TCP_MSS)"

definition TCP_WND_UPDATE_THRESHOLD :: "tcp_cfg \<Rightarrow> nat" where
  "TCP_WND_UPDATE_THRESHOLD c = min (unat (TCP_WND c) div 4) (unat TCP_MSS * 4)"

definition TCP_SNDQUEUELEN_OVERFLOW :: nat where "TCP_SNDQUEUELEN_OVERFLOW = 0xFFFF - 3"

subsection \<open>States\<close>

datatype tcp_state =
    CLOSED | LISTEN | SYN_SENT | SYN_RCVD | ESTABLISHED | FIN_WAIT_1 | FIN_WAIT_2 | CLOSE_WAIT
  | CLOSING | LAST_ACK | TIME_WAIT

fun state_number :: "tcp_state \<Rightarrow> nat" where
  "state_number CLOSED = 0"
| "state_number LISTEN = 1"
| "state_number SYN_SENT = 2"
| "state_number SYN_RCVD = 3"
| "state_number ESTABLISHED = 4"
| "state_number FIN_WAIT_1 = 5"
| "state_number FIN_WAIT_2 = 6"
| "state_number CLOSE_WAIT = 7"
| "state_number CLOSING = 8"
| "state_number LAST_ACK = 9"
| "state_number TIME_WAIT = 10"

lemma state_number_eq [simp]: "state_number s = state_number t \<longleftrightarrow> s = t"
  by (cases s; cases t) auto

text \<open>The C code compares states by their numbers.\<close>

instantiation tcp_state :: linorder
begin

definition less_eq_tcp_state :: "tcp_state \<Rightarrow> tcp_state \<Rightarrow> bool" where
  "s \<le> t \<longleftrightarrow> state_number s \<le> state_number t"

definition less_tcp_state :: "tcp_state \<Rightarrow> tcp_state \<Rightarrow> bool" where
  "s < t \<longleftrightarrow> state_number s < state_number t"

instance
proof
  fix s t u :: tcp_state
  show "s < t \<longleftrightarrow> s \<le> t \<and> \<not> t \<le> s" "s \<le> s" "s \<le> t \<or> t \<le> s"
    by (auto simp: less_eq_tcp_state_def less_tcp_state_def)
  show "s \<le> t \<Longrightarrow> t \<le> u \<Longrightarrow> s \<le> u"
    by (simp add: less_eq_tcp_state_def)
  show "s \<le> t \<Longrightarrow> t \<le> s \<Longrightarrow> s = t"
    by (simp add: less_eq_tcp_state_def flip: state_number_eq)
qed

end

subsection \<open>Header flags\<close>

definition TCP_FIN :: u8 where "TCP_FIN = 0x01"
definition TCP_SYN :: u8 where "TCP_SYN = 0x02"
definition TCP_RST :: u8 where "TCP_RST = 0x04"
definition TCP_PSH :: u8 where "TCP_PSH = 0x08"
definition TCP_ACK :: u8 where "TCP_ACK = 0x10"

definition TF_RESET :: u8 where "TF_RESET = 0x08"
definition TF_CLOSED :: u8 where "TF_CLOSED = 0x10"
definition TF_GOT_FIN :: u8 where "TF_GOT_FIN = 0x20"

definition TF_SEG_OPTS_MSS :: u8 where "TF_SEG_OPTS_MSS = 0x01"
definition TF_SEG_OPTS_WND_SCALE :: u8 where "TF_SEG_OPTS_WND_SCALE = 0x08"

definition TCP_WRITE_FLAG_COPY :: u8 where "TCP_WRITE_FLAG_COPY = 0x01"
definition TCP_WRITE_FLAG_MORE :: u8 where "TCP_WRITE_FLAG_MORE = 0x02"

definition TCP_HLEN :: nat where "TCP_HLEN = 20"

subsection \<open>Flags of a control block\<close>

definition TF_ACK_DELAY :: u16 where "TF_ACK_DELAY = 0x01"
definition TF_ACK_NOW :: u16 where "TF_ACK_NOW = 0x02"
definition TF_INFR :: u16 where "TF_INFR = 0x04"
definition TF_CLOSEPEND :: u16 where "TF_CLOSEPEND = 0x08"
definition TF_RXCLOSED :: u16 where "TF_RXCLOSED = 0x10"
definition TF_FIN :: u16 where "TF_FIN = 0x20"
definition TF_NODELAY :: u16 where "TF_NODELAY = 0x40"
definition TF_NAGLEMEMERR :: u16 where "TF_NAGLEMEMERR = 0x80"
definition TF_WND_SCALE :: u16 where "TF_WND_SCALE = 0x0100"
definition TF_BACKLOGPEND :: u16 where "TF_BACKLOGPEND = 0x0200"
definition TF_RTO :: u16 where "TF_RTO = 0x0800"

subsection \<open>Segments and control blocks\<close>

text \<open>The data of one pbuf; for a \<open>PBUF_ROM\<close> also the address right behind it.\<close>

type_synonym chunk = "nat option \<times> u8 list"

record tcp_seg =
  seg_p :: "chunk list"
  seg_len :: u16
  oversize_left :: u16
  seg_flags :: u8
  seg_seqno :: u32
  seg_hdrflags :: u8
  seg_ref :: u8

datatype fnptr = Null | Recv_Null | App

record ip_pcb =
  local_ip :: u32
  remote_ip :: u32
  netif_idx :: u8
  so_options :: u8
  tos :: u8
  ttl :: u8

record tcp_callbacks =
  callback_arg :: "nat option"
  ext_callbacks :: bool
  ext_data :: "nat option"
  sent :: fnptr
  recv :: fnptr
  connected :: fnptr
  poll :: fnptr
  errf :: fnptr

text \<open>Data that the application has refused, and whether the FIN comes with it.\<close>

type_synonym refused = "u8 list \<times> bool"

record tcp_pcb =
  ip :: ip_pcb
  cb :: tcp_callbacks
  state :: tcp_state
  prio :: u8
  local_port :: u16
  remote_port :: u16
  flags :: u16
  polltmr :: u8
  pollinterval :: u8
  last_timer :: u8
  tmr :: u32
  rcv_nxt :: u32
  rcv_wnd :: u32
  rcv_ann_wnd :: u32
  rcv_ann_right_edge :: u32
  rtime :: int
  mss :: u16
  rttest :: u32
  rtseq :: u32
  rtt_sa :: int
  rtt_sv :: int
  rto :: int
  nrtx :: u8
  dupacks :: u8
  lastack :: u32
  cwnd :: u32
  ssthresh :: u32
  rto_end :: u32
  snd_nxt :: u32
  snd_wl1 :: u32
  snd_wl2 :: u32
  snd_lbb :: u32
  snd_wnd :: u32
  snd_wnd_max :: u32
  snd_buf :: u32
  snd_queuelen :: u16
  unsent_oversize :: u16
  bytes_acked :: u32
  unsent :: "tcp_seg list"
  unacked :: "tcp_seg list"
  ooseq :: "tcp_seg list"
  refused_data :: "refused option"
  listener :: "nat option"
  keep_idle :: u32
  persist_cnt :: u8
  persist_backoff :: u8
  persist_probe :: u8
  keep_cnt_sent :: u8
  snd_scale :: u8
  rcv_scale :: u8

text \<open>What is handed to \<open>ip_output_if\<close>.\<close>

record tcp_pkt =
  pk_src :: u32
  pk_dst :: u32
  pk_sport :: u16
  pk_dport :: u16
  pk_seqno :: u32
  pk_ackno :: u32
  pk_flags :: u8
  pk_wnd :: u16
  pk_opts :: "u8 list"
  pk_data :: "u8 list"
  pk_ttl :: u8

record netif_view =
  if_mtu :: u16
  if_addr :: u32

text \<open>The surroundings of a control block: the clock, the outcomes of the calls to come, the routing
  decision (\<open>netif_get_by_index\<close> when the index is not 0, else \<open>ip_route\<close>), the packets sent so far, and
  whether \<open>tcp_input_pcb\<close> is this control block.\<close>

record tenv =
  tcp_ticks :: u32
  mem_ok :: "bool list"
  ip_errs :: "err_t list"
  tcp_routes :: "u8 \<Rightarrow> u32 \<Rightarrow> u32 \<Rightarrow> netif_view option"
  tx :: "tcp_pkt list"
  in_input :: bool

definition alloc_ok :: "tenv \<Rightarrow> bool" where
  "alloc_ok e = (case mem_ok e of [] \<Rightarrow> True | b # _ \<Rightarrow> b)"

definition alloc_next :: "tenv \<Rightarrow> tenv" where
  "alloc_next e = e\<lparr>mem_ok := tl (mem_ok e)\<rparr>"

definition ip_output_if :: "tcp_pkt \<Rightarrow> tenv \<Rightarrow> tenv \<times> err_t" where
  "ip_output_if pk e =
     (e\<lparr>tx := tx e @ [pk], ip_errs := tl (ip_errs e)\<rparr>, case ip_errs e of [] \<Rightarrow> ERR_OK | x # _ \<Rightarrow> x)"

subsection \<open>Macros\<close>

definition is_set :: "'a::len word \<Rightarrow> 'a word \<Rightarrow> bool" where
  "is_set f m = (f AND m \<noteq> 0)"

definition tcp_set_flags :: "u16 \<Rightarrow> tcp_pcb \<Rightarrow> tcp_pcb" where
  "tcp_set_flags m pcb = pcb\<lparr>flags := flags pcb OR m\<rparr>"

definition tcp_clear_flags :: "u16 \<Rightarrow> tcp_pcb \<Rightarrow> tcp_pcb" where
  "tcp_clear_flags m pcb = pcb\<lparr>flags := flags pcb AND NOT m\<rparr>"

definition tcp_is_flag_set :: "tcp_pcb \<Rightarrow> u16 \<Rightarrow> bool" where
  "tcp_is_flag_set pcb m = is_set (flags pcb) m"

definition tcp_ack_now :: "tcp_pcb \<Rightarrow> tcp_pcb" where
  "tcp_ack_now pcb = tcp_set_flags TF_ACK_NOW pcb"

definition tcp_ack :: "tcp_pcb \<Rightarrow> tcp_pcb" where
  "tcp_ack pcb =
     (if tcp_is_flag_set pcb TF_ACK_DELAY then tcp_ack_now (tcp_clear_flags TF_ACK_DELAY pcb)
      else tcp_set_flags TF_ACK_DELAY pcb)"

definition TCP_SEQ_LT :: "u32 \<Rightarrow> u32 \<Rightarrow> bool" where
  "TCP_SEQ_LT a b = ((a - b) AND 0x80000000 \<noteq> 0)"

definition TCP_SEQ_LEQ :: "u32 \<Rightarrow> u32 \<Rightarrow> bool" where
  "TCP_SEQ_LEQ a b = (\<not> TCP_SEQ_LT b a)"

definition TCP_SEQ_GT :: "u32 \<Rightarrow> u32 \<Rightarrow> bool" where
  "TCP_SEQ_GT a b = TCP_SEQ_LT b a"

definition TCP_SEQ_GEQ :: "u32 \<Rightarrow> u32 \<Rightarrow> bool" where
  "TCP_SEQ_GEQ a b = TCP_SEQ_LEQ b a"

definition TCP_SEQ_BETWEEN :: "u32 \<Rightarrow> u32 \<Rightarrow> u32 \<Rightarrow> bool" where
  "TCP_SEQ_BETWEEN a b c = (TCP_SEQ_GEQ a b \<and> TCP_SEQ_LEQ a c)"

definition TCP_TCPLEN :: "tcp_seg \<Rightarrow> u32" where
  "TCP_TCPLEN s = ucast (seg_len s) + (if is_set (seg_hdrflags s) (TCP_FIN OR TCP_SYN) then 1 else 0)"

definition TCPWND_MAX :: "tcp_cfg \<Rightarrow> u32" where
  "TCPWND_MAX c = (if LWIP_WND_SCALE c then 0xFFFFFFFF else 0xFFFF)"

definition tcpwnd :: "tcp_cfg \<Rightarrow> u32 \<Rightarrow> u32" where
  "tcpwnd c x = x AND TCPWND_MAX c"

definition TCPWND_MIN16 :: "tcp_cfg \<Rightarrow> u32 \<Rightarrow> u16" where
  "TCPWND_MIN16 c x = (if LWIP_WND_SCALE c then ucast (min x 0xFFFF) else ucast x)"

definition RCV_WND_SCALE :: "tcp_cfg \<Rightarrow> tcp_pcb \<Rightarrow> u32 \<Rightarrow> u32" where
  "RCV_WND_SCALE c pcb w = (if LWIP_WND_SCALE c then drop_bit (unat (rcv_scale pcb)) w else w)"

definition SND_WND_SCALE :: "tcp_cfg \<Rightarrow> tcp_pcb \<Rightarrow> u32 \<Rightarrow> u32" where
  "SND_WND_SCALE c pcb w = (if LWIP_WND_SCALE c then push_bit (unat (snd_scale pcb)) w else w)"

definition TCP_WND_MAX :: "tcp_cfg \<Rightarrow> tcp_pcb \<Rightarrow> u32" where
  "TCP_WND_MAX c pcb =
     (if LWIP_WND_SCALE c \<and> \<not> tcp_is_flag_set pcb TF_WND_SCALE then ucast (ucast (min (TCP_WND c) 0xFFFF) :: u16)
      else TCP_WND c)"

definition TCP_WND_INC :: "tcp_cfg \<Rightarrow> u32 \<Rightarrow> u32 \<Rightarrow> u32" where
  "TCP_WND_INC c w inc = (if tcpwnd c (w + inc) \<ge> w then tcpwnd c (w + inc) else TCPWND_MAX c)"

definition tcp_sndbuf :: "tcp_cfg \<Rightarrow> tcp_pcb \<Rightarrow> u16" where
  "tcp_sndbuf c pcb = TCPWND_MIN16 c (snd_buf pcb)"

text \<open>Conversion to \<open>s16_t\<close>.\<close>

definition s16 :: "int \<Rightarrow> int" where
  "s16 x = (x + 2 ^ 15) mod 2 ^ 16 - 2 ^ 15"

definition LWIP_TCP_CALC_INITIAL_CWND :: "tcp_cfg \<Rightarrow> u16 \<Rightarrow> u32" where
  "LWIP_TCP_CALC_INITIAL_CWND c m = tcpwnd c (min (4 * ucast m) (max (2 * ucast m) 4380))"

definition LWIP_TCP_OPT_LENGTH :: "tcp_cfg \<Rightarrow> u8 \<Rightarrow> nat" where
  "LWIP_TCP_OPT_LENGTH c f =
     (if is_set f TF_SEG_OPTS_MSS then 4 else 0) + (if is_set f TF_SEG_OPTS_WND_SCALE \<and> LWIP_WND_SCALE c then 4 else 0)"

definition tcp_eff_send_mss_netif :: "u16 \<Rightarrow> netif_view option \<Rightarrow> u16" where
  "tcp_eff_send_mss_netif sendmss outif =
     (case outif of
        None \<Rightarrow> sendmss
      | Some n \<Rightarrow>
          if if_mtu n \<noteq> 0
          then min sendmss (if if_mtu n > 40 then if_mtu n - 40 else 0)
          else sendmss)"

text \<open>The control block that \<open>tcp_alloc\<close> hands out.\<close>

definition init_pcb :: "tcp_cfg \<Rightarrow> u8 \<Rightarrow> u32 \<Rightarrow> u8 \<Rightarrow> tcp_pcb" where
  "init_pcb c pr ticks timer =
     \<lparr>ip = \<lparr>local_ip = 0, remote_ip = 0, netif_idx = 0, so_options = 0, tos = 0, ttl = TCP_TTL c\<rparr>,
      cb = \<lparr>callback_arg = None, ext_callbacks = False, ext_data = None, sent = Null, recv = Recv_Null,
            connected = Null, poll = Null, errf = Null\<rparr>,
      state = CLOSED, prio = pr, local_port = 0, remote_port = 0, flags = 0, polltmr = 0, pollinterval = 0,
      last_timer = timer, tmr = ticks, rcv_nxt = 0, rcv_wnd = ucast (TCPWND_MIN16 c (TCP_WND c)),
      rcv_ann_wnd = ucast (TCPWND_MIN16 c (TCP_WND c)), rcv_ann_right_edge = 0, rtime = -1, mss = INITIAL_MSS,
      rttest = 0, rtseq = 0, rtt_sa = 0, rtt_sv = int (LWIP_TCP_RTO_TIME div TCP_SLOW_INTERVAL),
      rto = int (LWIP_TCP_RTO_TIME div TCP_SLOW_INTERVAL), nrtx = 0, dupacks = 0, lastack = 0, cwnd = 1,
      ssthresh = TCP_SND_BUF c, rto_end = 0, snd_nxt = 0, snd_wl1 = 0, snd_wl2 = 0, snd_lbb = 0, snd_wnd = 0,
      snd_wnd_max = 0, snd_buf = TCP_SND_BUF c, snd_queuelen = 0, unsent_oversize = 0, bytes_acked = 0,
      unsent = [], unacked = [], ooseq = [], refused_data = None, listener = None, keep_idle = TCP_KEEPIDLE_DEFAULT,
      persist_cnt = 0, persist_backoff = 0, persist_probe = 0, keep_cnt_sent = 0, snd_scale = 0, rcv_scale = 0\<rparr>"

text \<open>The bytes of a segment.\<close>

definition seg_data :: "tcp_seg \<Rightarrow> u8 list" where
  "seg_data s = concat (map snd (seg_p s))"

subsection \<open>Sequence numbers\<close>

text \<open>Inside half of the sequence space, counted from any base, the comparisons are those of the offsets.\<close>

lemma seq_sign: "(x AND 0x80000000 \<noteq> (0 :: u32)) \<longleftrightarrow> 2 ^ 31 \<le> unat x"
proof -
  have e: "(0x80000000 :: u32) = 2 ^ 31"
    by simp
  have "(x AND 2 ^ 31 \<noteq> 0) \<longleftrightarrow> bit x 31"
    by (simp add: bit_iff_and_push_bit_not_eq_0 push_bit_eq_mult)
  also have "\<dots> \<longleftrightarrow> 2 ^ 31 \<le> unat x"
  proof -
    have "bit (unat x) 31 \<longleftrightarrow> odd (unat x div 2 ^ 31)"
      by (rule bit_iff_odd)
    moreover have "bit (unat x) 31 \<longleftrightarrow> bit x 31"
      by (simp add: bit_unsigned_iff)
    moreover have "unat x div 2 ^ 31 \<le> 1"
      using div_le_mono[of "unat x" 4294967295 "2 ^ 31"] unat_u32_less[of x] by (simp del: unat_u32_less)
    ultimately show ?thesis
      by (cases "unat x div 2 ^ 31") (auto simp: div_eq_0_iff)
  qed
  finally show ?thesis
    by (simp only: e)
qed

lemma seq_lt_iff: "TCP_SEQ_LT a b \<longleftrightarrow> 2 ^ 31 \<le> unat (a - b)"
  by (simp only: TCP_SEQ_LT_def seq_sign)

lemma unat_diff_of_nat:
  assumes "m < 2 ^ 31" "n < 2 ^ 31"
  shows "unat (b + of_nat m - (b + of_nat n) :: u32) = (if n \<le> m then m - n else 2 ^ 32 + m - n)"
proof -
  have "b + of_nat m - (b + of_nat n) = (of_nat m - of_nat n :: u32)"
    by simp
  also have "\<dots> = of_nat (if n \<le> m then m - n else 2 ^ 32 + m - n)"
  proof (cases "n \<le> m")
    case False
    then have "(of_nat (2 ^ 32 + m - n) :: u32) = of_nat (2 ^ 32 + m) - of_nat n"
      using assms by (intro of_nat_diff) simp
    then show ?thesis
      using False by simp
  qed (simp add: of_nat_diff)
  finally show ?thesis
    using assms by (simp add: unat_u32_of_nat)
qed

lemma seq_lt_off: "m < 2 ^ 31 \<Longrightarrow> n < 2 ^ 31 \<Longrightarrow> TCP_SEQ_LT (b + of_nat m) (b + of_nat n) \<longleftrightarrow> m < n"
  unfolding seq_lt_iff by (subst unat_diff_of_nat) auto

lemma seq_leq_off: "m < 2 ^ 31 \<Longrightarrow> n < 2 ^ 31 \<Longrightarrow> TCP_SEQ_LEQ (b + of_nat m) (b + of_nat n) \<longleftrightarrow> m \<le> n"
  by (auto simp: TCP_SEQ_LEQ_def seq_lt_off)

lemma seq_gt_off: "m < 2 ^ 31 \<Longrightarrow> n < 2 ^ 31 \<Longrightarrow> TCP_SEQ_GT (b + of_nat m) (b + of_nat n) \<longleftrightarrow> n < m"
  by (simp add: TCP_SEQ_GT_def seq_lt_off)

lemma seq_geq_off: "m < 2 ^ 31 \<Longrightarrow> n < 2 ^ 31 \<Longrightarrow> TCP_SEQ_GEQ (b + of_nat m) (b + of_nat n) \<longleftrightarrow> n \<le> m"
  by (simp add: TCP_SEQ_GEQ_def seq_leq_off)

lemma seq_between_off:
  "m < 2 ^ 31 \<Longrightarrow> n < 2 ^ 31 \<Longrightarrow> k < 2 ^ 31 \<Longrightarrow>
   TCP_SEQ_BETWEEN (b + of_nat m) (b + of_nat n) (b + of_nat k) \<longleftrightarrow> n \<le> m \<and> m \<le> k"
  by (simp add: TCP_SEQ_BETWEEN_def seq_geq_off seq_leq_off)

lemmas seq_off = seq_lt_off seq_leq_off seq_gt_off seq_geq_off seq_between_off

lemma minus_1_eq_u32: "(-1 :: u32) = 0xFFFFFFFF"
  by simp

lemma tcpwnd_le: "tcpwnd c x \<le> x" "tcpwnd c x \<le> TCPWND_MAX c"
  by (simp_all add: tcpwnd_def word_and_le1 word_and_le2)

lemma tcpwnd_id: "x \<le> TCPWND_MAX c \<Longrightarrow> tcpwnd c x = x"
proof -
  assume x: "x \<le> TCPWND_MAX c"
  have "x AND 0xFFFF = x" if "x \<le> 0xFFFF"
  proof -
    have "unat (x AND mask 16) = unat x mod 2 ^ 16"
      by (rule unat_take_mask)
    also have "\<dots> = unat x"
      using that by (simp add: word_le_nat_alt)
    finally have "x AND mask 16 = x"
      by (simp add: word_unat_eq_iff)
    then show ?thesis
      by (simp add: mask_eq_exp_minus_1)
  qed
  moreover have "x AND 0xFFFFFFFF = x"
    by (metis and.right_neutral minus_1_eq_u32)
  ultimately show ?thesis
    using x by (auto simp: tcpwnd_def TCPWND_MAX_def split: if_splits)
qed


end
