(* ===== verification/Tcp_Out.thy ===== *)
theory Tcp_Out
  imports Tcp_Defs Lwip_Def "HOL-Library.Monad_Syntax"
begin

unbundle bit_operations_syntax

section \<open>TCP output\<close>

text \<open>
  \<open>tcp_out.c\<close> on one control block: queueing data (\<open>tcp_write\<close>) and control flags, splitting, sending what
  the windows allow (\<open>tcp_output\<close>), retransmission, empty acknowledgements, resets and probes. A failed
  assertion is \<open>None\<close>; the error code is the last component of a result. \<open>pbuf_add_header\<close> for the TCP
  header has no failure branch here: every pbuf of a segment is allocated with the headroom of
  \<open>PBUF_TRANSPORT\<close>, which \<open>pbuf_alloc_ram_fresh\<close> shows to be there.
\<close>

subsection \<open>Creating segments\<close>

definition chunks_len :: "chunk list \<Rightarrow> nat" where
  "chunks_len p = length (concat (map snd p))"

definition pbuf_clen_seg :: "tcp_seg \<Rightarrow> u16" where
  "pbuf_clen_seg s = of_nat (length (seg_p s))"

definition tcp_create_segment ::
    "chunk list \<Rightarrow> u8 \<Rightarrow> u32 \<Rightarrow> u8 \<Rightarrow> tenv \<Rightarrow> tenv \<times> tcp_seg option" where
  "tcp_create_segment p hdrflags seqno optflags e =
     (alloc_next e,
      if alloc_ok e
      then Some \<lparr>seg_p = p, seg_len = of_nat (chunks_len p), oversize_left = 0, seg_flags = optflags,
                 seg_seqno = seqno, seg_hdrflags = hdrflags, seg_ref = 1\<rparr>
      else None)"

text \<open>The result is the number of spare bytes behind the \<open>plen\<close> bytes asked for.\<close>

definition tcp_pbuf_prealloc :: "u16 \<Rightarrow> u16 \<Rightarrow> tcp_pcb \<Rightarrow> u8 \<Rightarrow> bool \<Rightarrow> tenv \<Rightarrow> tenv \<times> u16 option" where
  "tcp_pbuf_prealloc plen max_length pcb apiflags first_seg e =
     (let alloc =
        (if plen < max_length \<and>
            (is_set apiflags TCP_WRITE_FLAG_MORE \<or>
             (\<not> tcp_is_flag_set pcb TF_NODELAY \<and> (\<not> first_seg \<or> unsent pcb \<noteq> [] \<or> unacked pcb \<noteq> [])))
         then of_nat (min (unat max_length) (LWIP_MEM_ALIGN_SIZE (unat plen + TCP_OVERSIZE)))
         else plen)
      in (alloc_next e, if alloc_ok e then Some (alloc - plen) else None))"

subsection \<open>Queueing data\<close>

definition tcp_write_checks :: "tcp_cfg \<Rightarrow> tcp_pcb \<Rightarrow> u16 \<Rightarrow> (tcp_pcb \<times> err_t) option" where
  "tcp_write_checks c pcb n =
     (if state pcb \<noteq> ESTABLISHED \<and> state pcb \<noteq> CLOSE_WAIT \<and> state pcb \<noteq> SYN_SENT \<and> state pcb \<noteq> SYN_RCVD
      then Some (pcb, ERR_CONN)
      else if n = 0 then Some (pcb, ERR_OK)
      else if ucast n > snd_buf pcb then Some (tcp_set_flags TF_NAGLEMEMERR pcb, ERR_MEM)
      else if unat (snd_queuelen pcb) \<ge> min (TCP_SND_QUEUELEN c) (TCP_SNDQUEUELEN_OVERFLOW + 1)
      then Some (tcp_set_flags TF_NAGLEMEMERR pcb, ERR_MEM)
      else if snd_queuelen pcb \<noteq> 0
      then if unacked pcb \<noteq> [] \<or> unsent pcb \<noteq> [] then Some (pcb, ERR_OK) else None
      else if unacked pcb = [] \<and> unsent pcb = [] then Some (pcb, ERR_OK) else None)"

definition arg_slice :: "u8 list \<Rightarrow> u16 \<Rightarrow> u16 \<Rightarrow> u8 list" where
  "arg_slice d pos n = take (unat n) (drop (unat pos) d)"

text \<open>The local variables of \<open>tcp_write\<close> after its phases 1 and 2, which fill up the last unsent segment;
  \<open>Memerr\<close> is the jump to the label of that name.\<close>

record tail =
  tl_used :: u16
  tl_concat :: "chunk option"
  tl_extend :: u16
  tl_touched :: bool
  tl_oversize :: u16
  tl_add :: u16
  tl_queuelen :: u16
  tl_pos :: u16

datatype 'a attempt = Memerr tenv | Go 'a tenv

definition write_concat ::
    "tcp_pcb \<Rightarrow> tcp_seg \<Rightarrow> nat \<Rightarrow> u8 list \<Rightarrow> u8 \<Rightarrow> u16 \<Rightarrow> tail \<Rightarrow> tenv \<Rightarrow> tail attempt option" where
  "write_concat pcb lu at d apiflags space t e =
     (let n = of_nat (length d);
          seglen = min space (n - tl_pos t)
      in if is_set apiflags TCP_WRITE_FLAG_COPY
         then
           case tcp_pbuf_prealloc seglen space pcb apiflags True e of
             (e, None) \<Rightarrow> Some (Memerr e)
           | (e, Some ov) \<Rightarrow>
               Some (Go (t\<lparr>tl_concat := Some (None, arg_slice d (tl_pos t) seglen), tl_oversize := ov, tl_add := ov,
                          tl_touched := True, tl_queuelen := tl_queuelen t + 1, tl_pos := tl_pos t + seglen\<rparr>) e)
         else if seg_p lu = [] then None
         else if fst (last (seg_p lu)) = Some at
         then if tl_pos t \<noteq> 0 then None
              else Some (Go (t\<lparr>tl_extend := seglen, tl_touched := True, tl_pos := tl_pos t + seglen\<rparr>) e)
         else if \<not> alloc_ok e then Some (Memerr (alloc_next e))
         else Some (Go (t\<lparr>tl_concat := Some (Some (at + unat (tl_pos t) + unat seglen), arg_slice d (tl_pos t) seglen),
                         tl_touched := True, tl_queuelen := tl_queuelen t + 1, tl_pos := tl_pos t + seglen\<rparr>)
                      (alloc_next e)))"

definition write_tail ::
    "tcp_cfg \<Rightarrow> tcp_pcb \<Rightarrow> u16 \<Rightarrow> nat \<Rightarrow> u8 list \<Rightarrow> u8 \<Rightarrow> tenv \<Rightarrow> tail attempt option" where
  "write_tail c pcb mss_local at d apiflags e =
     (let n = of_nat (length d);
          t0 = \<lparr>tl_used = 0, tl_concat = None, tl_extend = 0, tl_touched = False, tl_oversize = 0, tl_add = 0,
                tl_queuelen = snd_queuelen pcb, tl_pos = 0\<rparr>
      in if unsent pcb = [] then if unsent_oversize pcb = 0 then Some (Go t0 e) else None
         else
           let lu = last (unsent pcb);
               optlen = LWIP_TCP_OPT_LENGTH c (seg_flags lu);
               space = mss_local - (seg_len lu + of_nat optlen);
               oversize = unsent_oversize pcb
           in if \<not> unat (seg_len lu) + optlen \<le> unat mss_local then None
              else if oversize \<noteq> oversize_left lu then None
              else if 0 < oversize \<and> \<not> oversize \<le> space then None
              else
                let used = (if 0 < oversize then min space (min oversize n) else 0);
                    t = t0\<lparr>tl_used := used, tl_touched := (0 < oversize), tl_oversize := oversize - used, tl_pos := used\<rparr>
                in if \<not> (oversize - used = 0 \<or> used = n) then None
                   else if used < n \<and> 0 < space - used \<and> 0 < seg_len lu
                   then write_concat pcb lu at d apiflags (space - used) t e
                   else Some (Go t e))"

text \<open>Phase 3: new segments. The loop would not end if \<open>mss_local\<close> were 0.\<close>

partial_function (option) write_loop ::
    "tcp_cfg \<Rightarrow> tcp_pcb \<Rightarrow> u16 \<Rightarrow> nat \<Rightarrow> u8 list \<Rightarrow> u8 \<Rightarrow> tcp_seg list \<Rightarrow> u16 \<Rightarrow> u16 \<Rightarrow> u16 \<Rightarrow> tenv
      \<Rightarrow> (tcp_seg list \<times> u16 \<times> u16) attempt option" where
  [code]: "write_loop c pcb mss_local at d apiflags queue oversize queuelen pos e =
     (let n = of_nat (length d)
      in if \<not> pos < n then Some (Go (queue, oversize, queuelen) e)
         else
           let seglen = min (n - pos) mss_local;
               r = (if is_set apiflags TCP_WRITE_FLAG_COPY
                    then case tcp_pbuf_prealloc seglen mss_local pcb apiflags (queue = []) e of
                           (e, None) \<Rightarrow> Some (Memerr e)
                         | (e, Some ov) \<Rightarrow> Some (Go ([(None, arg_slice d pos seglen)], ov) e)
                    else if oversize \<noteq> 0 then None
                    else if \<not> alloc_ok e then Some (Memerr (alloc_next e))
                    else
                      let e = alloc_next e
                      in if \<not> alloc_ok e then Some (Memerr (alloc_next e))
                         else Some (Go ([(None, []), (Some (at + unat pos + unat seglen), arg_slice d pos seglen)], oversize)
                                      (alloc_next e)))
           in case r of
                None \<Rightarrow> None
              | Some (Memerr e) \<Rightarrow> Some (Memerr e)
              | Some (Go (p, ov) e) \<Rightarrow>
                  let queuelen = queuelen + of_nat (length p)
                  in if unat queuelen > min (TCP_SND_QUEUELEN c) TCP_SNDQUEUELEN_OVERFLOW then Some (Memerr e)
                     else
                       case tcp_create_segment p 0 (snd_lbb pcb + ucast pos) 0 e of
                         (e, None) \<Rightarrow> Some (Memerr e)
                       | (e, Some s) \<Rightarrow>
                           write_loop c pcb mss_local at d apiflags (queue @ [s\<lparr>oversize_left := ov\<rparr>]) ov queuelen
                             (pos + seglen) e)"

definition map_last :: "('a \<Rightarrow> 'a) \<Rightarrow> 'a list \<Rightarrow> 'a list" where
  "map_last f xs = (if xs = [] then [] else butlast xs @ [f (last xs)])"

text \<open>The commit: what the phases have prepared goes into the last unsent segment.\<close>

definition extend_seg :: "u8 list \<Rightarrow> tail \<Rightarrow> tcp_seg \<Rightarrow> tcp_seg" where
  "extend_seg d t s =
     (let s = s\<lparr>oversize_left := oversize_left s + tl_add t\<rparr>;
          s = (if 0 < tl_used t
               then s\<lparr>seg_p := map_last (map_prod id (\<lambda>bs. bs @ arg_slice d 0 (tl_used t))) (seg_p s),
                      seg_len := seg_len s + tl_used t, oversize_left := oversize_left s - tl_used t\<rparr>
               else s)
      in case tl_concat t of
           Some p \<Rightarrow> s\<lparr>seg_p := seg_p s @ [p], seg_len := seg_len s + of_nat (length (snd p))\<rparr>
         | None \<Rightarrow>
             if 0 < tl_extend t
             then s\<lparr>seg_p := map_last (map_prod (map_option (\<lambda>a. a + unat (tl_extend t))) (\<lambda>bs. bs @ arg_slice d 0 (tl_extend t))) (seg_p s),
                    seg_len := seg_len s + tl_extend t\<rparr>
             else s)"

definition seg_set_flag :: "u8 \<Rightarrow> tcp_seg \<Rightarrow> tcp_seg" where
  "seg_set_flag f s = s\<lparr>seg_hdrflags := seg_hdrflags s OR f\<rparr>"

definition mss_write :: "tcp_cfg \<Rightarrow> tcp_pcb \<Rightarrow> u16" where
  "mss_write c pcb = (let m = min (mss pcb) (TCPWND_MIN16 c (snd_wnd_max pcb div 2)) in if m \<noteq> 0 then m else mss pcb)"

definition write_memerr :: "tcp_pcb \<Rightarrow> tenv \<Rightarrow> (tcp_pcb \<times> tenv \<times> err_t) option" where
  "write_memerr pcb e =
     (if snd_queuelen pcb \<noteq> 0 \<and> unacked pcb = [] \<and> unsent pcb = [] then None
      else Some (tcp_set_flags TF_NAGLEMEMERR pcb, e, ERR_MEM))"

definition write_commit ::
    "tcp_cfg \<Rightarrow> tcp_pcb \<Rightarrow> u8 list \<Rightarrow> u8 \<Rightarrow> tail \<Rightarrow> tcp_seg list \<Rightarrow> u16 \<Rightarrow> u16 \<Rightarrow> tcp_pcb option" where
  "write_commit c pcb d apiflags t queue oversize queuelen =
     (let old = map_last (extend_seg d t) (unsent pcb);
          psh = (if is_set apiflags TCP_WRITE_FLAG_MORE then id else seg_set_flag TCP_PSH);
          uns = (if queue \<noteq> [] then old @ map_last psh queue else if tl_touched t then map_last psh old else old)
      in if 0 < tl_used t \<and> \<not> tl_used t \<le> oversize_left (last (unsent pcb)) + tl_add t then None
         else if queuelen \<noteq> 0 \<and> unacked pcb = [] \<and> uns = [] then None
         else Some (pcb\<lparr>unsent := uns, unsent_oversize := oversize, snd_lbb := snd_lbb pcb + of_nat (length d),
                        snd_buf := tcpwnd c (snd_buf pcb - of_nat (length d)), snd_queuelen := queuelen\<rparr>))"

text \<open>The data is given with its address; \<open>None\<close> is the null pointer.\<close>

definition tcp_write ::
    "tcp_cfg \<Rightarrow> tcp_pcb \<Rightarrow> (nat \<times> u8 list) option \<Rightarrow> u8 \<Rightarrow> tenv \<Rightarrow> (tcp_pcb \<times> tenv \<times> err_t) option" where
  "tcp_write c pcb arg apiflags e =
     (case arg of
        None \<Rightarrow> Some (pcb, e, ERR_ARG)
      | Some (at, d) \<Rightarrow>
          do {
            (pcb, err) \<leftarrow> tcp_write_checks c pcb (of_nat (length d));
            if err \<noteq> ERR_OK then Some (pcb, e, err)
            else
              do {
                let mss_local = mss_write c pcb;
                r \<leftarrow> write_tail c pcb mss_local at d apiflags e;
                case r of
                  Memerr e \<Rightarrow> write_memerr pcb e
                | Go t e \<Rightarrow>
                    do {
                      q \<leftarrow> write_loop c pcb mss_local at d apiflags [] (tl_oversize t) (tl_queuelen t) (tl_pos t) e;
                      case q of
                        Memerr e \<Rightarrow> write_memerr pcb e
                      | Go (queue, oversize, queuelen) e \<Rightarrow>
                          map_option (\<lambda>pcb. (pcb, e, ERR_OK)) (write_commit c pcb d apiflags t queue oversize queuelen)
                    }
              }
          })"

subsection \<open>Splitting a segment\<close>

text \<open>\<open>pbuf_realloc\<close> on the data of a chain; the end of a reference moves back with its length.\<close>

fun cut_chunks :: "nat \<Rightarrow> chunk list \<Rightarrow> chunk list" where
  "cut_chunks n [] = []"
| "cut_chunks n ((a, bs) # cs) =
     (if length bs < n then (a, bs) # cut_chunks (n - length bs) cs
      else [(map_option (\<lambda>x. x - (length bs - n)) a, take n bs)])"

definition tcp_split_unsent_seg :: "tcp_cfg \<Rightarrow> u16 \<Rightarrow> tcp_pcb \<Rightarrow> tenv \<Rightarrow> (tcp_pcb \<times> tenv \<times> err_t) option" where
  "tcp_split_unsent_seg c split pcb e =
     (case unsent pcb of
        [] \<Rightarrow> Some (pcb, e, ERR_MEM)
      | useg # rest \<Rightarrow>
          if split = 0 then None
          else if seg_len useg \<le> split then Some (pcb, e, ERR_OK)
          else if \<not> split \<le> mss pcb then None
          else if \<not> alloc_ok e then Some (pcb, alloc_next e, ERR_MEM)
          else
            let e = alloc_next e;
                optflags = seg_flags useg;
                remainder = seg_len useg - split;
                offset = chunks_len (seg_p useg) - unat (seg_len useg) + unat split;
                copy = take (unat remainder) (drop offset (seg_data useg));
                split_flags = seg_hdrflags useg AND NOT (TCP_PSH OR TCP_FIN);
                remainder_flags = seg_hdrflags useg AND (TCP_PSH OR TCP_FIN)
            in if length copy \<noteq> unat remainder then Some (pcb, e, ERR_MEM)
               else
                 case tcp_create_segment [(None, copy)] remainder_flags (seg_seqno useg + ucast split) optflags e of
                   (e, None) \<Rightarrow> Some (pcb, e, ERR_MEM)
                 | (e, Some s) \<Rightarrow>
                     let queuelen = snd_queuelen pcb - pbuf_clen_seg useg;
                         useg = useg\<lparr>seg_p := cut_chunks (chunks_len (seg_p useg) - unat remainder) (seg_p useg),
                                     seg_len := seg_len useg - remainder,
                                     seg_hdrflags := seg_hdrflags useg OR split_flags, oversize_left := 0\<rparr>;
                         queuelen = queuelen + pbuf_clen_seg useg + pbuf_clen_seg s
                     in Some (pcb\<lparr>snd_queuelen := queuelen, unsent := useg # s # rest,
                                  unsent_oversize := (if rest = [] then 0 else unsent_oversize pcb)\<rparr>, e, ERR_OK))"

subsection \<open>Queueing SYN and FIN\<close>

definition tcp_enqueue_flags :: "tcp_cfg \<Rightarrow> u8 \<Rightarrow> tcp_pcb \<Rightarrow> tenv \<Rightarrow> (tcp_pcb \<times> tenv \<times> err_t) option" where
  "tcp_enqueue_flags c fl pcb e =
     (if \<not> is_set fl (TCP_SYN OR TCP_FIN) then None
      else
        let optflags =
              (if is_set fl TCP_SYN
               then TF_SEG_OPTS_MSS OR
                    (if LWIP_WND_SCALE c \<and> (state pcb \<noteq> SYN_RCVD \<or> tcp_is_flag_set pcb TF_WND_SCALE)
                     then TF_SEG_OPTS_WND_SCALE else 0)
               else 0)
        in if \<not> alloc_ok e then Some (tcp_set_flags TF_NAGLEMEMERR pcb, alloc_next e, ERR_MEM)
           else
             case tcp_create_segment [(None, [])] fl (snd_lbb pcb) optflags (alloc_next e) of
               (e, None) \<Rightarrow> Some (tcp_set_flags TF_NAGLEMEMERR pcb, e, ERR_MEM)
             | (e, Some s) \<Rightarrow>
                 let pcb = pcb\<lparr>unsent := unsent pcb @ [s], unsent_oversize := 0, snd_lbb := snd_lbb pcb + 1\<rparr>;
                     pcb = (if is_set fl TCP_FIN then tcp_set_flags TF_FIN pcb else pcb)
                 in Some (pcb\<lparr>snd_queuelen := snd_queuelen pcb + pbuf_clen_seg s\<rparr>, e, ERR_OK))"

definition tcp_send_fin :: "tcp_cfg \<Rightarrow> tcp_pcb \<Rightarrow> tenv \<Rightarrow> (tcp_pcb \<times> tenv \<times> err_t) option" where
  "tcp_send_fin c pcb e =
     (if unsent pcb \<noteq> [] \<and> \<not> is_set (seg_hdrflags (last (unsent pcb))) (TCP_SYN OR TCP_FIN OR TCP_RST)
      then Some (tcp_set_flags TF_FIN (pcb\<lparr>unsent := map_last (seg_set_flag TCP_FIN) (unsent pcb)\<rparr>), e, ERR_OK)
      else tcp_enqueue_flags c TCP_FIN pcb e)"

subsection \<open>Control segments\<close>

definition tcp_route :: "tcp_pcb option \<Rightarrow> u32 \<Rightarrow> u32 \<Rightarrow> tenv \<Rightarrow> netif_view option" where
  "tcp_route pcb src dst e = tcp_routes e (case pcb of None \<Rightarrow> 0 | Some p \<Rightarrow> netif_idx (ip p)) src dst"

definition tcp_output_alloc_header_common ::
    "u32 \<Rightarrow> u8 list \<Rightarrow> u32 \<Rightarrow> u16 \<Rightarrow> u16 \<Rightarrow> u8 \<Rightarrow> u16 \<Rightarrow> tenv \<Rightarrow> tenv \<times> tcp_pkt option" where
  "tcp_output_alloc_header_common ackno d seqno src_port dst_port fl wnd e =
     (alloc_next e,
      if alloc_ok e
      then Some \<lparr>pk_src = 0, pk_dst = 0, pk_sport = src_port, pk_dport = dst_port, pk_seqno = seqno, pk_ackno = ackno,
                 pk_flags = fl, pk_wnd = wnd, pk_opts = [], pk_data = d, pk_ttl = 0\<rparr>
      else None)"

definition tcp_output_alloc_header ::
    "tcp_cfg \<Rightarrow> u8 list \<Rightarrow> u32 \<Rightarrow> tcp_pcb \<Rightarrow> tenv \<Rightarrow> tcp_pcb \<times> tenv \<times> tcp_pkt option" where
  "tcp_output_alloc_header c d seqno pcb e =
     (case tcp_output_alloc_header_common (rcv_nxt pcb) d seqno (local_port pcb) (remote_port pcb) TCP_ACK
             (TCPWND_MIN16 c (RCV_WND_SCALE c pcb (rcv_ann_wnd pcb))) e of
        (e, None) \<Rightarrow> (pcb, e, None)
      | (e, Some p) \<Rightarrow> (pcb\<lparr>rcv_ann_right_edge := rcv_nxt pcb + rcv_ann_wnd pcb\<rparr>, e, Some p))"

definition tcp_output_control_segment_netif ::
    "tcp_cfg \<Rightarrow> tcp_pcb option \<Rightarrow> tcp_pkt \<Rightarrow> u32 \<Rightarrow> u32 \<Rightarrow> tenv \<Rightarrow> tenv \<times> err_t" where
  "tcp_output_control_segment_netif c pcb p src dst e =
     ip_output_if (p\<lparr>pk_src := src, pk_dst := dst,
                     pk_ttl := (case pcb of Some pcb \<Rightarrow> ttl (ip pcb) | None \<Rightarrow> TCP_TTL c)\<rparr>) e"

definition tcp_output_control_segment ::
    "tcp_cfg \<Rightarrow> tcp_pcb option \<Rightarrow> tcp_pkt \<Rightarrow> u32 \<Rightarrow> u32 \<Rightarrow> tenv \<Rightarrow> tenv \<times> err_t" where
  "tcp_output_control_segment c pcb p src dst e =
     (case tcp_route pcb src dst e of
        None \<Rightarrow> (e, ERR_RTE)
      | Some _ \<Rightarrow> tcp_output_control_segment_netif c pcb p src dst e)"

text \<open>The window is swapped twice: once here, once when the header is filled.\<close>

definition tcp_rst_common :: "tcp_cfg \<Rightarrow> u32 \<Rightarrow> u32 \<Rightarrow> u16 \<Rightarrow> u16 \<Rightarrow> tenv \<Rightarrow> tenv \<times> tcp_pkt option" where
  "tcp_rst_common c seqno ackno lport rport e =
     (let wnd = lwip_htons (if LWIP_WND_SCALE c then ucast (drop_bit (unat (TCP_RCV_SCALE c)) (TCP_WND c) AND 0xFFFF)
                            else ucast (TCP_WND c))
      in tcp_output_alloc_header_common ackno [] seqno lport rport (TCP_RST OR TCP_ACK) wnd e)"

definition tcp_rst ::
    "tcp_cfg \<Rightarrow> tcp_pcb option \<Rightarrow> u32 \<Rightarrow> u32 \<Rightarrow> u32 \<Rightarrow> u32 \<Rightarrow> u16 \<Rightarrow> u16 \<Rightarrow> tenv \<Rightarrow> tenv" where
  "tcp_rst c pcb seqno ackno lip rip lport rport e =
     (case tcp_rst_common c seqno ackno lport rport e of
        (e, None) \<Rightarrow> e
      | (e, Some p) \<Rightarrow> fst (tcp_output_control_segment c pcb p lip rip e))"

definition tcp_rst_netif ::
    "tcp_cfg \<Rightarrow> bool \<Rightarrow> u32 \<Rightarrow> u32 \<Rightarrow> u32 \<Rightarrow> u32 \<Rightarrow> u16 \<Rightarrow> u16 \<Rightarrow> tenv \<Rightarrow> tenv" where
  "tcp_rst_netif c has_netif seqno ackno lip rip lport rport e =
     (if has_netif
      then case tcp_rst_common c seqno ackno lport rport e of
             (e, None) \<Rightarrow> e
           | (e, Some p) \<Rightarrow> fst (tcp_output_control_segment_netif c None p lip rip e)
      else e)"

definition tcp_send_empty_ack :: "tcp_cfg \<Rightarrow> tcp_pcb \<Rightarrow> tenv \<Rightarrow> tcp_pcb \<times> tenv \<times> err_t" where
  "tcp_send_empty_ack c pcb e =
     (case tcp_output_alloc_header c [] (snd_nxt pcb) pcb e of
        (pcb, e, None) \<Rightarrow> (tcp_set_flags (TF_ACK_DELAY OR TF_ACK_NOW) pcb, e, ERR_BUF)
      | (pcb, e, Some p) \<Rightarrow>
          case tcp_output_control_segment c (Some pcb) p (local_ip (ip pcb)) (remote_ip (ip pcb)) e of
            (e, err) \<Rightarrow>
              (if err \<noteq> ERR_OK then tcp_set_flags (TF_ACK_DELAY OR TF_ACK_NOW) pcb
               else tcp_clear_flags (TF_ACK_DELAY OR TF_ACK_NOW) pcb, e, err))"

definition tcp_keepalive :: "tcp_cfg \<Rightarrow> tcp_pcb \<Rightarrow> tenv \<Rightarrow> tcp_pcb \<times> tenv \<times> err_t" where
  "tcp_keepalive c pcb e =
     (case tcp_output_alloc_header c [] (snd_nxt pcb - 1) pcb e of
        (pcb, e, None) \<Rightarrow> (pcb, e, ERR_MEM)
      | (pcb, e, Some p) \<Rightarrow>
          (pcb, tcp_output_control_segment c (Some pcb) p (local_ip (ip pcb)) (remote_ip (ip pcb)) e))"

text \<open>A segment with neither data nor FIN would send a byte that nothing has written: \<open>None\<close>.\<close>

definition tcp_zero_window_probe :: "tcp_cfg \<Rightarrow> tcp_pcb \<Rightarrow> tenv \<Rightarrow> (tcp_pcb \<times> tenv \<times> err_t) option" where
  "tcp_zero_window_probe c pcb e =
     (case unsent pcb of
        [] \<Rightarrow> Some (pcb, e, ERR_OK)
      | seg # _ \<Rightarrow>
          let pcb = (if persist_probe pcb < 0xFF then pcb\<lparr>persist_probe := persist_probe pcb + 1\<rparr> else pcb);
              is_fin = (is_set (seg_hdrflags seg) TCP_FIN \<and> seg_len seg = 0)
          in if \<not> is_fin \<and> seg_data seg = [] then None
             else
               case tcp_output_alloc_header c (if is_fin then [] else [hd (seg_data seg)]) (seg_seqno seg) pcb e of
                 (pcb, e, None) \<Rightarrow> Some (pcb, e, ERR_MEM)
               | (pcb, e, Some p) \<Rightarrow>
                   let p = (if is_fin then p\<lparr>pk_flags := TCP_ACK OR TCP_FIN\<rparr> else p);
                       nxt = seg_seqno seg + 1;
                       pcb = (if TCP_SEQ_LT (snd_nxt pcb) nxt then pcb\<lparr>snd_nxt := nxt\<rparr> else pcb)
                   in Some (pcb, tcp_output_control_segment c (Some pcb) p (local_ip (ip pcb)) (remote_ip (ip pcb)) e))"

subsection \<open>Sending what the windows allow\<close>

definition tcp_do_output_nagle :: "tcp_cfg \<Rightarrow> tcp_pcb \<Rightarrow> bool" where
  "tcp_do_output_nagle c pcb =
     (unacked pcb = [] \<or> tcp_is_flag_set pcb (TF_NODELAY OR TF_INFR) \<or>
      (case unsent pcb of [] \<Rightarrow> False | s # rest \<Rightarrow> rest \<noteq> [] \<or> mss pcb \<le> seg_len s) \<or>
      tcp_sndbuf c pcb = 0 \<or> TCP_SND_QUEUELEN c \<le> unat (snd_queuelen pcb))"

definition tcp_output_segment_busy :: "tcp_seg \<Rightarrow> bool" where
  "tcp_output_segment_busy s = (seg_ref s \<noteq> 1)"

definition TCP_BUILD_MSS_OPTION :: "u16 \<Rightarrow> u8 list" where
  "TCP_BUILD_MSS_OPTION m = [2, 4, ucast (drop_bit 8 m), ucast m]"

definition tcp_build_wnd_scale_option :: "tcp_cfg \<Rightarrow> u8 list" where
  "tcp_build_wnd_scale_option c = [1, 3, 3, TCP_RCV_SCALE c]"

definition seg_opts :: "tcp_cfg \<Rightarrow> netif_view \<Rightarrow> tcp_seg \<Rightarrow> u8 list" where
  "seg_opts c netif s =
     (if is_set (seg_flags s) TF_SEG_OPTS_MSS then TCP_BUILD_MSS_OPTION (tcp_eff_send_mss_netif TCP_MSS (Some netif)) else []) @
     (if LWIP_WND_SCALE c \<and> is_set (seg_flags s) TF_SEG_OPTS_WND_SCALE then tcp_build_wnd_scale_option c else [])"

definition tcp_output_segment ::
    "tcp_cfg \<Rightarrow> tcp_seg \<Rightarrow> netif_view \<Rightarrow> tcp_pcb \<Rightarrow> tenv \<Rightarrow> (tcp_pcb \<times> tenv \<times> err_t) option" where
  "tcp_output_segment c s netif pcb e =
     (if tcp_output_segment_busy s then Some (pcb, e, ERR_OK)
      else
        let wnd = (if LWIP_WND_SCALE c \<and> is_set (seg_flags s) TF_SEG_OPTS_WND_SCALE then TCPWND_MIN16 c (rcv_ann_wnd pcb)
                   else TCPWND_MIN16 c (RCV_WND_SCALE c pcb (rcv_ann_wnd pcb)));
            opts = seg_opts c netif s;
            pcb = pcb\<lparr>rcv_ann_right_edge := rcv_nxt pcb + rcv_ann_wnd pcb,
                      rtime := (if rtime pcb < 0 then 0 else rtime pcb)\<rparr>;
            pcb = (if rttest pcb = 0 then pcb\<lparr>rttest := tcp_ticks e, rtseq := seg_seqno s\<rparr> else pcb);
            p = \<lparr>pk_src = local_ip (ip pcb), pk_dst = remote_ip (ip pcb), pk_sport = local_port pcb,
                 pk_dport = remote_port pcb, pk_seqno = seg_seqno s, pk_ackno = rcv_nxt pcb,
                 pk_flags = seg_hdrflags s, pk_wnd = wnd, pk_opts = opts, pk_data = seg_data s, pk_ttl = ttl (ip pcb)\<rparr>
        in if length opts \<noteq> LWIP_TCP_OPT_LENGTH c (seg_flags s) then None
           else Some (pcb, ip_output_if p e))"

fun ins_sorted :: "tcp_seg \<Rightarrow> tcp_seg list \<Rightarrow> tcp_seg list" where
  "ins_sorted s [] = [s]"
| "ins_sorted s (x # xs) = (if TCP_SEQ_LT (seg_seqno x) (seg_seqno s) then x # ins_sorted s xs else s # x # xs)"

definition queue_unacked :: "tcp_seg \<Rightarrow> tcp_seg list \<Rightarrow> tcp_seg list" where
  "queue_unacked s un =
     (if un = [] then [s]
      else if TCP_SEQ_LT (seg_seqno s) (seg_seqno (last un)) then ins_sorted s un
      else un @ [s])"

definition in_window :: "u32 \<Rightarrow> u32 \<Rightarrow> tcp_seg \<Rightarrow> bool" where
  "in_window la wnd s = (seg_seqno s - la + ucast (seg_len s) \<le> wnd)"

definition seg_sent :: "tcp_seg \<Rightarrow> tcp_seg list \<Rightarrow> tcp_pcb \<Rightarrow> tcp_pcb" where
  "seg_sent s rest pcb =
     (let s = s\<lparr>oversize_left := 0\<rparr>;
          pcb = pcb\<lparr>unsent := rest\<rparr>;
          pcb = (if state pcb \<noteq> SYN_SENT then tcp_clear_flags (TF_ACK_DELAY OR TF_ACK_NOW) pcb else pcb);
          nxt = seg_seqno s + TCP_TCPLEN s;
          pcb = (if TCP_SEQ_LT (snd_nxt pcb) nxt then pcb\<lparr>snd_nxt := nxt\<rparr> else pcb)
      in if 0 < TCP_TCPLEN s then pcb\<lparr>unacked := queue_unacked s (unacked pcb)\<rparr> else pcb)"

text \<open>The loop of \<open>tcp_output\<close>; its list is the \<open>unsent\<close> queue of the control block.\<close>

fun output_loop ::
    "tcp_cfg \<Rightarrow> netif_view \<Rightarrow> u32 \<Rightarrow> tcp_seg list \<Rightarrow> tcp_pcb \<Rightarrow> tenv \<Rightarrow> (tcp_pcb \<times> tenv \<times> err_t) option" where
  "output_loop c netif wnd [] pcb e = Some (pcb, e, ERR_OK)"
| "output_loop c netif wnd (s # rest) pcb e =
     (if \<not> in_window (lastack pcb) wnd s then Some (pcb, e, ERR_OK)
      else if is_set (seg_hdrflags s) TCP_RST then None
      else if \<not> tcp_do_output_nagle c pcb \<and> \<not> tcp_is_flag_set pcb (TF_NAGLEMEMERR OR TF_FIN) then Some (pcb, e, ERR_OK)
      else
        let s = (if state pcb \<noteq> SYN_SENT then seg_set_flag TCP_ACK s else s);
            pcb = pcb\<lparr>unsent := s # rest\<rparr>
        in case tcp_output_segment c s netif pcb e of
             None \<Rightarrow> None
           | Some (pcb, e, err) \<Rightarrow>
               if err \<noteq> ERR_OK then Some (tcp_set_flags TF_NAGLEMEMERR pcb, e, err)
               else output_loop c netif wnd rest (seg_sent s rest pcb) e)"

definition output_done :: "tcp_pcb \<Rightarrow> tcp_pcb" where
  "output_done pcb = tcp_clear_flags TF_NAGLEMEMERR pcb"

definition tcp_output :: "tcp_cfg \<Rightarrow> tcp_pcb \<Rightarrow> tenv \<Rightarrow> (tcp_pcb \<times> tenv \<times> err_t) option" where
  "tcp_output c pcb e =
     (if state pcb = LISTEN then None
      else if in_input e then Some (pcb, e, ERR_OK)
      else
        let wnd = min (snd_wnd pcb) (cwnd pcb)
        in case unsent pcb of
             [] \<Rightarrow>
               if tcp_is_flag_set pcb TF_ACK_NOW then Some (tcp_send_empty_ack c pcb e)
               else Some (output_done pcb, e, ERR_OK)
           | s # rest \<Rightarrow>
               (case tcp_route (Some pcb) (local_ip (ip pcb)) (remote_ip (ip pcb)) e of
                  None \<Rightarrow> Some (pcb, e, ERR_RTE)
                | Some netif \<Rightarrow>
                    let pcb = (if local_ip (ip pcb) = 0 then pcb\<lparr>ip := (ip pcb)\<lparr>local_ip := if_addr netif\<rparr>\<rparr> else pcb)
                    in if \<not> in_window (lastack pcb) wnd s
                       then
                         let pcb = (if wnd = snd_wnd pcb \<and> unacked pcb = [] \<and> persist_backoff pcb = 0
                                    then pcb\<lparr>persist_cnt := 0, persist_backoff := 1, persist_probe := 0\<rparr> else pcb)
                         in if tcp_is_flag_set pcb TF_ACK_NOW then Some (tcp_send_empty_ack c pcb e)
                            else Some (output_done pcb, e, ERR_OK)
                       else
                         case output_loop c netif wnd (s # rest) (pcb\<lparr>persist_backoff := 0\<rparr>) e of
                           None \<Rightarrow> None
                         | Some (pcb, e, err) \<Rightarrow>
                             if err \<noteq> ERR_OK then Some (pcb, e, err)
                             else Some (output_done (if unsent pcb = [] then pcb\<lparr>unsent_oversize := 0\<rparr> else pcb), e, ERR_OK)))"

definition tcp_output_nagle :: "tcp_cfg \<Rightarrow> tcp_pcb \<Rightarrow> tenv \<Rightarrow> (tcp_pcb \<times> tenv \<times> err_t) option" where
  "tcp_output_nagle c pcb e = (if tcp_do_output_nagle c pcb then tcp_output c pcb e else Some (pcb, e, ERR_OK))"

subsection \<open>Retransmission\<close>

definition tcp_rexmit_rto_prepare :: "tcp_pcb \<Rightarrow> tcp_pcb \<times> err_t" where
  "tcp_rexmit_rto_prepare pcb =
     (if unacked pcb = [] then (pcb, ERR_VAL)
      else if list_ex tcp_output_segment_busy (unacked pcb) then (pcb, ERR_VAL)
      else
        let s = last (unacked pcb);
            pcb = (if unsent pcb = [] then pcb\<lparr>unsent_oversize := oversize_left s\<rparr> else pcb)
        in (tcp_set_flags TF_RTO (pcb\<lparr>unsent := unacked pcb @ unsent pcb, unacked := [],
                                      rto_end := seg_seqno s + TCP_TCPLEN s, rttest := 0\<rparr>), ERR_OK))"

definition tcp_rexmit_rto_commit :: "tcp_cfg \<Rightarrow> tcp_pcb \<Rightarrow> tenv \<Rightarrow> (tcp_pcb \<times> tenv) option" where
  "tcp_rexmit_rto_commit c pcb e =
     map_option (\<lambda>(pcb, e, _). (pcb, e))
       (tcp_output c (if nrtx pcb < 0xFF then pcb\<lparr>nrtx := nrtx pcb + 1\<rparr> else pcb) e)"

definition tcp_rexmit_rto :: "tcp_cfg \<Rightarrow> tcp_pcb \<Rightarrow> tenv \<Rightarrow> (tcp_pcb \<times> tenv) option" where
  "tcp_rexmit_rto c pcb e =
     (case tcp_rexmit_rto_prepare pcb of
        (pcb, err) \<Rightarrow> if err = ERR_OK then tcp_rexmit_rto_commit c pcb e else Some (pcb, e))"

definition tcp_rexmit :: "tcp_pcb \<Rightarrow> tcp_pcb \<times> err_t" where
  "tcp_rexmit pcb =
     (case unacked pcb of
        [] \<Rightarrow> (pcb, ERR_VAL)
      | s # rest \<Rightarrow>
          if tcp_output_segment_busy s then (pcb, ERR_VAL)
          else
            let uns = ins_sorted s (unsent pcb);
                pcb = pcb\<lparr>unacked := rest, unsent := uns,
                          unsent_oversize := (if list_all (\<lambda>x. TCP_SEQ_LT (seg_seqno x) (seg_seqno s)) (unsent pcb) then 0
                                              else unsent_oversize pcb),
                          nrtx := (if nrtx pcb < 0xFF then nrtx pcb + 1 else nrtx pcb), rttest := 0\<rparr>
            in (pcb, ERR_OK))"

definition tcp_rexmit_fast :: "tcp_cfg \<Rightarrow> tcp_pcb \<Rightarrow> tcp_pcb" where
  "tcp_rexmit_fast c pcb =
     (if unacked pcb \<noteq> [] \<and> \<not> tcp_is_flag_set pcb TF_INFR
      then case tcp_rexmit pcb of
             (pcb, err) \<Rightarrow>
               if err = ERR_OK
               then
                 let st = min (cwnd pcb) (snd_wnd pcb) div 2;
                     st = (if st < 2 * ucast (mss pcb) then tcpwnd c (2 * ucast (mss pcb)) else st);
                     pcb = pcb\<lparr>ssthresh := st, cwnd := tcpwnd c (st + 3 * ucast (mss pcb))\<rparr>
                 in (tcp_set_flags TF_INFR pcb)\<lparr>rtime := 0\<rparr>
               else pcb
      else pcb)"

end
