(* ===== verification/Tcp_In.thy ===== *)
theory Tcp_In
  imports Tcp_Out
begin

unbundle bit_operations_syntax

section \<open>TCP input\<close>

text \<open>
  \<open>tcp_in.c\<close> on one control block: \<open>tcp_receive\<close> with its acknowledgement part and its reassembly queue,
  the options, and the state machine \<open>tcp_process\<close>. The static variables of the file that describe the
  segment being processed are the record \<open>tin\<close>. The data of an incoming segment is kept as one buffer;
  cutting pbuf chains is the subject of \<open>Pbuf_Memory\<close>.
\<close>

record tin =
  inseg :: tcp_seg
  in_seqno :: u32
  in_ackno :: u32
  in_wnd :: u16
  in_flags :: u8
  in_tcplen :: u16
  in_opts :: "u8 list"
  in_past :: u8
  recv_acked :: u32
  recv_flags :: u8
  recv_data :: "u8 list option"

subsection \<open>The receive window\<close>

text \<open>The second component is how much more window would be announced.\<close>

definition tcp_update_rcv_ann_wnd :: "tcp_cfg \<Rightarrow> tcp_pcb \<Rightarrow> (tcp_pcb \<times> u32) option" where
  "tcp_update_rcv_ann_wnd c pcb =
     (let new_right_edge = rcv_nxt pcb + rcv_wnd pcb
      in if TCP_SEQ_GEQ new_right_edge (rcv_ann_right_edge pcb + min (TCP_WND c div 2) (ucast (mss pcb)))
         then Some (pcb\<lparr>rcv_ann_wnd := rcv_wnd pcb\<rparr>, new_right_edge - rcv_ann_right_edge pcb)
         else if TCP_SEQ_GT (rcv_nxt pcb) (rcv_ann_right_edge pcb) then Some (pcb\<lparr>rcv_ann_wnd := 0\<rparr>, 0)
         else
           let w = rcv_ann_right_edge pcb - rcv_nxt pcb
           in if \<not> LWIP_WND_SCALE c \<and> \<not> w \<le> 0xFFFF then None
              else Some (pcb\<lparr>rcv_ann_wnd := tcpwnd c w\<rparr>, 0))"

definition tcp_recved :: "tcp_cfg \<Rightarrow> u16 \<Rightarrow> tcp_pcb \<Rightarrow> tenv \<Rightarrow> (tcp_pcb \<times> tenv) option" where
  "tcp_recved c n pcb e =
     (if state pcb = LISTEN then None
      else
        let w = tcpwnd c (rcv_wnd pcb + ucast n);
            pcb = pcb\<lparr>rcv_wnd := (if w > TCP_WND_MAX c pcb \<or> w < rcv_wnd pcb then TCP_WND_MAX c pcb else w)\<rparr>
        in case tcp_update_rcv_ann_wnd c pcb of
             None \<Rightarrow> None
           | Some (pcb, infl) \<Rightarrow>
               if unat infl \<ge> TCP_WND_UPDATE_THRESHOLD c
               then map_option (\<lambda>(pcb, e, _). (pcb, e)) (tcp_output c (tcp_ack_now pcb) e)
               else Some (pcb, e))"

subsection \<open>Acknowledgements\<close>

fun free_acked ::
    "tcp_cfg \<Rightarrow> u32 \<Rightarrow> tcp_seg list \<Rightarrow> tcp_seg list \<Rightarrow> u16 \<Rightarrow> u32 \<Rightarrow> (tcp_seg list \<times> u16 \<times> u32) option" where
  "free_acked c ackno other [] ql ra = Some ([], ql, ra)"
| "free_acked c ackno other (s # ss) ql ra =
     (if TCP_SEQ_LEQ (seg_seqno s + TCP_TCPLEN s) ackno
      then
        let clen = pbuf_clen_seg s
        in if \<not> clen \<le> ql then None
           else if ql - clen \<noteq> 0 \<and> ss = [] \<and> other = [] then None
           else free_acked c ackno other ss (ql - clen) (tcpwnd c (ra + ucast (seg_len s)))
      else Some (s # ss, ql, ra))"

definition tcp_free_acked_segments ::
    "tcp_cfg \<Rightarrow> (tcp_seg list \<Rightarrow> tcp_pcb \<Rightarrow> tcp_pcb) \<Rightarrow> tcp_seg list \<Rightarrow> tcp_seg list \<Rightarrow> tin \<Rightarrow> tcp_pcb \<Rightarrow> (tin \<times> tcp_pcb) option" where
  "tcp_free_acked_segments c set_list ss other i pcb =
     map_option (\<lambda>(ss, ql, ra). (i\<lparr>recv_acked := ra\<rparr>, set_list ss (pcb\<lparr>snd_queuelen := ql\<rparr>)))
       (free_acked c (in_ackno i) other ss (snd_queuelen pcb) (recv_acked i))"

definition ack_window :: "tcp_cfg \<Rightarrow> tin \<Rightarrow> tcp_pcb \<Rightarrow> tcp_pcb" where
  "ack_window c i pcb =
     (let w = SND_WND_SCALE c pcb (ucast (in_wnd i))
      in if TCP_SEQ_LT (snd_wl1 pcb) (in_seqno i) \<or>
            snd_wl1 pcb = in_seqno i \<and> TCP_SEQ_LT (snd_wl2 pcb) (in_ackno i) \<or>
            snd_wl2 pcb = in_ackno i \<and> w > snd_wnd pcb
         then pcb\<lparr>snd_wnd := w, snd_wnd_max := max (snd_wnd_max pcb) w, snd_wl1 := in_seqno i, snd_wl2 := in_ackno i\<rparr>
         else pcb)"

definition ack_dup :: "tcp_cfg \<Rightarrow> u32 \<Rightarrow> tin \<Rightarrow> tcp_pcb \<Rightarrow> tcp_pcb" where
  "ack_dup c right_wnd_edge i pcb =
     (if in_tcplen i = 0 \<and> snd_wl2 pcb + snd_wnd pcb = right_wnd_edge \<and> 0 \<le> rtime pcb \<and> lastack pcb = in_ackno i
      then
        let pcb = (if dupacks pcb + 1 > dupacks pcb then pcb\<lparr>dupacks := dupacks pcb + 1\<rparr> else pcb);
            pcb = (if dupacks pcb > 3 then pcb\<lparr>cwnd := TCP_WND_INC c (cwnd pcb) (ucast (mss pcb))\<rparr> else pcb)
        in if dupacks pcb \<ge> 3 then tcp_rexmit_fast c pcb else pcb
      else pcb)"

definition ack_cwnd :: "tcp_cfg \<Rightarrow> u32 \<Rightarrow> tcp_pcb \<Rightarrow> tcp_pcb" where
  "ack_cwnd c acked pcb =
     (if state pcb \<ge> ESTABLISHED
      then if cwnd pcb < ssthresh pcb
           then
             let num_seg = (if tcp_is_flag_set pcb TF_RTO then 1 else 2);
                 increase = min acked (tcpwnd c (num_seg * ucast (mss pcb)))
             in pcb\<lparr>cwnd := TCP_WND_INC c (cwnd pcb) increase\<rparr>
           else
             let pcb = pcb\<lparr>bytes_acked := TCP_WND_INC c (bytes_acked pcb) acked\<rparr>
             in if bytes_acked pcb \<ge> cwnd pcb
                then pcb\<lparr>bytes_acked := bytes_acked pcb - cwnd pcb, cwnd := TCP_WND_INC c (cwnd pcb) (ucast (mss pcb))\<rparr>
                else pcb
      else pcb)"

definition ack_new :: "tcp_cfg \<Rightarrow> tin \<Rightarrow> tcp_pcb \<Rightarrow> (tin \<times> tcp_pcb) option" where
  "ack_new c i pcb =
     (let pcb = (if tcp_is_flag_set pcb TF_INFR
                 then (tcp_clear_flags TF_INFR pcb)\<lparr>cwnd := ssthresh pcb, bytes_acked := 0\<rparr> else pcb);
          acked = tcpwnd c (in_ackno i - lastack pcb);
          pcb = pcb\<lparr>nrtx := 0, rto := s16 (rtt_sa pcb div 8 + rtt_sv pcb), dupacks := 0, lastack := in_ackno i\<rparr>;
          pcb = ack_cwnd c acked pcb
      in do {
           (i, pcb) \<leftarrow> tcp_free_acked_segments c (\<lambda>ss. unacked_update (\<lambda>_. ss)) (unacked pcb) (unsent pcb) i pcb;
           (i, pcb) \<leftarrow> tcp_free_acked_segments c (\<lambda>ss. unsent_update (\<lambda>_. ss)) (unsent pcb) (unacked pcb) i pcb;
           let pcb = pcb\<lparr>rtime := (if unacked pcb = [] then -1 else 0), polltmr := 0,
                         unsent_oversize := (if unsent pcb = [] then 0 else unsent_oversize pcb),
                         snd_buf := tcpwnd c (snd_buf pcb + recv_acked i)\<rparr>;
           let rto_over = (case unacked pcb of
                             [] \<Rightarrow> (case unsent pcb of [] \<Rightarrow> True | s # _ \<Rightarrow> TCP_SEQ_LEQ (rto_end pcb) (seg_seqno s))
                           | s # _ \<Rightarrow> TCP_SEQ_LEQ (rto_end pcb) (seg_seqno s));
           Some (i, if tcp_is_flag_set pcb TF_RTO \<and> rto_over then tcp_clear_flags TF_RTO pcb else pcb)
         })"

definition ack_rtt :: "tin \<Rightarrow> tcp_pcb \<Rightarrow> tenv \<Rightarrow> tcp_pcb" where
  "ack_rtt i pcb e =
     (if rttest pcb \<noteq> 0 \<and> TCP_SEQ_LT (rtseq pcb) (in_ackno i)
      then
        let m = s16 (uint (tcp_ticks e - rttest pcb));
            m = s16 (m - rtt_sa pcb div 8);
            sa = s16 (rtt_sa pcb + m);
            m = (if m < 0 then s16 (- m) else m);
            m = s16 (m - rtt_sv pcb div 4);
            sv = s16 (rtt_sv pcb + m)
        in pcb\<lparr>rtt_sa := sa, rtt_sv := sv, rto := s16 (sa div 8 + sv), rttest := 0\<rparr>
      else pcb)"

definition receive_ack :: "tcp_cfg \<Rightarrow> tin \<Rightarrow> tcp_pcb \<Rightarrow> tenv \<Rightarrow> (tin \<times> tcp_pcb \<times> tenv) option" where
  "receive_ack c i pcb e =
     (if is_set (in_flags i) TCP_ACK
      then
        let right_wnd_edge = snd_wnd pcb + snd_wl2 pcb;
            pcb = ack_window c i pcb
        in do {
             (i, pcb, e) \<leftarrow>
               (if TCP_SEQ_LEQ (in_ackno i) (lastack pcb) then Some (i, ack_dup c right_wnd_edge i pcb, e)
                else if TCP_SEQ_BETWEEN (in_ackno i) (lastack pcb + 1) (snd_nxt pcb)
                then map_option (\<lambda>(i, pcb). (i, pcb, e)) (ack_new c i pcb)
                else case tcp_send_empty_ack c pcb e of (pcb, e, _) \<Rightarrow> Some (i, pcb, e));
             Some (i, ack_rtt i pcb e, e)
           }
      else Some (i, pcb, e))"

subsection \<open>Reassembly\<close>

text \<open>\<open>pbuf_realloc\<close> on the data of a segment, with the length that goes with it.\<close>

definition seg_trim :: "u16 \<Rightarrow> u16 \<Rightarrow> tcp_seg \<Rightarrow> tcp_seg" where
  "seg_trim n plen s = s\<lparr>seg_len := n, seg_p := [(None, take (unat plen) (seg_data s))]\<rparr>"

fun oos_covered :: "u32 \<Rightarrow> tcp_seg \<Rightarrow> tcp_seg list \<Rightarrow> tcp_seg \<times> tcp_seg list" where
  "oos_covered seqno cseg [] = (cseg, [])"
| "oos_covered seqno cseg (n # ns) =
     (if TCP_SEQ_GEQ (seqno + ucast (seg_len cseg)) (seg_seqno n + ucast (seg_len n))
      then oos_covered seqno (if is_set (seg_hdrflags n) TCP_FIN then seg_set_flag TCP_FIN cseg else cseg) ns
      else (cseg, n # ns))"

definition tcp_oos_insert_segment :: "u32 \<Rightarrow> tcp_seg \<Rightarrow> tcp_seg list \<Rightarrow> tcp_seg list" where
  "tcp_oos_insert_segment seqno cseg ns =
     (if is_set (seg_hdrflags cseg) TCP_FIN then [cseg]
      else
        case oos_covered seqno cseg ns of
          (cseg, []) \<Rightarrow> [cseg]
        | (cseg, n # ns) \<Rightarrow>
            if TCP_SEQ_GT (seqno + ucast (seg_len cseg)) (seg_seqno n)
            then seg_trim (ucast (seg_seqno n - seqno)) (ucast (seg_seqno n - seqno)) cseg # n # ns
            else cseg # n # ns)"

definition tcp_seg_copy :: "tcp_seg \<Rightarrow> tenv \<Rightarrow> tenv \<times> tcp_seg option" where
  "tcp_seg_copy s e = (alloc_next e, if alloc_ok e then Some s else None)"

text \<open>The segment goes behind the last one of the queue, cut to the window; the first component of the
  result is \<open>tcplen\<close>.\<close>

definition oos_append ::
    "tin \<Rightarrow> tcp_pcb \<Rightarrow> tcp_seg list \<Rightarrow> tcp_seg \<Rightarrow> tcp_seg \<Rightarrow> (u16 \<times> tcp_seg list) option" where
  "oos_append i pcb pre n cseg =
     (let seqno = in_seqno i;
          n = (if TCP_SEQ_GT (seg_seqno n + ucast (seg_len n)) seqno
               then seg_trim (ucast (seqno - seg_seqno n)) (ucast (seqno - seg_seqno n)) n else n);
          edge = rcv_nxt pcb + rcv_wnd pcb
      in if TCP_SEQ_GT (ucast (in_tcplen i) + seqno) edge
         then
           let cseg = cseg\<lparr>seg_hdrflags := seg_hdrflags cseg AND NOT TCP_FIN\<rparr>;
               cseg = seg_trim (ucast (edge - seqno)) (ucast (edge - seqno)) cseg;
               tcplen = ucast (TCP_TCPLEN cseg)
           in if seqno + ucast (tcplen :: u16) \<noteq> edge then None else Some (tcplen, pre @ [n, cseg])
         else Some (in_tcplen i, pre @ [n, cseg]))"

text \<open>The walk along the queue: \<open>pre\<close> are the segments already passed, the last of them \<open>prev\<close>.\<close>

fun oos_walk ::
    "tin \<Rightarrow> tcp_pcb \<Rightarrow> tcp_seg list \<Rightarrow> tcp_seg list \<Rightarrow> tenv \<Rightarrow> (u16 \<times> tcp_seg list \<times> tenv) option" where
  "oos_walk i pcb pre [] e = Some (in_tcplen i, pre, e)"
| "oos_walk i pcb pre (n # ns) e =
     (let seqno = in_seqno i; keep = Some (in_tcplen i, pre @ n # ns, e)
      in if seqno = seg_seqno n
         then
           if seg_len (inseg i) > seg_len n \<and> ns \<noteq> []
           then case tcp_seg_copy (inseg i) e of
                  (e, None) \<Rightarrow> Some (in_tcplen i, pre @ n # ns, e)
                | (e, Some cseg) \<Rightarrow> Some (in_tcplen i, pre @ tcp_oos_insert_segment seqno cseg (n # ns), e)
           else keep
         else if pre = [] \<and> TCP_SEQ_LT seqno (seg_seqno n)
         then case tcp_seg_copy (inseg i) e of
                (e, None) \<Rightarrow> Some (in_tcplen i, pre @ n # ns, e)
              | (e, Some cseg) \<Rightarrow> Some (in_tcplen i, tcp_oos_insert_segment seqno cseg (n # ns), e)
         else if pre \<noteq> [] \<and> TCP_SEQ_BETWEEN seqno (seg_seqno (last pre) + 1) (seg_seqno n - 1)
         then case tcp_seg_copy (inseg i) e of
                (e, None) \<Rightarrow> Some (in_tcplen i, pre @ n # ns, e)
              | (e, Some cseg) \<Rightarrow>
                  let prev = last pre;
                      prev = (if TCP_SEQ_GT (seg_seqno prev + ucast (seg_len prev)) seqno
                              then seg_trim (ucast (seqno - seg_seqno prev)) (ucast (seqno - seg_seqno prev)) prev else prev)
                  in Some (in_tcplen i, butlast pre @ [prev] @ tcp_oos_insert_segment seqno cseg (n # ns), e)
         else if ns = [] \<and> TCP_SEQ_GT seqno (seg_seqno n)
         then if is_set (seg_hdrflags n) TCP_FIN then keep
              else case tcp_seg_copy (inseg i) e of
                     (e, None) \<Rightarrow> Some (in_tcplen i, pre @ n # ns, e)
                   | (e, Some cseg) \<Rightarrow> map_option (\<lambda>(tl, q). (tl, q, e)) (oos_append i pcb pre n cseg)
         else oos_walk i pcb (pre @ [n]) ns e)"

text \<open>In-sequence data: the part of the queue it covers goes, a FIN found there is taken over.\<close>

fun drop_covered :: "u32 \<Rightarrow> u16 \<Rightarrow> tcp_seg \<Rightarrow> tcp_seg list \<Rightarrow> u16 \<times> tcp_seg \<times> tcp_seg list" where
  "drop_covered seqno tcplen s [] = (tcplen, s, [])"
| "drop_covered seqno tcplen s (n # ns) =
     (if TCP_SEQ_GEQ (seqno + ucast tcplen) (seg_seqno n + ucast (seg_len n))
      then if is_set (seg_hdrflags n) TCP_FIN \<and> \<not> is_set (seg_hdrflags s) TCP_SYN
           then let s = seg_set_flag TCP_FIN s in drop_covered seqno (ucast (TCP_TCPLEN s)) s ns
           else drop_covered seqno tcplen s ns
      else (tcplen, s, n # ns))"

definition inseq_cut :: "u32 \<Rightarrow> tcp_seg \<Rightarrow> tcp_seg" where
  "inseq_cut n s =
     (let len = (ucast n :: u16) - (if is_set (seg_hdrflags s) TCP_SYN then 1 else 0) in seg_trim len len s)"

definition inseq_window :: "tin \<Rightarrow> tcp_pcb \<Rightarrow> (u16 \<times> tcp_seg) option" where
  "inseq_window i pcb =
     (let s = inseg i; tcplen = (ucast (TCP_TCPLEN s) :: u16)
      in if ucast tcplen > rcv_wnd pcb
         then
           let s = inseq_cut (rcv_wnd pcb) (s\<lparr>seg_hdrflags := seg_hdrflags s AND NOT TCP_FIN\<rparr>);
               tcplen = ucast (TCP_TCPLEN s)
           in if in_seqno i + ucast tcplen = rcv_nxt pcb + rcv_wnd pcb then Some (tcplen, s) else None
         else Some (tcplen, s))"

definition inseq_ooseq :: "tin \<Rightarrow> u16 \<Rightarrow> tcp_seg \<Rightarrow> tcp_seg list \<Rightarrow> (u16 \<times> tcp_seg \<times> tcp_seg list) option" where
  "inseq_ooseq i tcplen s q =
     (if q = [] then Some (tcplen, s, [])
      else if is_set (seg_hdrflags s) TCP_FIN then Some (tcplen, s, [])
      else
        case drop_covered (in_seqno i) tcplen s q of
          (tcplen, s, []) \<Rightarrow> Some (tcplen, s, [])
        | (tcplen, s, n # ns) \<Rightarrow>
            if TCP_SEQ_GT (in_seqno i + ucast tcplen) (seg_seqno n)
            then
              let s = inseq_cut (seg_seqno n - in_seqno i) s; tcplen = ucast (TCP_TCPLEN s)
              in if in_seqno i + ucast tcplen = seg_seqno n then Some (tcplen, s, n # ns) else None
            else Some (tcplen, s, n # ns))"

definition take_data :: "tcp_seg \<Rightarrow> tin \<Rightarrow> tin" where
  "take_data s i =
     (if seg_data s = [] then i
      else i\<lparr>recv_data := (case recv_data i of None \<Rightarrow> Some (seg_data s) | Some d \<Rightarrow> Some (d @ seg_data s))\<rparr>)"

definition got_fin :: "tin \<Rightarrow> tin" where
  "got_fin i = i\<lparr>recv_flags := recv_flags i OR TF_GOT_FIN\<rparr>"

text \<open>The segments of the queue that are now in sequence.\<close>

fun dequeue :: "tcp_cfg \<Rightarrow> tcp_seg list \<Rightarrow> tin \<Rightarrow> tcp_pcb \<Rightarrow> (tin \<times> tcp_pcb) option" where
  "dequeue c [] i pcb = Some (i, pcb\<lparr>ooseq := []\<rparr>)"
| "dequeue c (s # q) i pcb =
     (if seg_seqno s \<noteq> rcv_nxt pcb then Some (i, pcb\<lparr>ooseq := s # q\<rparr>)
      else
        let i = i\<lparr>in_seqno := seg_seqno s\<rparr>; tl = TCP_TCPLEN s; pcb = pcb\<lparr>rcv_nxt := rcv_nxt pcb + tl\<rparr>
        in if \<not> tl \<le> rcv_wnd pcb then None
           else
             case tcp_update_rcv_ann_wnd c (pcb\<lparr>rcv_wnd := rcv_wnd pcb - tl\<rparr>) of
               None \<Rightarrow> None
             | Some (pcb, _) \<Rightarrow>
                 let i = take_data s i
                 in if is_set (seg_hdrflags s) TCP_FIN
                    then dequeue c q (got_fin i) (if state pcb = ESTABLISHED then pcb\<lparr>state := CLOSE_WAIT\<rparr> else pcb)
                    else dequeue c q i pcb)"

definition receive_inseq :: "tcp_cfg \<Rightarrow> tin \<Rightarrow> tcp_pcb \<Rightarrow> (tin \<times> tcp_pcb) option" where
  "receive_inseq c i pcb =
     do {
       (tcplen, s) \<leftarrow> inseq_window i pcb;
       (tcplen, s, q) \<leftarrow> inseq_ooseq i tcplen s (ooseq pcb);
       if \<not> ucast tcplen \<le> rcv_wnd pcb then None
       else
         do {
           (pcb, _) \<leftarrow> tcp_update_rcv_ann_wnd c
              (pcb\<lparr>ooseq := q, rcv_nxt := in_seqno i + ucast tcplen, rcv_wnd := rcv_wnd pcb - ucast tcplen\<rparr>);
           let i = i\<lparr>inseg := s, in_tcplen := tcplen,
                     recv_data := (if seg_data s = [] then recv_data i else Some (seg_data s))\<rparr>;
           let i = (if is_set (seg_hdrflags s) TCP_FIN then got_fin i else i);
           (i, pcb) \<leftarrow> dequeue c q i pcb;
           Some (i, tcp_ack pcb)
         }
     }"

text \<open>The first edge of a segment that begins before \<open>rcv_nxt\<close> is cut off.\<close>

definition trim_front :: "tin \<Rightarrow> tcp_pcb \<Rightarrow> (tin \<times> tcp_pcb) option" where
  "trim_front i pcb =
     (if TCP_SEQ_BETWEEN (rcv_nxt pcb) (in_seqno i + 1) (in_seqno i + ucast (in_tcplen i) - 1)
      then
        let off32 = rcv_nxt pcb - in_seqno i; s = inseg i; off = (ucast off32 :: u16)
        in if \<not> off32 < 0xFFFF \<or> \<not> unat off \<le> length (seg_data s) then None
           else Some (i\<lparr>inseg := s\<lparr>seg_len := seg_len s - off, seg_p := [(None, drop (unat off) (seg_data s))],
                                  seg_seqno := rcv_nxt pcb\<rparr>, in_seqno := rcv_nxt pcb\<rparr>, pcb)
      else if TCP_SEQ_LT (in_seqno i) (rcv_nxt pcb) then Some (i, tcp_ack_now pcb)
      else Some (i, pcb))"

definition receive_data :: "tcp_cfg \<Rightarrow> tin \<Rightarrow> tcp_pcb \<Rightarrow> tenv \<Rightarrow> (tin \<times> tcp_pcb \<times> tenv) option" where
  "receive_data c i pcb e =
     (let empty_ack = (\<lambda>i pcb e. case tcp_send_empty_ack c pcb e of (pcb, e, _) \<Rightarrow> Some (i, pcb, e))
      in if 0 < in_tcplen i \<and> state pcb < CLOSE_WAIT
         then
           do {
             (i, pcb) \<leftarrow> trim_front i pcb;
             if TCP_SEQ_BETWEEN (in_seqno i) (rcv_nxt pcb) (rcv_nxt pcb + rcv_wnd pcb - 1)
             then
               if rcv_nxt pcb = in_seqno i
               then map_option (\<lambda>(i, pcb). (i, pcb, e)) (receive_inseq c i pcb)
               else if ooseq pcb = []
               then case tcp_seg_copy (inseg i) e of
                      (e, s) \<Rightarrow> empty_ack i (pcb\<lparr>ooseq := (case s of None \<Rightarrow> [] | Some s \<Rightarrow> [s])\<rparr>) e
               else
                 do {
                   (tcplen, q, e) \<leftarrow> oos_walk i pcb [] (ooseq pcb) e;
                   empty_ack (i\<lparr>in_tcplen := tcplen\<rparr>) (pcb\<lparr>ooseq := q\<rparr>) e
                 }
             else empty_ack i pcb e
           }
         else if \<not> TCP_SEQ_BETWEEN (in_seqno i) (rcv_nxt pcb) (rcv_nxt pcb + rcv_wnd pcb - 1)
         then Some (i, tcp_ack_now pcb, e)
         else Some (i, pcb, e))"

definition tcp_receive :: "tcp_cfg \<Rightarrow> tin \<Rightarrow> tcp_pcb \<Rightarrow> tenv \<Rightarrow> (tin \<times> tcp_pcb \<times> tenv) option" where
  "tcp_receive c i pcb e =
     (if \<not> state pcb \<ge> ESTABLISHED then None
      else
        do {
          (i, pcb, e) \<leftarrow> receive_ack c i pcb e;
          receive_data c i pcb e
        })"

end
