(* ===== verification/Tcp_Send.thy ===== *)
theory Tcp_Send
  imports Tcp_Out "HOL-Library.Multiset"
begin

unbundle bit_operations_syntax

section \<open>The sender: what the queues hold\<close>

text \<open>
  The queues of a control block seen as one piece of the sequence space: the segments of \<open>unacked\<close> and
  \<open>unsent\<close>, sorted by sequence number from a base \<open>b\<close>, lie end to end, and their items, bytes and the
  SYN or FIN that takes one number, are the stream still to be acknowledged.
\<close>

subsection \<open>Definitions\<close>

definition off :: "u32 \<Rightarrow> tcp_seg \<Rightarrow> nat" where
  "off b s = unat (seg_seqno s - b)"

definition ordered :: "u32 \<Rightarrow> tcp_seg list \<Rightarrow> bool" where
  "ordered b ss = sorted_wrt (<) (map (off b) ss)"

fun contig :: "u32 \<Rightarrow> tcp_seg list \<Rightarrow> bool" where
  "contig b [] = True"
| "contig b (s # ss) = (seg_seqno s = b \<and> contig (b + TCP_TCPLEN s) ss)"

text \<open>\<open>None\<close> is SYN or FIN.\<close>

definition seg_seq :: "tcp_seg \<Rightarrow> u8 option list" where
  "seg_seq s =
     (if is_set (seg_hdrflags s) TCP_SYN then [None] else []) @ map Some (seg_data s) @
     (if is_set (seg_hdrflags s) TCP_FIN \<and> \<not> is_set (seg_hdrflags s) TCP_SYN then [None] else [])"

definition seqs :: "tcp_seg list \<Rightarrow> u8 option list" where
  "seqs ss = concat (map seg_seq ss)"

definition snd_queue :: "u32 \<Rightarrow> tcp_pcb \<Rightarrow> tcp_seg list" where
  "snd_queue b pcb = sort_key (off b) (unacked pcb @ unsent pcb)"

definition stream :: "u32 \<Rightarrow> tcp_pcb \<Rightarrow> u8 option list" where
  "stream b pcb = seqs (snd_queue b pcb)"

definition seg_ok :: "tcp_seg \<Rightarrow> bool" where
  "seg_ok s = (unat (seg_len s) = length (seg_data s) \<and> seg_p s \<noteq> [] \<and> seg_seq s \<noteq> [] \<and>
     (is_set (seg_hdrflags s) TCP_SYN \<longrightarrow> seg_data s = []) \<and> \<not> is_set (seg_hdrflags s) TCP_RST)"

definition clens :: "tcp_seg list \<Rightarrow> nat" where
  "clens ss = sum_list (map (\<lambda>s. length (seg_p s)) ss)"

definition snd_ok :: "u32 \<Rightarrow> tcp_pcb \<Rightarrow> bool" where
  "snd_ok b pcb = (ordered b (unacked pcb) \<and> ordered b (unsent pcb) \<and> contig b (snd_queue b pcb) \<and>
     list_all seg_ok (unacked pcb @ unsent pcb) \<and> length (stream b pcb) < 2 ^ 31 \<and>
     clens (unacked pcb @ unsent pcb) = unat (snd_queuelen pcb))"

text \<open>What \<open>tcp_write\<close> relies on at the end of the queue.\<close>

definition snd_tail :: "tcp_cfg \<Rightarrow> u32 \<Rightarrow> tcp_pcb \<Rightarrow> bool" where
  "snd_tail c b pcb = (contig b (unacked pcb @ unsent pcb) \<and> list_all (\<lambda>s. \<not> is_set (seg_hdrflags s) TCP_FIN) (unsent pcb) \<and>
     snd_lbb pcb = b + of_nat (length (stream b pcb)) \<and>
     list_all (\<lambda>s. unat (seg_len s) + LWIP_TCP_OPT_LENGTH c (seg_flags s) \<le> unat (mss_write c pcb)) (unsent pcb) \<and>
     (if unsent pcb = [] then unsent_oversize pcb = 0
      else let s = last (unsent pcb)
           in unsent_oversize pcb = oversize_left s \<and>
              (unsent_oversize pcb \<noteq> 0 \<longrightarrow> seg_len s \<noteq> 0 \<and> fst (last (seg_p s)) = None) \<and>
              unat (seg_len s) + LWIP_TCP_OPT_LENGTH c (seg_flags s) + unat (unsent_oversize pcb) \<le> unat (mss_write c pcb)))"

subsection \<open>Preallocation\<close>

lemma align_ge: "k + 7 < 2 ^ 32 \<Longrightarrow> k \<le> LWIP_MEM_ALIGN_SIZE k"
  by (simp add: LWIP_MEM_ALIGN_SIZE_def MEM_ALIGNMENT_def)

lemma prealloc_cases:
  assumes "plen \<le> maxl"
  obtains "tcp_pbuf_prealloc plen maxl pcb fl fs e = (alloc_next e, None)"
  | ov where "tcp_pbuf_prealloc plen maxl pcb fl fs e = (alloc_next e, Some ov)"
      "unat plen + unat ov \<le> unat maxl" "plen = maxl \<Longrightarrow> ov = 0"
proof (cases "alloc_ok e")
  case False
  then show ?thesis
    using that(1) by (simp add: tcp_pbuf_prealloc_def)
next
  case True
  let ?big = "plen < maxl \<and> (is_set fl TCP_WRITE_FLAG_MORE \<or>
             (\<not> tcp_is_flag_set pcb TF_NODELAY \<and> (\<not> fs \<or> unsent pcb \<noteq> [] \<or> unacked pcb \<noteq> [])))"
  show ?thesis
  proof (cases ?big)
    case False
    with True show ?thesis
      using that(2)[of 0] assms by (auto simp: tcp_pbuf_prealloc_def word_le_nat_alt)
  next
    case big: True
    define m where "m = min (unat maxl) (LWIP_MEM_ALIGN_SIZE (unat plen + TCP_OVERSIZE))"
    have "unat plen + TCP_OVERSIZE \<le> LWIP_MEM_ALIGN_SIZE (unat plen + TCP_OVERSIZE)"
      using unat_u16_less[of plen] by (intro align_ge) (simp add: TCP_OVERSIZE_def TCP_MSS_def del: unat_u16_less)
    then have m: "unat plen \<le> m" "m \<le> unat maxl"
      using assms by (auto simp: m_def word_le_nat_alt)
    have um: "unat (of_nat m :: u16) = m"
      using m(2) unat_u16_less[of maxl] by (simp add: unat_u16_of_nat del: unat_u16_less)
    have "unat (of_nat m - plen) = m - unat plen"
      using m(1) um by (subst unat_u16_sub) (auto simp: word_le_nat_alt)
    with m have "unat plen + unat (of_nat m - plen) \<le> unat maxl"
      by simp
    moreover have "tcp_pbuf_prealloc plen maxl pcb fl fs e = (alloc_next e, Some (of_nat m - plen))"
      using True big by (simp add: tcp_pbuf_prealloc_def m_def)
    ultimately show ?thesis
      using that(2) big by blast
  qed
qed

subsection \<open>Segments\<close>

lemma seg_seq_len0: "unat (seg_len s) = length (seg_data s) \<Longrightarrow> TCP_TCPLEN s = of_nat (length (seg_seq s))"
proof -
  assume len: "unat (seg_len s) = length (seg_data s)"
  have e: "is_set (seg_hdrflags s) (TCP_FIN OR TCP_SYN) \<longleftrightarrow> is_set (seg_hdrflags s) TCP_SYN \<or> is_set (seg_hdrflags s) TCP_FIN"
    by (auto simp: is_set_def bit.conj_disj_distrib or_eq_0_iff)
  have "(ucast (seg_len s) :: u32) = of_nat (length (seg_data s))"
    using len unat_u16_less[of "seg_len s"] by (simp add: word_unat_eq_iff unat_u32_of_nat del: unat_u16_less)
  then show ?thesis
    by (auto simp: TCP_TCPLEN_def e seg_seq_def)
qed

lemma seg_seq_len: "seg_ok s \<Longrightarrow> TCP_TCPLEN s = of_nat (length (seg_seq s))"
  by (rule seg_seq_len0) (simp add: seg_ok_def)

lemma contig_append: "contig b (xs @ ys) \<longleftrightarrow> contig b xs \<and> contig (b + sum_list (map TCP_TCPLEN xs)) ys"
  by (induction xs arbitrary: b) (auto simp: add.assoc)

lemma tcplens: "list_all seg_ok ss \<Longrightarrow> sum_list (map TCP_TCPLEN ss) = of_nat (length (seqs ss))"
  by (induction ss) (auto simp: seqs_def seg_seq_len)

lemma seqs_append [simp]: "seqs (xs @ ys) = seqs xs @ seqs ys"
  by (simp add: seqs_def)

lemma seqs_simps [simp]: "seqs [] = []" "seqs (s # ss) = seg_seq s @ seqs ss"
  by (simp_all add: seqs_def)

lemma contig_ordered:
  assumes "contig a ss" "list_all seg_ok ss" "a = b + of_nat k" "k + length (seqs ss) < 2 ^ 32"
  shows "ordered b ss \<and> (\<forall>s\<in>set ss. k \<le> off b s \<and> off b s < k + length (seqs ss))"
  using assms
proof (induction ss arbitrary: a k)
  case (Cons s ss)
  have ok: "seg_ok s" "seg_seq s \<noteq> []"
    using Cons.prems(2) by (auto simp: seg_ok_def)
  have o: "off b s = k"
    using Cons.prems by (simp add: off_def unat_u32_of_nat)
  have IH: "ordered b ss \<and> (\<forall>x\<in>set ss. k + length (seg_seq s) \<le> off b x \<and> off b x < k + length (seg_seq s) + length (seqs ss))"
    using Cons.prems ok by (intro Cons.IH[of "a + TCP_TCPLEN s"]) (auto simp: seg_seq_len)
  have "0 < length (seg_seq s)"
    using ok by simp
  then have "k < off b x \<and> off b x < k + length (seqs (s # ss))" if "x \<in> set ss" for x
    using bspec[OF conjunct2[OF IH] that] by (simp del: length_greater_0_conv)
  moreover have "ordered b ss"
    using IH by (rule conjunct1)
  ultimately show ?case
    using o ok by (auto simp: ordered_def intro: less_imp_le)
qed (simp add: ordered_def)

lemma queue_sorted_unique:
  assumes "mset xs = mset ys" "ordered b ys"
  shows "sort_key (off b) xs = ys"
proof (rule sort_key_inj_key_eq)
  have "distinct (map (off b) ys)" "sorted (map (off b) ys)"
    using assms(2) strict_sorted_iff by (auto simp: ordered_def)
  then show "sorted (map (off b) ys)" "inj_on (off b) (set xs)"
    using assms(1) by (auto simp: distinct_map dest: mset_eq_setD)
qed (rule assms(1))

lemma snd_queue_inorder:
  assumes "contig b (unacked pcb @ unsent pcb)" "list_all seg_ok (unacked pcb @ unsent pcb)"
    "length (seqs (unacked pcb @ unsent pcb)) < 2 ^ 32"
  shows "snd_queue b pcb = unacked pcb @ unsent pcb"
  unfolding snd_queue_def
proof (rule queue_sorted_unique)
  show "ordered b (unacked pcb @ unsent pcb)"
    using contig_ordered[of b "unacked pcb @ unsent pcb" b 0] assms by simp
qed simp

text \<open>A control block whose queues are in order is described by their concatenation.\<close>

lemma snd_ok_inorder:
  assumes "contig b (unacked pcb @ unsent pcb)" "list_all seg_ok (unacked pcb @ unsent pcb)"
    "length (seqs (unacked pcb @ unsent pcb)) < 2 ^ 31" "clens (unacked pcb @ unsent pcb) = unat (snd_queuelen pcb)"
  shows "snd_ok b pcb" "stream b pcb = seqs (unacked pcb @ unsent pcb)"
proof -
  have q: "snd_queue b pcb = unacked pcb @ unsent pcb"
    using assms by (intro snd_queue_inorder) auto
  then show "stream b pcb = seqs (unacked pcb @ unsent pcb)"
    by (simp add: stream_def)
  have "ordered b (unacked pcb @ unsent pcb)"
    using contig_ordered[of b "unacked pcb @ unsent pcb" b 0] assms by simp
  then have "ordered b (unacked pcb)" "ordered b (unsent pcb)"
    by (auto simp: ordered_def sorted_wrt_append)
  then show "snd_ok b pcb"
    using assms q by (simp add: snd_ok_def stream_def)
qed

lemma mset_seqs_length: "mset xs = mset ys \<Longrightarrow> length (seqs xs) = length (seqs ys)"
proof -
  assume "mset xs = mset ys"
  then have "sum_mset (image_mset (\<lambda>s. length (seg_seq s)) (mset xs)) = sum_mset (image_mset (\<lambda>s. length (seg_seq s)) (mset ys))"
    by simp
  then show ?thesis
    by (simp add: seqs_def length_concat sum_mset_sum_list[symmetric] comp_def del: sum_mset_sum_list)
qed

lemma snd_ok_stream_inorder:
  assumes "snd_ok b pcb" "contig b (unacked pcb @ unsent pcb)"
  shows "stream b pcb = seqs (unacked pcb @ unsent pcb)"
proof -
  have "mset (snd_queue b pcb) = mset (unacked pcb @ unsent pcb)"
    by (simp add: snd_queue_def)
  then have "length (seqs (unacked pcb @ unsent pcb)) < 2 ^ 31"
    using assms(1) mset_seqs_length[of "snd_queue b pcb" "unacked pcb @ unsent pcb"] by (simp add: snd_ok_def stream_def)
  then show ?thesis
    using snd_ok_inorder(2)[OF assms(2)] assms(1) by (simp add: snd_ok_def)
qed


subsection \<open>The phases of \<open>tcp_write\<close>\<close>

text \<open>What the phases 1 and 2 promise: the last unsent segment takes the first \<open>tl_pos\<close> bytes, stays within
  the segment size, and its spare room is \<open>tl_oversize\<close>.\<close>

definition tail_ok :: "tcp_cfg \<Rightarrow> tcp_pcb \<Rightarrow> u8 list \<Rightarrow> tail \<Rightarrow> bool" where
  "tail_ok c pcb d t =
     (unat (tl_pos t) \<le> length d \<and> (unat (tl_pos t) < length d \<longrightarrow> tl_oversize t = 0) \<and>
      tl_queuelen t = snd_queuelen pcb + (if tl_concat t = None then 0 else 1) \<and> (tl_concat t \<noteq> None \<longrightarrow> d \<noteq> []) \<and>
      (if unsent pcb = [] then tl_pos t = 0 \<and> tl_oversize t = 0 \<and> tl_used t = 0 \<and> tl_concat t = None
       else let lu = last (unsent pcb); s = extend_seg d t lu
            in seg_data s = seg_data lu @ take (unat (tl_pos t)) d \<and> unat (seg_len s) = unat (seg_len lu) + unat (tl_pos t) \<and>
               seg_hdrflags s = seg_hdrflags lu \<and> seg_flags s = seg_flags lu \<and> seg_seqno s = seg_seqno lu \<and>
               length (seg_p s) = length (seg_p lu) + (if tl_concat t = None then 0 else 1) \<and>
               oversize_left s = tl_oversize t \<and> (0 < tl_used t \<longrightarrow> tl_used t \<le> oversize_left lu + tl_add t) \<and>
               (tl_oversize t \<noteq> 0 \<longrightarrow> seg_len s \<noteq> 0 \<and> fst (last (seg_p s)) = None) \<and>
               unat (seg_len s) + LWIP_TCP_OPT_LENGTH c (seg_flags lu) + unat (tl_oversize t) \<le> unat (mss_write c pcb) \<and>
               (tl_pos t \<noteq> 0 \<longrightarrow> seg_len lu \<noteq> 0)))"

lemma seg_data_map_last:
  "p \<noteq> [] \<Longrightarrow> concat (map snd (map_last (map_prod f (\<lambda>bs. bs @ ys)) p)) = concat (map snd p) @ ys"
  by (cases p rule: rev_cases) (auto simp: map_last_def map_prod_def split: prod.splits)

lemma map_last_facts:
  "p \<noteq> [] \<Longrightarrow> last (map_last f p) = f (last p)" "length (map_last f p) = length p" "map_last f p = [] \<longleftrightarrow> p = []"
  by (cases p rule: rev_cases; auto simp: map_last_def)+

lemma u16_add_nat: "unat (a :: u16) + unat b \<le> unat (m :: u16) \<Longrightarrow> unat (a + b) = unat a + unat b"
  using unat_u16_less[of m] by (simp add: unat_u16_add del: unat_u16_less)

lemma arg_slice_len: "unat (pos :: u16) + unat (n :: u16) \<le> length d \<Longrightarrow> length (arg_slice d pos n) = unat n"
  by (simp add: arg_slice_def)

text \<open>The four ways in which the last segment grows.\<close>

lemma extend_used:
  assumes "seg_p lu \<noteq> []" "unat u \<le> length d" "unat (seg_len lu) + unat u \<le> unat (m :: u16)" "oversize_left lu = ov"
    "tl_concat t = None" "tl_extend t = 0" "tl_add t = 0" "tl_used t = u"
  shows "seg_data (extend_seg d t lu) = seg_data lu @ take (unat u) d"
    "unat (seg_len (extend_seg d t lu)) = unat (seg_len lu) + unat u"
    "seg_hdrflags (extend_seg d t lu) = seg_hdrflags lu" "seg_flags (extend_seg d t lu) = seg_flags lu"
    "seg_seqno (extend_seg d t lu) = seg_seqno lu" "length (seg_p (extend_seg d t lu)) = length (seg_p lu)"
    "oversize_left (extend_seg d t lu) = ov - u" "fst (last (seg_p (extend_seg d t lu))) = fst (last (seg_p lu))"
  using assms
  by (auto simp: extend_seg_def seg_data_def seg_data_map_last arg_slice_def map_last_facts Let_def u16_add_nat word_greater_zero_iff)

lemma extend_concat:
  assumes "seg_p lu \<noteq> []" "unat u + unat n \<le> length d" "unat (seg_len lu) + (unat u + unat n) \<le> unat (m :: u16)"
    "oversize_left lu = u" "tl_concat t = Some (a, arg_slice d u n)" "tl_used t = u"
  shows "seg_data (extend_seg d t lu) = seg_data lu @ take (unat (u + n)) d"
    "unat (seg_len (extend_seg d t lu)) = unat (seg_len lu) + unat (u + n)"
    "seg_hdrflags (extend_seg d t lu) = seg_hdrflags lu" "seg_flags (extend_seg d t lu) = seg_flags lu"
    "seg_seqno (extend_seg d t lu) = seg_seqno lu" "length (seg_p (extend_seg d t lu)) = length (seg_p lu) + 1"
    "oversize_left (extend_seg d t lu) = tl_add t" "fst (last (seg_p (extend_seg d t lu))) = a"
proof -
  have un: "unat (u + n) = unat u + unat n"
    using assms(3) by (intro u16_add_nat[of _ _ m]) simp
  have sl: "unat (of_nat (length (arg_slice d u n)) :: u16) = unat n" "length (arg_slice d u n) = unat n"
    using assms(2) by (simp_all add: arg_slice_len)
  have a2: "unat (seg_len lu + u) = unat (seg_len lu) + unat u"
    using assms(3) by (intro u16_add_nat[of _ _ m]) simp
  show "seg_data (extend_seg d t lu) = seg_data lu @ take (unat (u + n)) d"
    using assms(1,2,5,6)
    by (auto simp: extend_seg_def seg_data_def seg_data_map_last arg_slice_def Let_def un take_add word_greater_zero_iff)
  have "unat (seg_len lu + u + n) = unat (seg_len lu) + unat (u + n)" "unat (seg_len lu + n) = unat (seg_len lu) + unat n"
    using assms(3) a2 un u16_add_nat[of "seg_len lu + u" n m] u16_add_nat[of "seg_len lu" n m] by auto
  then show "unat (seg_len (extend_seg d t lu)) = unat (seg_len lu) + unat (u + n)"
    using assms(5,6) sl by (auto simp: extend_seg_def Let_def un word_greater_zero_iff)
qed (use assms in \<open>auto simp: extend_seg_def Let_def map_last_facts word_greater_zero_iff\<close>)

lemma extend_rom:
  assumes "seg_p lu \<noteq> []" "unat n \<le> length d" "unat (seg_len lu) + unat n \<le> unat (m :: u16)"
    "oversize_left lu = 0" "tl_concat t = None" "tl_extend t = n" "tl_add t = 0" "tl_used t = 0"
  shows "seg_data (extend_seg d t lu) = seg_data lu @ take (unat n) d"
    "unat (seg_len (extend_seg d t lu)) = unat (seg_len lu) + unat n"
    "seg_hdrflags (extend_seg d t lu) = seg_hdrflags lu" "seg_flags (extend_seg d t lu) = seg_flags lu"
    "seg_seqno (extend_seg d t lu) = seg_seqno lu" "length (seg_p (extend_seg d t lu)) = length (seg_p lu)"
    "oversize_left (extend_seg d t lu) = 0"
  using assms
  by (auto simp: extend_seg_def seg_data_def seg_data_map_last arg_slice_def map_last_facts Let_def u16_add_nat word_greater_zero_iff)


definition attempt_ok :: "('a \<Rightarrow> bool) \<Rightarrow> 'a attempt option \<Rightarrow> bool" where
  "attempt_ok P r = (case r of None \<Rightarrow> False | Some (Memerr _) \<Rightarrow> True | Some (Go x _) \<Rightarrow> P x)"

lemma attempt_ok_simps [simp]:
  "attempt_ok P (Some (Memerr e))" "attempt_ok P (Some (Go x e)) = P x" "\<not> attempt_ok P None"
  by (simp_all add: attempt_ok_def)

lemma attempt_cases:
  assumes "attempt_ok P r"
  obtains e where "r = Some (Memerr e)" | x e where "r = Some (Go x e)" "P x"
  using assms by (cases r) (auto simp: attempt_ok_def split: attempt.splits)

lemma write_concat_ok:
  assumes un: "unsent pcb \<noteq> []" "last (unsent pcb) = lu" and ok: "seg_ok lu" "seg_len lu \<noteq> 0"
    and u: "oversize_left lu = u" "u \<noteq> 0 \<longrightarrow> fst (last (seg_p lu)) = None"
    and t: "t = \<lparr>tl_used = u, tl_concat = None, tl_extend = 0, tl_touched = touched, tl_oversize = 0, tl_add = 0,
                 tl_queuelen = snd_queuelen pcb, tl_pos = u\<rparr>"
    and d: "length d < 65536" "unat u < length d"
    and sp: "unat (seg_len lu) + LWIP_TCP_OPT_LENGTH c (seg_flags lu) + unat u + unat space \<le> unat (mss_write c pcb)" "space \<noteq> 0"
  shows "attempt_ok (tail_ok c pcb d) (write_concat pcb lu at d fl space t e)"
proof -
  define n where "n = min space (of_nat (length d) - u)"
  have "unat (of_nat (length d) - u :: u16) = length d - unat u"
    using d by (subst unat_u16_sub) (auto simp: word_le_nat_alt unat_u16_of_nat)
  then have n: "unat n \<le> unat space" "unat u + unat n \<le> length d" "n \<noteq> space \<Longrightarrow> unat u + unat n = length d"
    using d by (auto simp: n_def min_def word_le_nat_alt split: if_splits)
  have un_add: "unat (u + n) = unat u + unat n"
    using sp n by (intro u16_add_nat[of _ _ "mss_write c pcb"]) simp
  have p: "seg_p lu \<noteq> []"
    using ok by (simp add: seg_ok_def)
  have len: "unat (seg_len lu) + (unat u + unat n) \<le> unat (mss_write c pcb)"
    using sp n by simp
  have conc: "tail_ok c pcb d (t\<lparr>tl_concat := Some (a, arg_slice d u n), tl_oversize := ov, tl_add := ov, tl_touched := True,
                                tl_queuelen := tl_queuelen t + 1, tl_pos := u + n\<rparr>)"
    if ov: "unat n + unat ov \<le> unat space" "n = space \<Longrightarrow> ov = 0" "ov \<noteq> 0 \<Longrightarrow> a = None" for a ov
  proof -
    let ?t = "t\<lparr>tl_concat := Some (a, arg_slice d u n), tl_oversize := ov, tl_add := ov, tl_touched := True,
                tl_queuelen := tl_queuelen t + 1, tl_pos := u + n\<rparr>"
    have e: "tl_concat ?t = Some (a, arg_slice d u n)" "tl_used ?t = u"
      by (simp_all add: t)
    note x = extend_concat[OF p n(2) len u(1) e]
    have "unat (u + ov) = unat u + unat ov"
      using sp ov by (intro u16_add_nat[of _ _ "mss_write c pcb"]) simp
    moreover have "d \<noteq> []"
      using d(2) by auto
    moreover have "unat u + unat n < length d \<Longrightarrow> ov = 0"
      using n(3) ov(2) by fastforce
    moreover have "seg_len (extend_seg d ?t lu) \<noteq> 0"
      using x(2) ok(2) by (auto simp: unat_eq_0)
    moreover have "unat (seg_len lu) + (unat u + unat n) + LWIP_TCP_OPT_LENGTH c (seg_flags lu) + unat ov \<le> unat (mss_write c pcb)"
      using sp ov by linarith
    ultimately show ?thesis
      unfolding tail_ok_def Let_def un
      using x ok(2) ov(3) n(2) un un_add u by (auto simp: t word_le_nat_alt)
  qed
  show ?thesis
  proof (cases "is_set fl TCP_WRITE_FLAG_COPY")
    case True
    have "n \<le> space"
      using n by (simp add: word_le_nat_alt)
    then show ?thesis
      by (rule prealloc_cases[of n space pcb fl True e])
        (use True conc in \<open>simp_all add: write_concat_def n_def[symmetric] t Let_def\<close>)
  next
    case copy: False
    show ?thesis
    proof (cases "fst (last (seg_p lu)) = Some at")
      case True
      then have u0: "u = 0"
        using u by auto
      let ?t = "t\<lparr>tl_extend := n, tl_touched := True, tl_pos := n\<rparr>"
      have len0: "unat (seg_len lu) + unat n \<le> unat (mss_write c pcb)" and nd: "unat n \<le> length d" and o0: "oversize_left lu = 0"
        using len n(2) u u0 by simp_all
      have "tl_concat ?t = None" "tl_extend ?t = n" "tl_add ?t = 0" "tl_used ?t = 0"
        by (simp_all add: t u0)
      note x = extend_rom[OF p nd len0 o0 this]
      have "tail_ok c pcb d ?t"
        unfolding tail_ok_def Let_def un
        using x ok(2) n un u0 sp by (auto simp: t word_le_nat_alt)
      then show ?thesis
        using copy True u0 p by (simp add: write_concat_def n_def t Let_def)
    next
      case False
      have "tail_ok c pcb d (t\<lparr>tl_concat := Some (Some (at + unat u + unat n), arg_slice d u n), tl_touched := True,
                                tl_queuelen := tl_queuelen t + 1, tl_pos := u + n\<rparr>)"
        using conc[of 0 "Some (at + unat u + unat n)"] n by (simp add: t)
      then show ?thesis
        using copy False p by (simp add: write_concat_def n_def[symmetric] t Let_def)
    qed
  qed
qed

lemma write_tail_ok:
  assumes ok: "snd_ok b pcb" and tl: "snd_tail c b pcb" and d: "length d < 65536"
  shows "attempt_ok (tail_ok c pcb d) (write_tail c pcb (mss_write c pcb) at d fl e)"
proof (cases "unsent pcb = []")
  case True
  then show ?thesis
    using tl by (auto simp: write_tail_def snd_tail_def tail_ok_def Let_def)
next
  case un: False
  define lu where "lu = last (unsent pcb)"
  define opt where "opt = LWIP_TCP_OPT_LENGTH c (seg_flags lu)"
  define m where "m = mss_write c pcb"
  define ov where "ov = unsent_oversize pcb"
  define used where "used = min (m - (seg_len lu + of_nat opt)) (min ov (of_nat (length d)))"
  have okl: "seg_ok lu" "seg_p lu \<noteq> []"
    using ok un last_in_set[OF un] unfolding snd_ok_def lu_def by (auto simp: list_all_iff seg_ok_def)
  have T: "ov = oversize_left lu" "ov \<noteq> 0 \<Longrightarrow> seg_len lu \<noteq> 0 \<and> fst (last (seg_p lu)) = None"
      "unat (seg_len lu) + opt + unat ov \<le> unat m"
    using tl un by (auto simp: snd_tail_def Let_def lu_def opt_def m_def ov_def)
  have o8: "opt \<le> 8"
    by (simp add: opt_def LWIP_TCP_OPT_LENGTH_def)
  have oo: "unat (of_nat opt :: u16) = opt"
    using o8 by (simp add: unat_u16_of_nat)
  have lo: "unat (seg_len lu + of_nat opt) = unat (seg_len lu) + opt"
    using T(3) oo u16_add_nat[of "seg_len lu" "of_nat opt" m] by simp
  have sp: "unat (m - (seg_len lu + of_nat opt)) = unat m - (unat (seg_len lu) + opt)"
    using T(3) lo by (subst unat_u16_sub) (auto simp: word_le_nat_alt)
  have nd: "unat (of_nat (length d) :: u16) = length d"
    using d by (simp add: unat_u16_of_nat)
  have us1: "unat used = min (unat ov) (length d)"
    using T(3) sp nd by (auto simp: used_def min_def word_le_nat_alt)
  then have us: "unat used = min (unat ov) (length d)" "ov = 0 \<Longrightarrow> used = 0"
    by (simp_all add: unat_eq_0)
  have ovu: "unat (ov - used) = unat ov - unat used"
    using us by (subst unat_u16_sub) (auto simp: word_le_nat_alt)
  define t where "t = \<lparr>tl_used = used, tl_concat = None, tl_extend = 0, tl_touched = (0 < ov), tl_oversize = ov - used,
                       tl_add = 0, tl_queuelen = snd_queuelen pcb, tl_pos = used\<rparr>"
  have sp2: "unat (m - (seg_len lu + of_nat opt) - used) = unat m - (unat (seg_len lu) + opt) - unat used"
    using sp us T(3) by (subst unat_u16_sub) (auto simp: word_le_nat_alt)
  have w: "write_tail c pcb m at d fl e =
      (if used < of_nat (length d) \<and> 0 < m - (seg_len lu + of_nat opt) - used \<and> 0 < seg_len lu
       then write_concat pcb lu at d fl (m - (seg_len lu + of_nat opt) - used) t e else Some (Go t e))"
  proof -
    have c1: "unat (seg_len lu) + opt \<le> unat m" "ov = oversize_left lu" "ov \<le> m - (seg_len lu + of_nat opt)"
      using T sp by (auto simp: word_le_nat_alt)
    have c2: "ov - used = 0 \<or> used = of_nat (length d)"
      using us(1) ovu nd by (auto simp: word_unat_eq_iff min_def split: if_splits)
    have c3: "(if 0 < ov then used else 0) = used"
      using us(2) by (auto simp: word_greater_zero_iff)
    show ?thesis
      unfolding write_tail_def Let_def lu_def[symmetric] opt_def[symmetric] ov_def[symmetric] used_def[symmetric] c3 t_def
      using un c1 c2 by simp
  qed
  show ?thesis
  proof (cases "used < of_nat (length d) \<and> 0 < m - (seg_len lu + of_nat opt) - used \<and> 0 < seg_len lu")
    case True
    then have "unat used < length d"
      using nd by (simp add: word_less_nat_alt)
    then have uo: "used = ov"
      using us(1) by (simp add: word_unat_eq_iff min_def split: if_splits)
    have "attempt_ok (tail_ok c pcb d) (write_concat pcb lu at d fl (m - (seg_len lu + of_nat opt) - used) t e)"
    proof (rule write_concat_ok[where u = used and touched = "0 < ov"])
      show "unat (seg_len lu) + LWIP_TCP_OPT_LENGTH c (seg_flags lu) + unat used + unat (m - (seg_len lu + of_nat opt) - used) \<le> unat (mss_write c pcb)"
        using sp2 T(3) uo by (simp add: opt_def[symmetric] m_def[symmetric])
      show "m - (seg_len lu + of_nat opt) - used \<noteq> 0" "seg_len lu \<noteq> 0"
        using True by (auto simp: word_greater_zero_iff)
    qed (use un lu_def okl T uo d \<open>unat used < length d\<close> in \<open>auto simp: t_def\<close>)
    then show ?thesis
      using w True by (simp add: m_def)
  next
    case False
    have len: "unat (seg_len lu) + unat used \<le> unat m"
      using T(3) us(1) by (auto simp: min_def split: if_splits)
    have ud: "unat used \<le> length d"
      using us(1) by simp
    have "tl_concat t = None" "tl_extend t = 0" "tl_add t = 0" "tl_used t = used"
      by (simp_all add: t_def)
    note x = extend_used[OF okl(2) ud len T(1)[symmetric] this]
    have "unat used < length d \<Longrightarrow> ov - used = 0"
      using us(1) ovu by (auto simp: word_unat_eq_iff min_def split: if_splits)
    moreover have "used \<noteq> 0 \<Longrightarrow> seg_len lu \<noteq> 0" "ov - used \<noteq> 0 \<Longrightarrow> seg_len lu \<noteq> 0 \<and> fst (last (seg_p lu)) = None"
      using T(2) us(2) by auto
    moreover have "used \<le> ov"
      using us(1) by (simp add: word_le_nat_alt)
    moreover have "unat (seg_len lu) + unat used + opt + unat (ov - used) \<le> unat m"
      using T(3) ovu us(1) by simp
    moreover have "seg_len (extend_seg d t lu) \<noteq> 0" if "seg_len lu \<noteq> 0"
      using x(2) that by (auto simp: unat_eq_0)
    ultimately have "tail_ok c pcb d t"
      unfolding tail_ok_def Let_def lu_def[symmetric] opt_def[symmetric] m_def[symmetric]
      using x un ud T(1) by (auto simp: t_def)
    then show ?thesis
      using w False by (auto simp: m_def)
  qed
qed


text \<open>The invariant of phase 3: the new segments hold the bytes from \<open>p0\<close> up to \<open>pos\<close>, and no count wraps.\<close>

definition loop_inv ::
    "tcp_pcb \<Rightarrow> u16 \<Rightarrow> u8 list \<Rightarrow> bool \<Rightarrow> u16 \<Rightarrow> u16 \<Rightarrow> u16 \<Rightarrow> tcp_seg list \<Rightarrow> u16 \<Rightarrow> u16 \<Rightarrow> u16 \<Rightarrow> bool" where
  "loop_inv pcb m d copy p0 ov0 q0 queue ov queuelen pos =
     (p0 \<le> pos \<and> unat pos \<le> length d \<and> list_all seg_ok queue \<and> contig (snd_lbb pcb + ucast p0) queue \<and>
      seqs queue = map Some (take (unat pos - unat p0) (drop (unat p0) d)) \<and>
      list_all (\<lambda>s. seg_hdrflags s = 0 \<and> seg_flags s = 0 \<and> seg_len s \<le> m) queue \<and>
      unat queuelen = unat q0 + clens queue \<and> (unat pos < length d \<longrightarrow> unat queuelen \<le> 65533) \<and>
      (\<not> copy \<and> unat pos < length d \<longrightarrow> ov = 0) \<and>
      (if queue = [] then ov = ov0
       else oversize_left (last queue) = ov \<and> unat (seg_len (last queue)) + unat ov \<le> unat m \<and>
            seg_len (last queue) \<noteq> 0 \<and> (ov \<noteq> 0 \<longrightarrow> fst (last (seg_p (last queue))) = None)))"

lemma is_set_0 [simp]: "\<not> is_set 0 x"
  by (simp add: is_set_def)

lemma seqs_len_ucast: "list_all seg_ok queue \<Longrightarrow> seqs queue = map Some (take (unat pos - unat p0) (drop (unat p0) d)) \<Longrightarrow>
    p0 \<le> pos \<Longrightarrow> unat pos \<le> length d \<Longrightarrow> b + ucast (p0 :: u16) + sum_list (map TCP_TCPLEN queue) = b + ucast pos"
proof -
  assume a: "list_all seg_ok queue" "seqs queue = map Some (take (unat pos - unat p0) (drop (unat p0) d))"
    "p0 \<le> pos" "unat pos \<le> length d"
  then have "length (seqs queue) = unat pos - unat p0"
    by simp
  then have "sum_list (map TCP_TCPLEN queue) = of_nat (unat pos - unat p0)"
    using a(1) by (simp add: tcplens)
  also have "\<dots> = of_nat (unat pos) - of_nat (unat p0)"
    using a(3) by (simp add: of_nat_diff word_le_nat_alt)
  also have "\<dots> = ucast pos - ucast p0"
    by (simp add: unsigned_of_nat)
  finally show ?thesis
    by simp
qed

lemma loop_inv_step:
  assumes I: "loop_inv pcb m d copy p0 ov0 q0 queue ov queuelen pos"
    and n: "0 < unat n" "unat n \<le> unat m" "unat pos + unat n \<le> length d" "length d < 65536"
    and p: "concat (map snd p) = arg_slice d pos n" "p \<noteq> []" "length p \<le> 2" "unat (queuelen + of_nat (length p)) \<le> 65532"
    and o: "unat n + unat ov' \<le> unat m" "ov' \<noteq> 0 \<longrightarrow> fst (last p) = None" "\<not> copy \<Longrightarrow> ov' = ov" "unat pos < length d"
    and s: "s = \<lparr>seg_p = p, seg_len = of_nat (chunks_len p), oversize_left = ov', seg_flags = 0,
                 seg_seqno = snd_lbb pcb + ucast pos, seg_hdrflags = 0, seg_ref = 1\<rparr>"
  shows "loop_inv pcb m d copy p0 ov0 q0 (queue @ [s]) ov' (queuelen + of_nat (length p)) (pos + n)"
proof -
  note I = I[unfolded loop_inv_def]
  have le: "length (arg_slice d pos n) = unat n"
    using n by (simp add: arg_slice_len)
  have sd: "seg_data s = arg_slice d pos n" and sl: "unat (seg_len s) = unat n"
    using p le by (simp_all add: s seg_data_def chunks_len_def)
  have ss: "seg_seq s = map Some (arg_slice d pos n)"
    by (simp add: seg_seq_def sd) (simp add: s)
  have ok: "seg_ok s"
    using sd sl le n(1) p(2) ss by (auto simp: seg_ok_def s)
  have pn: "unat (pos + n) = unat pos + unat n"
    using n by (simp add: unat_u16_add)
  have "unat (queuelen + of_nat (length p)) = unat queuelen + length p"
    using I p(3) o(4) by (simp add: unat_u16_add unat_u16_of_nat)
  moreover have "clens (queue @ [s]) = clens queue + length p"
    by (simp add: clens_def s)
  moreover have "contig (snd_lbb pcb + ucast p0) (queue @ [s])"
    using I seqs_len_ucast[of queue pos p0 d "snd_lbb pcb"] by (simp add: contig_append s)
  moreover have "take (unat (pos + n) - unat p0) (drop (unat p0) d) =
      take (unat pos - unat p0) (drop (unat p0) d) @ arg_slice d pos n"
  proof -
    have e: "unat (pos + n) - unat p0 = (unat pos - unat p0) + unat n" "unat pos - unat p0 + unat p0 = unat pos"
      using I pn by (simp_all add: word_le_nat_alt)
    show ?thesis
      by (simp only: e take_add drop_drop arg_slice_def)
  qed
  moreover have "p0 \<le> pos + n" "unat (pos + n) \<le> length d"
    using I n pn by (simp_all add: word_le_nat_alt)
  moreover have "seg_len s \<le> m" "seg_len s \<noteq> 0" "oversize_left s = ov'" "seg_hdrflags s = 0" "seg_flags s = 0" "seg_p s = p"
    using sl n by (auto simp: word_le_nat_alt s unat_eq_0 simp del: unat_eq_zero)
  moreover have "\<not> copy \<longrightarrow> ov' = 0"
    using I o by auto
  ultimately show ?thesis
    unfolding loop_inv_def using I ok ss sl o p by auto
qed


lemma write_loop_ok:
  assumes m: "m \<noteq> 0" and d: "length d < 65536"
  shows "loop_inv pcb m d (is_set fl TCP_WRITE_FLAG_COPY) p0 ov0 q0 queue ov queuelen pos \<Longrightarrow>
    attempt_ok (\<lambda>(q, ov', ql). loop_inv pcb m d (is_set fl TCP_WRITE_FLAG_COPY) p0 ov0 q0 q ov' ql (of_nat (length d)))
      (write_loop c pcb m at d fl queue ov queuelen pos e)"
proof (induction "length d - unat pos" arbitrary: queue ov queuelen pos e rule: less_induct)
  case less
  let ?copy = "is_set fl TCP_WRITE_FLAG_COPY"
  define n where "n = min (of_nat (length d) - pos) m"
  have nd: "unat (of_nat (length d) :: u16) = length d"
    using d by (simp add: unat_u16_of_nat)
  show ?case
  proof (cases "pos < of_nat (length d)")
    case False
    then have "pos = of_nat (length d)"
      using less.prems nd by (simp add: loop_inv_def word_unat_eq_iff word_less_nat_alt)
    then show ?thesis
      using less.prems by (subst write_loop.simps) simp
  next
    case True
    then have pl: "unat pos < length d"
      using nd by (simp add: word_less_nat_alt)
    have "unat (of_nat (length d) - pos) = length d - unat pos"
      using pl nd by (subst unat_u16_sub) (auto simp: word_le_nat_alt)
    then have nn: "0 < unat n" "unat n \<le> unat m" "unat pos + unat n \<le> length d"
      using pl m by (auto simp: n_def min_def word_le_nat_alt unat_gt_0 split: if_splits)
    have pn: "unat (pos + n) = unat pos + unat n"
      using nn d by (simp add: unat_u16_add)
    have le: "length (arg_slice d pos n) = unat n"
      using nn by (simp add: arg_slice_len)
    define rest where "rest p ov' e =
        (let queuelen = queuelen + of_nat (length p)
         in if unat queuelen > min (TCP_SND_QUEUELEN c) TCP_SNDQUEUELEN_OVERFLOW then Some (Memerr e)
            else
              case tcp_create_segment p 0 (snd_lbb pcb + ucast pos) 0 e of
                (e, None) \<Rightarrow> Some (Memerr e)
              | (e, Some s) \<Rightarrow>
                  write_loop c pcb m at d fl (queue @ [s\<lparr>oversize_left := ov'\<rparr>]) ov' queuelen (pos + n) e)" for p ov' e
    have R: "attempt_ok (\<lambda>(q, ov', ql). loop_inv pcb m d ?copy p0 ov0 q0 q ov' ql (of_nat (length d))) (rest p ov' e)"
      if p: "concat (map snd p) = arg_slice d pos n" "p \<noteq> []" "length p \<le> 2"
        and o: "unat n + unat ov' \<le> unat m" "ov' \<noteq> 0 \<longrightarrow> fst (last p) = None" "\<not> ?copy \<Longrightarrow> ov' = ov" for p ov' e
    proof (cases "unat (queuelen + of_nat (length p)) > min (TCP_SND_QUEUELEN c) TCP_SNDQUEUELEN_OVERFLOW \<or> \<not> alloc_ok e")
      case True
      then show ?thesis
        by (auto simp: rest_def tcp_create_segment_def Let_def)
    next
      case False
      then have q: "unat (queuelen + of_nat (length p)) \<le> 65532"
        by (simp add: TCP_SNDQUEUELEN_OVERFLOW_def not_less)
      have "length d - unat (pos + n) < length d - unat pos"
        using pn nn pl by simp
      from less.hyps[OF this loop_inv_step[OF less.prems nn d p q o pl refl]] False show ?thesis
        by (simp add: rest_def tcp_create_segment_def Let_def)
    qed
    have w: "write_loop c pcb m at d fl queue ov queuelen pos e =
      (if ?copy
       then case tcp_pbuf_prealloc n m pcb fl (queue = []) e of
              (e, None) \<Rightarrow> Some (Memerr e)
            | (e, Some ov) \<Rightarrow> rest [(None, arg_slice d pos n)] ov e
       else if ov \<noteq> 0 then None
       else if \<not> alloc_ok e then Some (Memerr (alloc_next e))
       else if \<not> alloc_ok (alloc_next e) then Some (Memerr (alloc_next (alloc_next e)))
       else rest [(None, []), (Some (at + unat pos + unat n), arg_slice d pos n)] ov (alloc_next (alloc_next e)))"
      using True
      by (subst write_loop.simps) (simp add: n_def[symmetric] rest_def Let_def split: prod.split option.split)
    show ?thesis
    proof (cases ?copy)
      case True
      have "n \<le> m"
        using nn by (simp add: word_le_nat_alt)
      then show ?thesis
        by (rule prealloc_cases[of n m pcb fl "queue = []" e]) (use True R in \<open>simp_all add: w\<close>)
    next
      case False
      then have "ov = 0"
        using less.prems pl by (simp add: loop_inv_def)
      then show ?thesis
        using False nn R[of "[(None, []), (Some (at + unat pos + unat n), arg_slice d pos n)]" ov] unfolding w by simp
    qed
  qed
qed


subsection \<open>Segments that differ only in what the stream does not see\<close>

definition seg_eq :: "tcp_seg \<Rightarrow> tcp_seg \<Rightarrow> bool" where
  "seg_eq s s' = (seg_p s = seg_p s' \<and> seg_len s = seg_len s' \<and> seg_seqno s = seg_seqno s' \<and> seg_flags s = seg_flags s' \<and>
     (\<forall>f\<in>{TCP_SYN, TCP_FIN, TCP_RST}. is_set (seg_hdrflags s) f = is_set (seg_hdrflags s') f))"

lemma seg_eq_refl [simp]: "seg_eq s s"
  by (simp add: seg_eq_def)

lemma seg_eq_facts:
  assumes "seg_eq s s'"
  shows "seg_data s = seg_data s'" "seg_seq s = seg_seq s'" "TCP_TCPLEN s = TCP_TCPLEN s'" "seg_ok s = seg_ok s'" "off b s = off b s'"
proof -
  show d: "seg_data s = seg_data s'"
    using assms by (simp add: seg_eq_def seg_data_def)
  then show q: "seg_seq s = seg_seq s'"
    using assms by (simp add: seg_eq_def seg_seq_def)
  have "is_set f (TCP_FIN OR TCP_SYN) \<longleftrightarrow> is_set f TCP_SYN \<or> is_set f TCP_FIN" for f
    by (auto simp: is_set_def bit.conj_disj_distrib or_eq_0_iff)
  then show "TCP_TCPLEN s = TCP_TCPLEN s'"
    using assms by (simp add: seg_eq_def TCP_TCPLEN_def)
  show "seg_ok s = seg_ok s'"
    using assms d q by (simp add: seg_eq_def seg_ok_def)
  show "off b s = off b s'"
    using assms by (simp add: seg_eq_def off_def)
qed

lemma segs_eq_facts:
  assumes "list_all2 seg_eq ss ss'"
  shows "seqs ss = seqs ss'" "contig b ss = contig b ss'" "list_all seg_ok ss = list_all seg_ok ss'"
    "clens ss = clens ss'" "map (off b) ss = map (off b) ss'"
proof -
  have *: "seg_eq s s' \<Longrightarrow> seg_p s = seg_p s' \<and> seg_seqno s = seg_seqno s'" for s s'
    by (simp add: seg_eq_def)
  show "contig b ss = contig b ss'"
    using assms by (induction arbitrary: b rule: list_all2_induct) (auto simp: seg_eq_facts(3) dest: *)
  show "seqs ss = seqs ss'" "list_all seg_ok ss = list_all seg_ok ss'" "clens ss = clens ss'" "map (off b) ss = map (off b) ss'"
    using assms by (induction rule: list_all2_induct) (auto simp: seg_eq_facts(2,4,5) clens_def dest: *)
qed

lemma seg_set_flag_eq: "\<forall>m\<in>{TCP_SYN, TCP_FIN, TCP_RST}. f AND m = 0 \<Longrightarrow> seg_eq (seg_set_flag f s) s"
  by (auto simp: seg_eq_def seg_set_flag_def is_set_def bit.conj_disj_distrib2)

lemma psh_eq: "seg_eq (seg_set_flag TCP_PSH s) s" and ack_eq: "seg_eq (seg_set_flag TCP_ACK s) s"
  by (rule seg_set_flag_eq, simp add: TCP_PSH_def TCP_ACK_def TCP_SYN_def TCP_FIN_def TCP_RST_def)+

lemma map_last_eq: "(\<And>s. seg_eq (f s) s) \<Longrightarrow> list_all2 seg_eq (map_last f ss) ss"
  by (cases ss rule: rev_cases) (auto simp: map_last_def list_all2_appendI list_all2_refl)


subsection \<open>The whole of \<open>tcp_write\<close>\<close>

lemma extended_seq:
  assumes "tail_ok c pcb d t" "unsent pcb \<noteq> []" "seg_ok (last (unsent pcb))" "\<not> is_set (seg_hdrflags (last (unsent pcb))) TCP_FIN"
  shows "seg_seq (extend_seg d t (last (unsent pcb))) = seg_seq (last (unsent pcb)) @ map Some (take (unat (tl_pos t)) d)"
    "seg_ok (extend_seg d t (last (unsent pcb)))"
proof -
  let ?lu = "last (unsent pcb)" and ?s = "extend_seg d t (last (unsent pcb))"
  have T: "seg_data ?s = seg_data ?lu @ take (unat (tl_pos t)) d" "unat (seg_len ?s) = unat (seg_len ?lu) + unat (tl_pos t)"
      "seg_hdrflags ?s = seg_hdrflags ?lu" "length (seg_p ?s) = length (seg_p ?lu) + (if tl_concat t = None then 0 else 1)"
      "tl_pos t \<noteq> 0 \<longrightarrow> seg_len ?lu \<noteq> 0" "unat (tl_pos t) \<le> length d"
    using assms(1,2) by (simp_all add: tail_ok_def Let_def)
  have syn: "tl_pos t \<noteq> 0 \<Longrightarrow> \<not> is_set (seg_hdrflags ?lu) TCP_SYN"
    using T(5) assms(3) by (auto simp: seg_ok_def unat_eq_0)
  show q: "seg_seq ?s = seg_seq ?lu @ map Some (take (unat (tl_pos t)) d)"
    using syn T assms(4) by (cases "tl_pos t = 0") (auto simp: seg_seq_def)
  have "seg_p ?s \<noteq> []"
    using assms(3) T(4) by (cases "seg_p ?s") (auto simp: seg_ok_def)
  moreover have "unat (seg_len ?s) = length (seg_data ?s)"
    using assms(3) T(1,2,6) by (simp add: seg_ok_def)
  moreover have "is_set (seg_hdrflags ?s) TCP_SYN \<longrightarrow> seg_data ?s = []"
    using assms(3) T(1,3) syn by (cases "tl_pos t = 0") (simp_all add: seg_ok_def)
  ultimately show "seg_ok ?s"
    using assms(3) q T(3) by (simp add: seg_ok_def)
qed

text \<open>The queue after the commit, up to the PSH flag.\<close>

lemma commit_queue:
  assumes ok: "snd_ok b pcb" and tl: "snd_tail c b pcb" and d: "length d < 65536" and T: "tail_ok c pcb d t"
    and L: "loop_inv pcb (mss_write c pcb) d copy (tl_pos t) (tl_oversize t) (tl_queuelen t) queue ov ql (of_nat (length d))"
    and Q: "unat (tl_queuelen t) = unat (snd_queuelen pcb) + (if tl_concat t = None then 0 else 1)"
  defines "qs \<equiv> unacked pcb @ map_last (extend_seg d t) (unsent pcb) @ queue"
  shows "list_all seg_ok qs" "contig b qs" "seqs qs = stream b pcb @ map Some d" "clens qs = unat ql"
proof -
  have nd: "unat (of_nat (length d) :: u16) = length d"
    using d by (simp add: unat_u16_of_nat)
  have c: "contig b (unacked pcb @ unsent pcb)" and lbb: "snd_lbb pcb = b + of_nat (length (stream b pcb))"
      and nofin: "list_all (\<lambda>s. \<not> is_set (seg_hdrflags s) TCP_FIN) (unsent pcb)"
    using tl by (simp_all add: snd_tail_def)
  have st: "stream b pcb = seqs (unacked pcb) @ seqs (unsent pcb)"
    using snd_ok_stream_inorder[OF ok c] by simp
  have oks: "list_all seg_ok (unacked pcb)" "list_all seg_ok (unsent pcb)"
      and cl: "clens (unacked pcb) + clens (unsent pcb) = unat (snd_queuelen pcb)"
    using ok by (simp_all add: snd_ok_def clens_def)
  have pos: "unat (tl_pos t) \<le> length d"
    using T by (simp add: tail_ok_def)
  have Lq: "list_all seg_ok queue" "contig (snd_lbb pcb + ucast (tl_pos t)) queue"
      "seqs queue = map Some (drop (unat (tl_pos t)) d)" "unat ql = unat (tl_queuelen t) + clens queue"
    using L nd by (simp_all add: loop_inv_def)
  define old where "old = map_last (extend_seg d t) (unsent pcb)"
  have old: "list_all seg_ok old" "contig b (unacked pcb @ old)" "seqs old = seqs (unsent pcb) @ map Some (take (unat (tl_pos t)) d)"
      "clens old = clens (unsent pcb) + (if tl_concat t = None then 0 else 1)"
  proof -
    have "list_all seg_ok old \<and> contig b (unacked pcb @ old) \<and> seqs old = seqs (unsent pcb) @ map Some (take (unat (tl_pos t)) d) \<and>
        clens old = clens (unsent pcb) + (if tl_concat t = None then 0 else 1)"
    proof (cases "unsent pcb" rule: rev_cases)
      case Nil
      then show ?thesis
        using T c by (simp add: old_def map_last_def tail_ok_def clens_def)
    next
      case (snoc bl lu)
      then have l: "last (unsent pcb) = lu" "unsent pcb \<noteq> []" "seg_ok lu" "\<not> is_set (seg_hdrflags lu) TCP_FIN"
        using oks nofin by auto
      have "seg_seqno (extend_seg d t lu) = seg_seqno lu"
          "length (seg_p (extend_seg d t lu)) = length (seg_p lu) + (if tl_concat t = None then 0 else 1)"
        using T l by (simp_all add: tail_ok_def Let_def)
      then show ?thesis
        using extended_seq[OF T l(2)] l c oks snoc by (simp add: old_def map_last_def contig_append clens_def)
    qed
    then show "list_all seg_ok old" "contig b (unacked pcb @ old)" "seqs old = seqs (unsent pcb) @ map Some (take (unat (tl_pos t)) d)"
      "clens old = clens (unsent pcb) + (if tl_concat t = None then 0 else 1)"
      by simp_all
  qed
  have qs: "qs = (unacked pcb @ old) @ queue"
    by (simp add: qs_def old_def)
  show "list_all seg_ok qs"
    using oks old Lq by (simp add: qs)
  show "seqs qs = stream b pcb @ map Some d"
    using old Lq st by (simp add: qs flip: map_append)
  show "clens qs = unat ql"
    using old Lq cl Q by (simp add: qs clens_def)
  have "b + sum_list (map TCP_TCPLEN (unacked pcb @ old)) = snd_lbb pcb + ucast (tl_pos t)"
    using tcplens[of "unacked pcb @ old"] oks old st lbb pos by (simp add: unsigned_of_nat)
  then show "contig b qs"
    using old Lq unfolding qs contig_append[of b "unacked pcb @ old" queue] by simp
qed

lemma map_last_append: "ys \<noteq> [] \<Longrightarrow> map_last f (xs @ ys) = xs @ map_last f ys"
  by (simp add: map_last_def butlast_append)

lemma mss_write_pos: "mss pcb \<noteq> 0 \<Longrightarrow> mss_write c pcb \<noteq> 0"
  by (simp add: mss_write_def Let_def)


definition last_ok :: "tcp_cfg \<Rightarrow> u16 \<Rightarrow> u16 \<Rightarrow> tcp_seg \<Rightarrow> bool" where
  "last_ok c m ov s = (ov = oversize_left s \<and> (ov \<noteq> 0 \<longrightarrow> seg_len s \<noteq> 0 \<and> fst (last (seg_p s)) = None) \<and>
     unat (seg_len s) + LWIP_TCP_OPT_LENGTH c (seg_flags s) + unat ov \<le> unat m)"

definition unsent_ok :: "tcp_cfg \<Rightarrow> u16 \<Rightarrow> u16 \<Rightarrow> tcp_seg list \<Rightarrow> bool" where
  "unsent_ok c m ov ss = (list_all (\<lambda>s. \<not> is_set (seg_hdrflags s) TCP_FIN \<and>
       unat (seg_len s) + LWIP_TCP_OPT_LENGTH c (seg_flags s) \<le> unat m) ss \<and>
     (if ss = [] then ov = 0 else last_ok c m ov (last ss)))"

lemma snd_tail_alt:
  "snd_tail c b pcb \<longleftrightarrow> contig b (unacked pcb @ unsent pcb) \<and> snd_lbb pcb = b + of_nat (length (stream b pcb)) \<and>
     unsent_ok c (mss_write c pcb) (unsent_oversize pcb) (unsent pcb)"
  by (auto simp: snd_tail_def unsent_ok_def last_ok_def Let_def list_all_iff)

lemma unsent_ok_psh: "unsent_ok c m ov (map_last (seg_set_flag TCP_PSH) ss) = unsent_ok c m ov ss"
proof (cases ss rule: rev_cases)
  case (snoc xs x)
  have "is_set (seg_hdrflags (seg_set_flag TCP_PSH x)) TCP_FIN = is_set (seg_hdrflags x) TCP_FIN"
    using psh_eq[of x] by (simp add: seg_eq_def)
  then show ?thesis
    by (simp add: snoc unsent_ok_def map_last_def last_ok_def) (simp add: seg_set_flag_def)
qed (simp add: map_last_def)

lemma commit_unsent:
  assumes tl: "snd_tail c b pcb" and T: "tail_ok c pcb d t"
    and L: "loop_inv pcb (mss_write c pcb) d copy (tl_pos t) (tl_oversize t) q0 queue ov ql pos"
  shows "unsent_ok c (mss_write c pcb) ov (map_last (extend_seg d t) (unsent pcb) @ queue)"
proof -
  let ?m = "mss_write c pcb"
  have U: "unsent_ok c ?m (unsent_oversize pcb) (unsent pcb)"
    using tl by (simp add: snd_tail_alt)
  have 1: "unsent_ok c ?m (tl_oversize t) (map_last (extend_seg d t) (unsent pcb))"
  proof (cases "unsent pcb" rule: rev_cases)
    case Nil
    then show ?thesis
      using T by (simp add: map_last_def unsent_ok_def tail_ok_def)
  next
    case (snoc bl lu)
    then have l: "last (unsent pcb) = lu" "unsent pcb \<noteq> []"
      by auto
    let ?s = "extend_seg d t lu"
    have "seg_hdrflags ?s = seg_hdrflags lu" "seg_flags ?s = seg_flags lu" "oversize_left ?s = tl_oversize t"
        "tl_oversize t \<noteq> 0 \<longrightarrow> seg_len ?s \<noteq> 0 \<and> fst (last (seg_p ?s)) = None"
        "unat (seg_len ?s) + LWIP_TCP_OPT_LENGTH c (seg_flags lu) + unat (tl_oversize t) \<le> unat ?m"
      using T l by (simp_all add: tail_ok_def Let_def)
    then show ?thesis
      using U by (simp add: snoc map_last_def unsent_ok_def last_ok_def)
  qed
  have 2: "list_all (\<lambda>s. seg_hdrflags s = 0 \<and> seg_flags s = 0 \<and> seg_len s \<le> ?m) queue"
    using L by (simp add: loop_inv_def)
  have 3: "list_all (\<lambda>s. \<not> is_set (seg_hdrflags s) TCP_FIN \<and> unat (seg_len s) + LWIP_TCP_OPT_LENGTH c (seg_flags s) \<le> unat ?m) queue"
    using 2 by (auto simp: list_all_iff LWIP_TCP_OPT_LENGTH_def word_le_nat_alt)
  show ?thesis
  proof (cases queue rule: rev_cases)
    case Nil
    then show ?thesis
      using 1 L by (simp add: loop_inv_def)
  next
    case (snoc xs x)
    have "last_ok c ?m ov x"
      using L 2 by (auto simp: snoc last_ok_def loop_inv_def LWIP_TCP_OPT_LENGTH_def)
    then show ?thesis
      using 1 3 by (simp add: unsent_ok_def snoc)
  qed
qed

lemma write_commit_ok:
  assumes ok: "snd_ok b pcb" and tl: "snd_tail c b pcb" and d: "length d < 65536" "length (stream b pcb) + length d < 2 ^ 31"
    and T: "tail_ok c pcb d t"
    and L: "loop_inv pcb (mss_write c pcb) d copy (tl_pos t) (tl_oversize t) (tl_queuelen t) queue ov ql (of_nat (length d))"
    and Q: "unat (tl_queuelen t) = unat (snd_queuelen pcb) + (if tl_concat t = None then 0 else 1)"
  obtains pcb' where "write_commit c pcb d fl t queue ov ql = Some pcb'" "snd_ok b pcb'" "snd_tail c b pcb'"
    "stream b pcb' = stream b pcb @ map Some d" "snd_lbb pcb' = snd_lbb pcb + of_nat (length d)"
    "snd_buf pcb' = tcpwnd c (snd_buf pcb - of_nat (length d))"
proof -
  define old where "old = map_last (extend_seg d t) (unsent pcb)"
  define psh where "psh = (if is_set fl TCP_WRITE_FLAG_MORE then id else seg_set_flag TCP_PSH)"
  define uns where "uns = (if queue \<noteq> [] then old @ map_last psh queue else if tl_touched t then map_last psh old else old)"
  define pcb' where "pcb' = pcb\<lparr>unsent := uns, unsent_oversize := ov, snd_lbb := snd_lbb pcb + of_nat (length d),
                        snd_buf := tcpwnd c (snd_buf pcb - of_nat (length d)), snd_queuelen := ql\<rparr>"
  have ml: "map_last id xs = xs" for xs :: "tcp_seg list"
    by (simp add: map_last_def)
  have u: "uns = old @ queue \<or> uns = map_last (seg_set_flag TCP_PSH) (old @ queue)"
    by (auto simp: uns_def psh_def ml map_last_append)
  have eq: "list_all2 seg_eq (unacked pcb @ uns) (unacked pcb @ old @ queue)"
    using u map_last_eq[of "seg_set_flag TCP_PSH" "old @ queue", OF psh_eq]
    by (auto intro!: list_all2_appendI simp: list_all2_refl)
  note q = commit_queue[OF ok tl d(1) T L Q, folded old_def]
  note e = segs_eq_facts[OF eq]
  have uo: "unsent_ok c (mss_write c pcb) ov uns"
    using u commit_unsent[OF tl T L] unsent_ok_psh[of c _ ov "old @ queue"] by (auto simp: old_def)
  have 1: "contig b (unacked pcb' @ unsent pcb')" "list_all seg_ok (unacked pcb' @ unsent pcb')"
      "length (seqs (unacked pcb' @ unsent pcb')) < 2 ^ 31" "clens (unacked pcb' @ unsent pcb') = unat (snd_queuelen pcb')"
    using q e(1,3,4) e(2)[of b] d(2) unfolding pcb'_def by simp_all
  have 2: "snd_ok b pcb'" and 3: "stream b pcb' = stream b pcb @ map Some d"
    using snd_ok_inorder[OF 1] q e(1) unfolding pcb'_def by simp_all
  have "mss_write c pcb' = mss_write c pcb"
    by (simp add: pcb'_def mss_write_def Let_def)
  then have 4: "snd_tail c b pcb'"
    using 1(1) uo 3 tl by (simp add: snd_tail_alt) (simp add: pcb'_def)
  have 5: "\<not> (ql \<noteq> 0 \<and> unacked pcb = [] \<and> uns = [])"
    using 1(4) by (auto simp: pcb'_def clens_def unat_eq_0)
  have 6: "0 < tl_used t \<Longrightarrow> tl_used t \<le> oversize_left (last (unsent pcb)) + tl_add t"
    using T by (simp add: tail_ok_def Let_def split: if_splits)
  have "write_commit c pcb d fl t queue ov ql = Some pcb'"
    unfolding write_commit_def Let_def old_def[symmetric] psh_def[symmetric] uns_def[symmetric] pcb'_def
    using 5 6 by simp
  then show ?thesis
    using that 2 3 4 by (simp add: pcb'_def)
qed

lemma write_checks_ok:
  assumes "snd_ok b pcb"
  obtains pcb' err where "tcp_write_checks c pcb n = Some (pcb', err)"
    "err = ERR_OK \<Longrightarrow> pcb' = pcb \<and> (n \<noteq> 0 \<longrightarrow> unat (snd_queuelen pcb) \<le> 65532)"
    "err \<noteq> ERR_OK \<Longrightarrow> pcb' = pcb \<and> err = ERR_CONN \<or> pcb' = tcp_set_flags TF_NAGLEMEMERR pcb \<and> err = ERR_MEM"
proof -
  have "seg_ok s \<Longrightarrow> 0 < length (seg_p s)" for s
    by (simp add: seg_ok_def)
  then have 0: "ss \<noteq> [] \<Longrightarrow> list_all seg_ok ss \<Longrightarrow> 0 < clens ss" for ss
    by (cases ss) (auto simp: clens_def)
  have "snd_queuelen pcb \<noteq> 0 \<longleftrightarrow> unacked pcb @ unsent pcb \<noteq> []"
    using assms 0[of "unacked pcb @ unsent pcb"] by (auto simp: snd_ok_def clens_def unat_eq_0 simp flip: unat_gt_0)
  then show ?thesis
    using that unfolding tcp_write_checks_def by (fastforce simp: TCP_SNDQUEUELEN_OVERFLOW_def not_le split: if_splits)
qed

lemma write_memerr_ok:
  assumes "snd_ok b pcb"
  shows "write_memerr pcb e = Some (tcp_set_flags TF_NAGLEMEMERR pcb, e, ERR_MEM)"
  using assms by (auto simp: write_memerr_def snd_ok_def clens_def unat_eq_0)


text \<open>C2. \<open>tcp_write\<close> never fails an assertion and returns. When it returns \<open>ERR_OK\<close>, the stream held by the queues
  has grown by exactly the bytes given, whether they went into the spare room of the last segment, into a
  pbuf chained to it or into new segments, copied or by reference, and the invariant still holds: segments
  end to end, none above the segment size, the pbuf count right. On an error the control block is
  unchanged but for the flag that remembers the failure.\<close>

theorem tcp_write_appends:
  assumes "snd_ok b pcb" "snd_tail c b pcb" "length (stream b pcb) + length d < 2 ^ 31" "length d < 65536" "mss pcb \<noteq> 0"
  shows "\<exists>pcb' e' err. tcp_write c pcb (Some (at, d)) fl e = Some (pcb', e', err) \<and>
    (if err = ERR_OK
     then snd_ok b pcb' \<and> snd_tail c b pcb' \<and> stream b pcb' = stream b pcb @ map Some d \<and>
          snd_lbb pcb' = snd_lbb pcb + of_nat (length d) \<and> snd_buf pcb' = tcpwnd c (snd_buf pcb - of_nat (length d))
     else pcb' = pcb \<and> err = ERR_CONN \<or> pcb' = tcp_set_flags TF_NAGLEMEMERR pcb \<and> err = ERR_MEM)"
proof -
  let ?m = "mss_write c pcb"
  note memerr = write_memerr_ok[OF assms(1)]
  obtain pcb1 err where C: "tcp_write_checks c pcb (of_nat (length d)) = Some (pcb1, err)"
    "err = ERR_OK \<Longrightarrow> pcb1 = pcb \<and> ((of_nat (length d) :: u16) \<noteq> 0 \<longrightarrow> unat (snd_queuelen pcb) \<le> 65532)"
    "err \<noteq> ERR_OK \<Longrightarrow> pcb1 = pcb \<and> err = ERR_CONN \<or> pcb1 = tcp_set_flags TF_NAGLEMEMERR pcb \<and> err = ERR_MEM"
    by (rule write_checks_ok[OF assms(1), where c = c and n = "of_nat (length d)"]) blast
  show ?thesis
  proof (cases "err = ERR_OK")
    case False
    then show ?thesis
      using C by (auto simp: tcp_write_def)
  next
    case True
    then have C1: "tcp_write_checks c pcb (of_nat (length d)) = Some (pcb, ERR_OK)"
        and ql: "d \<noteq> [] \<Longrightarrow> unat (snd_queuelen pcb) \<le> 65532"
      using C(1,2) assms(4) by (auto simp: unat_u16_of_nat simp flip: unat_eq_0)
    show ?thesis
    proof (rule attempt_cases[OF write_tail_ok[OF assms(1,2,4), where at = at and fl = fl and e = e]])
      fix e1
      assume "write_tail c pcb ?m at d fl e = Some (Memerr e1)"
      then show ?thesis
        using C1 memerr by (simp add: tcp_write_def Let_def)
    next
      fix t e1
      assume W: "write_tail c pcb ?m at d fl e = Some (Go t e1)" and t: "tail_ok c pcb d t"
      have Q: "unat (tl_queuelen t) = unat (snd_queuelen pcb) + (if tl_concat t = None then 0 else 1)"
        using t ql by (auto simp: tail_ok_def unat_u16_add)
      have "unat (tl_queuelen t) \<le> 65533" if "unat (tl_pos t) < length d"
      proof -
        have "d \<noteq> []"
          using that by auto
        then show ?thesis
          using Q ql by simp
      qed
      then have "loop_inv pcb ?m d (is_set fl TCP_WRITE_FLAG_COPY) (tl_pos t) (tl_oversize t) (tl_queuelen t) []
          (tl_oversize t) (tl_queuelen t) (tl_pos t)"
        using t by (auto simp: loop_inv_def tail_ok_def clens_def)
      note L = write_loop_ok[OF mss_write_pos[OF assms(5)] assms(4) this, where c = c and at = at and e = e1]
      show ?thesis
      proof (rule attempt_cases[OF L])
        fix e2
        assume "write_loop c pcb ?m at d fl [] (tl_oversize t) (tl_queuelen t) (tl_pos t) e1 = Some (Memerr e2)"
        then show ?thesis
          using C1 W memerr by (simp add: tcp_write_def Let_def)
      next
        fix x e2
        assume R: "write_loop c pcb ?m at d fl [] (tl_oversize t) (tl_queuelen t) (tl_pos t) e1 = Some (Go x e2)"
          "case x of (q, ov', ql) \<Rightarrow> loop_inv pcb ?m d (is_set fl TCP_WRITE_FLAG_COPY) (tl_pos t) (tl_oversize t)
             (tl_queuelen t) q ov' ql (of_nat (length d))"
        obtain queue ov ql where x: "x = (queue, ov, ql)"
          by (cases x)
        show ?thesis
          by (rule write_commit_ok[OF assms(1,2,4,3) t R(2)[unfolded x prod.case] Q, where fl = fl])
            (use C1 W R(1) x in \<open>simp add: tcp_write_def Let_def\<close>)
      qed
    qed
  qed
qed


subsection \<open>Moving a segment from \<open>unsent\<close> to \<open>unacked\<close>\<close>

lemma snd_ok_cong:
  assumes "unacked p = unacked q" "unsent p = unsent q"
  shows "stream b p = stream b q" "snd_queuelen p = snd_queuelen q \<Longrightarrow> snd_ok b p = snd_ok b q"
  using assms by (simp_all add: snd_ok_def stream_def snd_queue_def)

lemma mset_ins_sorted [simp]: "mset (ins_sorted s xs) = add_mset s (mset xs)"
  by (induction xs) auto

lemma mset_queue_unacked [simp]: "mset (queue_unacked s xs) = add_mset s (mset xs)"
  by (simp add: queue_unacked_def)

lemma seqno_off: "seg_seqno s = b + of_nat (off b s)"
  by (simp add: off_def)

lemma seq_lt_offs: "off b x < 2 ^ 31 \<Longrightarrow> off b y < 2 ^ 31 \<Longrightarrow> TCP_SEQ_LT (seg_seqno x) (seg_seqno y) \<longleftrightarrow> off b x < off b y"
  by (subst seqno_off[of x b], subst seqno_off[of y b]) (rule seq_lt_off)

lemma ordered_ins_sorted:
  assumes "ordered b xs" "\<forall>x\<in>set (s # xs). off b x < 2 ^ 31" "off b s \<notin> off b ` set xs"
  shows "ordered b (ins_sorted s xs)"
  using assms
proof (induction xs)
  case (Cons x xs)
  have set: "set (ins_sorted s xs) = insert s (set xs)"
    by (metis mset_ins_sorted set_mset_add_mset_insert set_mset_mset)
  show ?case
    using Cons set by (auto simp: ordered_def seq_lt_offs[of b] intro: order_less_trans linorder_neqE_nat)
qed (simp add: ordered_def)

lemma ordered_queue_unacked:
  assumes "ordered b xs" "\<forall>x\<in>set (s # xs). off b x < 2 ^ 31" "off b s \<notin> off b ` set xs"
  shows "ordered b (queue_unacked s xs)"
proof (cases "xs = [] \<or> TCP_SEQ_LT (seg_seqno s) (seg_seqno (last xs))")
  case True
  then show ?thesis
    using ordered_ins_sorted[OF assms] by (auto simp: queue_unacked_def ordered_def)
next
  case False
  then obtain ys y where xs: "xs = ys @ [y]"
    by (cases xs rule: rev_cases) auto
  have "off b y < off b s"
    using False assms(2,3) by (auto simp: xs seq_lt_offs[of b])
  then have "ordered b (xs @ [s])"
    using assms(1) by (fastforce simp: ordered_def xs sorted_wrt_append)
  then show ?thesis
    using False by (simp add: queue_unacked_def)
qed

lemma list_all_mset: "mset xs = mset ys \<Longrightarrow> list_all P xs = list_all P ys"
  by (metis list.pred_set mset_eq_setD)

lemma clens_mset: "mset xs = mset ys \<Longrightarrow> clens xs = clens ys"
  unfolding clens_def by (metis mset_map sum_mset_sum_list)

lemma queue_ordered:
  assumes "snd_ok b pcb"
  shows "ordered b (snd_queue b pcb)" "\<forall>s\<in>set (snd_queue b pcb). off b s < 2 ^ 31" "list_all seg_ok (snd_queue b pcb)"
    "mset (snd_queue b pcb) = mset (unacked pcb) + mset (unsent pcb)"
proof -
  show m: "mset (snd_queue b pcb) = mset (unacked pcb) + mset (unsent pcb)"
    by (simp add: snd_queue_def)
  then show ok: "list_all seg_ok (snd_queue b pcb)"
    using assms list_all_mset[of "snd_queue b pcb" "unacked pcb @ unsent pcb"] by (simp add: snd_ok_def)
  show "ordered b (snd_queue b pcb)" "\<forall>s\<in>set (snd_queue b pcb). off b s < 2 ^ 31"
    using contig_ordered[of b "snd_queue b pcb" b 0] assms ok by (fastforce simp: snd_ok_def stream_def)+
qed

text \<open>A segment leaves \<open>unsent\<close> for its place in \<open>unacked\<close>: the sorted queue is the same.\<close>

lemma move_to_unacked:
  assumes ok: "snd_ok b pcb" and u: "unsent pcb = s # rest" and eq: "seg_eq s' s"
    and q: "unacked q = queue_unacked s' (unacked pcb)" "unsent q = rest" "snd_queuelen q = snd_queuelen pcb"
  shows "snd_ok b q" "stream b q = stream b pcb"
proof -
  note Q = queue_ordered[OF ok]
  have "s \<in> set (snd_queue b pcb)"
    using Q(4) u by (metis mset_add set_mset_mset union_iff list.set_intros(1) set_mset_union)
  then obtain A B where ms: "snd_queue b pcb = A @ s # B"
    using split_list by fastforce
  define ms' where "ms' = A @ s' # B"
  have e: "list_all2 seg_eq ms' (snd_queue b pcb)"
    using eq by (simp add: ms'_def ms list_all2_appendI list_all2_refl)
  note E = segs_eq_facts[OF e]
  have o: "ordered b ms'" "distinct (map (off b) ms')" "\<forall>x\<in>set ms'. off b x < 2 ^ 31"
  proof -
    show "ordered b ms'"
      using Q(1) E(5)[of b] by (simp add: ordered_def)
    then show "distinct (map (off b) ms')"
      by (auto simp: ordered_def strict_sorted_iff)
    have "off b ` set ms' = off b ` set (snd_queue b pcb)"
      using E(5)[of b] by (metis set_map)
    then show "\<forall>x\<in>set ms'. off b x < 2 ^ 31"
      using Q(2) by (metis imageE imageI)
  qed
  have m: "mset (A @ B) = mset (unacked pcb) + mset rest"
    using Q(4) u by (simp add: ms)
  then have mq: "mset (unacked q @ unsent q) = mset ms'"
    by (simp add: q ms'_def flip: m)
  have sq: "snd_queue b q = ms'"
    unfolding snd_queue_def by (rule queue_sorted_unique[OF mq o(1)])
  have st: "set (unacked pcb) \<subseteq> set (A @ B)"
    using m by (metis set_mset_mset set_mset_union Un_upper1)
  have "ordered b (queue_unacked s' (unacked pcb))"
  proof (rule ordered_queue_unacked)
    show "ordered b (unacked pcb)"
      using ok by (simp add: snd_ok_def)
    show "\<forall>x\<in>set (s' # unacked pcb). off b x < 2 ^ 31"
      using o(3) st by (auto simp: ms'_def)
    show "off b s' \<notin> off b ` set (unacked pcb)"
      using o(2) st by (auto simp: ms'_def)
  qed
  moreover have "ordered b rest"
    using ok u by (simp add: snd_ok_def ordered_def)
  moreover have "list_all seg_ok (unacked q @ unsent q)" "clens (unacked q @ unsent q) = unat (snd_queuelen q)"
    using list_all_mset[OF mq] clens_mset[OF mq] E(3,4) Q(3,4) ok q(3) clens_mset[of "snd_queue b pcb" "unacked pcb @ unsent pcb"]
    by (simp_all add: snd_ok_def)
  moreover show "stream b q = stream b pcb"
    using E(1) by (simp add: stream_def sq)
  ultimately show "snd_ok b q"
    using ok E(2)[of b] by (simp add: snd_ok_def sq q)
qed

subsection \<open>Sending\<close>

lemma insort_all2:
  assumes "\<And>x y. R x y \<Longrightarrow> f x = f y" "R a b" "list_all2 R xs ys"
  shows "list_all2 R (insort_key f a xs) (insort_key f b ys)"
  using assms(3) assms(1,2) by (induction rule: list_all2_induct) auto

lemma sort_all2:
  assumes "\<And>x y. R x y \<Longrightarrow> f x = f y" "list_all2 R xs ys"
  shows "list_all2 R (sort_key f xs) (sort_key f ys)"
  using assms(2) by (induction rule: list_all2_induct) (simp_all add: sort_key_def insort_all2 assms(1))

lemma snd_ok_eq:
  assumes "list_all2 seg_eq (unacked q) (unacked p)" "list_all2 seg_eq (unsent q) (unsent p)" "snd_queuelen q = snd_queuelen p"
  shows "snd_ok b q = snd_ok b p" "stream b q = stream b p"
proof -
  have a: "list_all2 seg_eq (unacked q @ unsent q) (unacked p @ unsent p)"
    using assms by (simp add: list_all2_appendI)
  then have "list_all2 seg_eq (snd_queue b q) (snd_queue b p)"
    unfolding snd_queue_def by (rule sort_all2[rotated]) (rule seg_eq_facts(5))
  note E = segs_eq_facts[OF this]
  show "stream b q = stream b p"
    using E(1) by (simp add: stream_def)
  then show "snd_ok b q = snd_ok b p"
    unfolding snd_ok_def ordered_def
    using E(2)[of b] segs_eq_facts(3,4)[OF a] segs_eq_facts(5)[OF assms(1), of b] segs_eq_facts(5)[OF assms(2), of b] assms(3)
    by simp
qed

text \<open>A segment of the queue is a slice of the stream.\<close>

lemma seg_slice:
  assumes "contig a ss" "list_all seg_ok ss" "a = b + of_nat k" "k + length (seqs ss) < 2 ^ 32" "s \<in> set ss"
  shows "take (length (seg_seq s)) (drop (off b s - k) (seqs ss)) = seg_seq s"
  using assms
proof (induction ss arbitrary: a k)
  case (Cons x xs)
  show ?case
  proof (cases "s = x")
    case True
    have "off b x = k"
      using Cons.prems by (simp add: off_def unat_u32_of_nat)
    then show ?thesis
      by (simp add: True)
  next
    case False
    have x: "seg_ok x"
      using Cons.prems by simp
    have "take (length (seg_seq s)) (drop (off b s - (k + length (seg_seq x))) (seqs xs)) = seg_seq s"
      using Cons.prems False x by (intro Cons.IH[of "a + TCP_TCPLEN x"]) (auto simp: seg_seq_len)
    moreover have "k + length (seg_seq x) \<le> off b s"
      using contig_ordered[of "a + TCP_TCPLEN x" xs b "k + length (seg_seq x)"] Cons.prems False x by (auto simp: seg_seq_len)
    ultimately show ?thesis
      by simp
  qed
qed simp

lemma seg_data_slice:
  assumes "snd_ok b pcb" "s \<in> set (unacked pcb @ unsent pcb)"
  shows "map Some (seg_data s) = take (length (seg_data s)) (drop (off b s) (stream b pcb))" "seg_ok s"
proof -
  note Q = queue_ordered[OF assms(1)]
  have s: "s \<in> set (snd_queue b pcb)"
    using assms(2) Q(4) by (metis mset_append set_mset_mset)
  then show ok: "seg_ok s"
    using Q(3) by (simp add: list_all_iff)
  have "take (length (seg_seq s)) (drop (off b s) (stream b pcb)) = seg_seq s"
    using seg_slice[of b "snd_queue b pcb" b 0 s] assms(1) Q(3) s by (simp add: snd_ok_def stream_def)
  then have "take (length (seg_data s)) (drop (off b s) (stream b pcb)) = take (length (seg_data s)) (seg_seq s)"
    by (metis (no_types, lifting) length_map min.absorb1 seg_seq_def take_take length_append le_add1 le_add2 trans_le_add1 trans_le_add2)
  then show "map Some (seg_data s) = take (length (seg_data s)) (drop (off b s) (stream b pcb))"
    using ok by (auto simp: seg_seq_def seg_ok_def)
qed

lemma seg_opts_len: "length (seg_opts c netif s) = LWIP_TCP_OPT_LENGTH c (seg_flags s)"
  by (simp add: seg_opts_def LWIP_TCP_OPT_LENGTH_def TCP_BUILD_MSS_OPTION_def tcp_build_wnd_scale_option_def)

text \<open>A packet that a call may send: a queued segment inside the window, or no data at all.\<close>

definition pkt_ok :: "u32 \<Rightarrow> u32 \<Rightarrow> u32 \<Rightarrow> u8 option list \<Rightarrow> tcp_pkt \<Rightarrow> bool" where
  "pkt_ok b la wnd xs p =
     (map Some (pk_data p) = take (length (pk_data p)) (drop (unat (pk_seqno p - b)) xs) \<and>
      (pk_seqno p - la + of_nat (length (pk_data p)) \<le> wnd \<or>
       pk_data p = [] \<and> \<not> is_set (pk_flags p) (TCP_SYN OR TCP_FIN OR TCP_RST)))"

lemma tcp_output_segment_idle:
  assumes "\<not> tcp_output_segment_busy s"
  shows "\<exists>pcb' p. tcp_output_segment c s netif pcb e = Some (pcb', ip_output_if p e) \<and> pk_data p = seg_data s \<and>
    pk_seqno p = seg_seqno s \<and> unacked pcb' = unacked pcb \<and> unsent pcb' = unsent pcb \<and> snd_queuelen pcb' = snd_queuelen pcb \<and>
    lastack pcb' = lastack pcb \<and> snd_lbb pcb' = snd_lbb pcb \<and> state pcb' = state pcb"
  unfolding tcp_output_segment_def Let_def seg_opts_len if_not_P[OF assms]
  by (simp only: simp_thms if_False) (intro exI conjI, rule refl, simp_all)

lemma tcp_output_segment_ok:
  assumes ok: "snd_ok b pcb" and s: "s \<in> set (unsent pcb)" and w: "in_window (lastack pcb) wnd s" and eq: "seg_eq s' s"
  obtains pcb' e' err where "tcp_output_segment c s' netif pcb e = Some (pcb', e', err)"
    "unacked pcb' = unacked pcb" "unsent pcb' = unsent pcb" "snd_queuelen pcb' = snd_queuelen pcb"
    "lastack pcb' = lastack pcb" "snd_lbb pcb' = snd_lbb pcb" "state pcb' = state pcb"
    "\<exists>ps. tx e' = tx e @ ps \<and> list_all (pkt_ok b (lastack pcb) wnd (stream b pcb)) ps"
proof (cases "tcp_output_segment_busy s'")
  case True
  then show ?thesis
    using that[of pcb e ERR_OK] by (simp add: tcp_output_segment_def)
next
  case False
  have sl: "map Some (seg_data s) = take (length (seg_data s)) (drop (off b s) (stream b pcb))" "seg_ok s"
    using seg_data_slice[OF ok, of s] s by auto
  have len: "(of_nat (length (seg_data s)) :: u32) = ucast (seg_len s)"
    using sl(2) unat_u16_less[of "seg_len s"] by (simp add: word_unat_eq_iff unat_u32_of_nat seg_ok_def del: unat_u16_less)
  have "pkt_ok b (lastack pcb) wnd (stream b pcb) p" if "pk_data p = seg_data s'" "pk_seqno p = seg_seqno s'" for p
    using w sl(1) len that seg_eq_facts(1)[OF eq] eq by (simp add: pkt_ok_def in_window_def off_def seg_eq_def)
  moreover obtain pcb' p where "tcp_output_segment c s' netif pcb e = Some (pcb', ip_output_if p e)" "pk_data p = seg_data s'"
    "pk_seqno p = seg_seqno s'" "unacked pcb' = unacked pcb" "unsent pcb' = unsent pcb" "snd_queuelen pcb' = snd_queuelen pcb"
    "lastack pcb' = lastack pcb" "snd_lbb pcb' = snd_lbb pcb" "state pcb' = state pcb"
    using tcp_output_segment_idle[OF False, of c netif pcb e] by blast
  ultimately show ?thesis
    using that[of pcb' "fst (ip_output_if p e)" "snd (ip_output_if p e)"] by (simp add: ip_output_if_def)
qed


lemma seg_sent_ok:
  assumes ok: "snd_ok b pcb" and u: "unsent pcb = s # rest"
  shows "snd_ok b (seg_sent s rest pcb)" "stream b (seg_sent s rest pcb) = stream b pcb"
    "lastack (seg_sent s rest pcb) = lastack pcb" "snd_lbb (seg_sent s rest pcb) = snd_lbb pcb"
    "state (seg_sent s rest pcb) = state pcb" "unsent (seg_sent s rest pcb) = rest"
proof -
  let ?s = "s\<lparr>oversize_left := 0\<rparr>"
  have eq: "seg_eq ?s s"
    by (simp add: seg_eq_def)
  have so: "seg_ok s"
    using seg_data_slice(2)[OF ok, of s] u by simp
  have "length (seg_seq s) \<le> length (stream b pcb)"
  proof -
    have "length (seqs (snd_queue b pcb)) = length (seqs (unacked pcb @ unsent pcb))"
      by (rule mset_seqs_length) (simp add: snd_queue_def)
    then show ?thesis
      using u by (simp add: stream_def)
  qed
  then have "unat (TCP_TCPLEN s) = length (seg_seq s)"
    using ok so by (simp add: seg_seq_len unat_u32_of_nat snd_ok_def)
  then have "0 < unat (TCP_TCPLEN ?s)"
    using so seg_eq_facts(3)[OF eq] by (simp add: seg_ok_def)
  then have pos: "0 < TCP_TCPLEN ?s"
    by (simp add: word_less_nat_alt)
  have f: "unacked (seg_sent s rest pcb) = queue_unacked ?s (unacked pcb)" "unsent (seg_sent s rest pcb) = rest"
      "snd_queuelen (seg_sent s rest pcb) = snd_queuelen pcb"
    using pos by (simp_all add: seg_sent_def Let_def tcp_clear_flags_def)
  show "snd_ok b (seg_sent s rest pcb)" "stream b (seg_sent s rest pcb) = stream b pcb"
    by (rule move_to_unacked[OF ok u eq f])+
  show "lastack (seg_sent s rest pcb) = lastack pcb" "snd_lbb (seg_sent s rest pcb) = snd_lbb pcb"
    "state (seg_sent s rest pcb) = state pcb" "unsent (seg_sent s rest pcb) = rest"
    by (simp_all add: seg_sent_def Let_def tcp_clear_flags_def)
qed

lemma output_loop_ok:
  assumes "snd_ok b pcb" "unsent pcb = ss"
  shows "\<exists>pcb' e' err. output_loop c netif wnd ss pcb e = Some (pcb', e', err) \<and> snd_ok b pcb' \<and>
    stream b pcb' = stream b pcb \<and> snd_lbb pcb' = snd_lbb pcb \<and> lastack pcb' = lastack pcb \<and> state pcb' = state pcb \<and>
    (\<exists>ps. tx e' = tx e @ ps \<and> list_all (pkt_ok b (lastack pcb) wnd (stream b pcb)) ps)"
  using assms
proof (induction ss arbitrary: pcb e)
  case Nil
  then show ?case
    by simp
next
  case (Cons s rest)
  note ok = Cons.prems(1) and u = Cons.prems(2)
  let ?s = "if state pcb \<noteq> SYN_SENT then seg_set_flag TCP_ACK s else s"
  let ?pcb = "pcb\<lparr>unsent := ?s # rest\<rparr>"
  have so: "seg_ok s"
    using seg_data_slice(2)[OF ok, of s] u by simp
  have eq: "seg_eq ?s s"
    using ack_eq by simp
  have eq2: "seg_eq s ?s"
    using eq by (auto simp: seg_eq_def)
  show ?case
  proof (cases "\<not> in_window (lastack pcb) wnd s \<or>
      \<not> tcp_do_output_nagle c pcb \<and> \<not> tcp_is_flag_set pcb (TF_NAGLEMEMERR OR TF_FIN)")
    case True
    then show ?thesis
      using ok so by (auto simp: seg_ok_def)
  next
    case False
    have ok1: "snd_ok b ?pcb" and st1: "stream b ?pcb = stream b pcb"
      using snd_ok_eq[of ?pcb pcb b] ok u eq by (simp_all add: list_all2_refl)
    have "?s \<in> set (unsent ?pcb)" "in_window (lastack ?pcb) wnd ?s"
      using False eq by (auto simp: in_window_def seg_eq_def)
    then obtain pcb1 e1 err where o: "tcp_output_segment c ?s netif ?pcb e = Some (pcb1, e1, err)"
        "unacked pcb1 = unacked pcb" "unsent pcb1 = ?s # rest" "snd_queuelen pcb1 = snd_queuelen pcb"
        "lastack pcb1 = lastack pcb" "snd_lbb pcb1 = snd_lbb pcb" "state pcb1 = state pcb"
        "\<exists>ps. tx e1 = tx e @ ps \<and> list_all (pkt_ok b (lastack pcb) wnd (stream b pcb)) ps"
      by (rule tcp_output_segment_ok[OF ok1 _ _ seg_eq_refl, where c = c and netif = netif and e = e]) (simp add: st1)
    have loop: "output_loop c netif wnd (s # rest) pcb e =
        (if err \<noteq> ERR_OK then Some (tcp_set_flags TF_NAGLEMEMERR pcb1, e1, err)
         else output_loop c netif wnd rest (seg_sent ?s rest pcb1) e1)"
      using False so o(1) by (auto simp: Let_def seg_ok_def)
    show ?thesis
    proof (cases "err = ERR_OK")
      case False
      have "snd_ok b (tcp_set_flags TF_NAGLEMEMERR pcb1) \<and> stream b (tcp_set_flags TF_NAGLEMEMERR pcb1) = stream b pcb"
        using snd_ok_cong[of "tcp_set_flags TF_NAGLEMEMERR pcb1" ?pcb b] ok1 st1 o by (simp add: tcp_set_flags_def)
      then show ?thesis
        using False loop o by (simp add: tcp_set_flags_def)
    next
      case True
      have S: "snd_ok b (seg_sent ?s rest pcb1)" "stream b (seg_sent ?s rest pcb1) = stream b pcb"
          "lastack (seg_sent ?s rest pcb1) = lastack pcb" "snd_lbb (seg_sent ?s rest pcb1) = snd_lbb pcb"
          "state (seg_sent ?s rest pcb1) = state pcb" "unsent (seg_sent ?s rest pcb1) = rest"
        using seg_sent_ok[of b pcb1 ?s rest] snd_ok_cong[of pcb1 ?pcb b] ok1 st1 o by simp_all
      show ?thesis
        using Cons.IH[OF S(1,6), of e1] S o(8) True loop by (auto simp: S)
    qed
  qed
qed


lemma send_empty_ack_ok:
  obtains pcb' e' err where "tcp_send_empty_ack c pcb e = (pcb', e', err)" "unacked pcb' = unacked pcb" "unsent pcb' = unsent pcb"
    "snd_queuelen pcb' = snd_queuelen pcb" "snd_lbb pcb' = snd_lbb pcb" "lastack pcb' = lastack pcb" "state pcb' = state pcb"
    "\<exists>ps. tx e' = tx e @ ps \<and> list_all (pkt_ok b la wnd xs) ps"
proof -
  obtain pcb' e' err where r: "tcp_send_empty_ack c pcb e = (pcb', e', err)"
    by (cases "tcp_send_empty_ack c pcb e")
  have k: "\<not> is_set TCP_ACK (TCP_SYN OR TCP_FIN OR TCP_RST)"
    by (simp add: is_set_def TCP_ACK_def TCP_SYN_def TCP_FIN_def TCP_RST_def)
  show ?thesis
    by (rule that[OF r])
      (use r k in \<open>auto simp: tcp_send_empty_ack_def tcp_output_alloc_header_def tcp_output_alloc_header_common_def
        tcp_output_control_segment_def tcp_output_control_segment_netif_def ip_output_if_def alloc_next_def
        tcp_set_flags_def tcp_clear_flags_def pkt_ok_def split: if_splits option.splits prod.splits\<close>)
qed

lemma tcp_output_ok:
  assumes ok: "snd_ok b pcb" and st: "state pcb \<noteq> LISTEN"
  shows "\<exists>pcb' e' err. tcp_output c pcb e = Some (pcb', e', err) \<and> snd_ok b pcb' \<and> stream b pcb' = stream b pcb \<and>
    snd_lbb pcb' = snd_lbb pcb \<and> lastack pcb' = lastack pcb \<and> state pcb' = state pcb \<and>
    (\<exists>ps. tx e' = tx e @ ps \<and> list_all (pkt_ok b (lastack pcb) (min (snd_wnd pcb) (cwnd pcb)) (stream b pcb)) ps)"
    (is "\<exists>pcb' e' err. ?R pcb' e' err")
proof -
  let ?wnd = "min (snd_wnd pcb) (cwnd pcb)"
  let ?good = "\<lambda>r. \<exists>pcb' e' err. r = Some (pcb', e', err) \<and> snd_ok b pcb' \<and> stream b pcb' = stream b pcb \<and>
    snd_lbb pcb' = snd_lbb pcb \<and> lastack pcb' = lastack pcb \<and> state pcb' = state pcb \<and>
    (\<exists>ps. tx e' = tx e @ ps \<and> list_all (pkt_ok b (lastack pcb) ?wnd (stream b pcb)) ps)"
  define like where "like q \<longleftrightarrow> unacked q = unacked pcb \<and> unsent q = unsent pcb \<and> snd_queuelen q = snd_queuelen pcb \<and>
    snd_lbb q = snd_lbb pcb \<and> lastack q = lastack pcb \<and> state q = state pcb" for q :: tcp_pcb
  have fin: "?good (Some (output_done q, e, ERR_OK))" and same: "?good (Some (q, e, er))" if "like q" for q er
    using that ok snd_ok_cong[of q pcb b] snd_ok_cong[of "output_done q" pcb b]
    by (auto simp: like_def output_done_def tcp_clear_flags_def)
  have ack: "?good (Some (tcp_send_empty_ack c q e))" if "like q" for q
  proof (rule send_empty_ack_ok[of c q e b "lastack pcb" ?wnd "stream b pcb"])
    fix pcb' e' err
    assume a: "tcp_send_empty_ack c q e = (pcb', e', err)" "unacked pcb' = unacked q" "unsent pcb' = unsent q"
      "snd_queuelen pcb' = snd_queuelen q" "snd_lbb pcb' = snd_lbb q" "lastack pcb' = lastack q" "state pcb' = state q"
      "\<exists>ps. tx e' = tx e @ ps \<and> list_all (pkt_ok b (lastack pcb) ?wnd (stream b pcb)) ps"
    then show ?thesis
      using that ok snd_ok_cong[of pcb' pcb b] by (simp add: like_def)
  qed
  have loop: "?good (case output_loop c n ?wnd (unsent pcb) q e of None \<Rightarrow> None
      | Some (pcb, e, err) \<Rightarrow> if err \<noteq> ERR_OK then Some (pcb, e, err)
          else Some (output_done (if unsent pcb = [] then pcb\<lparr>unsent_oversize := 0\<rparr> else pcb), e, ERR_OK))"
    if "like q" for n q
  proof -
    have q: "snd_ok b q" "stream b q = stream b pcb" "unsent q = unsent pcb" "lastack q = lastack pcb" "snd_lbb q = snd_lbb pcb"
        "state q = state pcb"
      using that ok snd_ok_cong[of q pcb b] by (simp_all add: like_def)
    obtain pcb' e' err where r: "output_loop c n ?wnd (unsent pcb) q e = Some (pcb', e', err)" "snd_ok b pcb'"
      "stream b pcb' = stream b pcb" "snd_lbb pcb' = snd_lbb pcb" "lastack pcb' = lastack pcb" "state pcb' = state pcb"
      "\<exists>ps. tx e' = tx e @ ps \<and> list_all (pkt_ok b (lastack pcb) ?wnd (stream b pcb)) ps"
      using output_loop_ok[OF q(1,3), of c n ?wnd e] unfolding q(2-) by blast
    let ?d = "output_done (if unsent pcb' = [] then pcb'\<lparr>unsent_oversize := 0\<rparr> else pcb')"
    have "unacked ?d = unacked pcb'" "unsent ?d = unsent pcb'" "snd_queuelen ?d = snd_queuelen pcb'"
        "snd_lbb ?d = snd_lbb pcb'" "lastack ?d = lastack pcb'" "state ?d = state pcb'"
      by (simp_all add: output_done_def tcp_clear_flags_def)
    then show ?thesis
      using r snd_ok_cong[of ?d pcb' b] by (cases "err = ERR_OK") auto
  qed
  show ?thesis
  proof (cases "in_input e \<or> unsent pcb = []")
    case True
    then show ?thesis
      using st fin[of pcb] same[of pcb] ack[of pcb] by (auto simp: tcp_output_def like_def)
  next
    case False
    then obtain s rest where u: "unsent pcb = s # rest"
      by (cases "unsent pcb") auto
    show ?thesis
    proof (cases "tcp_route (Some pcb) (local_ip (ip pcb)) (remote_ip (ip pcb)) e")
      case None
      then show ?thesis
        using False st u same[of pcb] by (simp add: tcp_output_def like_def)
    next
      case (Some netif)
      let ?q = "if local_ip (ip pcb) = 0 then pcb\<lparr>ip := (ip pcb)\<lparr>local_ip := if_addr netif\<rparr>\<rparr> else pcb"
      let ?p = "if ?wnd = snd_wnd ?q \<and> unacked ?q = [] \<and> persist_backoff ?q = 0
                then ?q\<lparr>persist_cnt := 0, persist_backoff := 1, persist_probe := 0\<rparr> else ?q"
      have l: "like ?q" "like ?p" "like (?q\<lparr>persist_backoff := 0\<rparr>)"
        by (simp_all add: like_def)
      have lq: "lastack ?q = lastack pcb"
        by simp
      have "tcp_output c pcb e =
          (if \<not> in_window (lastack pcb) ?wnd s
           then if tcp_is_flag_set ?p TF_ACK_NOW then Some (tcp_send_empty_ack c ?p e) else Some (output_done ?p, e, ERR_OK)
           else case output_loop c netif ?wnd (unsent pcb) (?q\<lparr>persist_backoff := 0\<rparr>) e of None \<Rightarrow> None
             | Some (pcb, e, err) \<Rightarrow> if err \<noteq> ERR_OK then Some (pcb, e, err)
                 else Some (output_done (if unsent pcb = [] then pcb\<lparr>unsent_oversize := 0\<rparr> else pcb), e, ERR_OK))"
        unfolding tcp_output_def Let_def using False st u Some lq by simp
      then show ?thesis
        using ack[OF l(2)] fin[OF l(2)] loop[OF l(3), of netif] by simp
    qed
  qed
qed

text \<open>A control block with two bytes queued in a segment that has room for five more.\<close>

definition example_seg :: tcp_seg where
  "example_seg = \<lparr>seg_p = [(None, [104, 105])], seg_len = 2, oversize_left = 5, seg_flags = 0, seg_seqno = 1000,
     seg_hdrflags = TCP_PSH, seg_ref = 1\<rparr>"

definition example_pcb :: tcp_pcb where
  "example_pcb = (init_pcb ios 64 0 0)\<lparr>state := ESTABLISHED, mss := 1460, snd_wnd := 8192, snd_wnd_max := 8192, cwnd := 4380,
     lastack := 1000, snd_nxt := 1000, snd_lbb := 1002, snd_buf := 16382, snd_queuelen := 1, unsent_oversize := 5,
     unsent := [example_seg]\<rparr>"

lemma example_fields:
  "unsent example_pcb = [example_seg]" "unacked example_pcb = []" "snd_queuelen example_pcb = 1" "snd_lbb example_pcb = 1002"
  "unsent_oversize example_pcb = 5" "mss example_pcb = 1460" "snd_wnd_max example_pcb = 8192" "state example_pcb = ESTABLISHED"
  "lastack example_pcb = 1000" "snd_wnd example_pcb = 8192" "cwnd example_pcb = 4380"
  by (simp_all add: example_pcb_def init_pcb_def)

lemma example_seq: "seg_seq example_seg = [Some 104, Some 105]" "seg_ok example_seg" "off 1000 example_seg = 0"
  by (simp_all add: example_seg_def seg_seq_def seg_data_def seg_ok_def off_def is_set_def TCP_PSH_def TCP_SYN_def TCP_FIN_def TCP_RST_def)

lemma example_ok:
  "snd_ok 1000 example_pcb" "snd_tail ios 1000 example_pcb" "stream 1000 example_pcb = [Some 104, Some 105]" "mss example_pcb \<noteq> 0"
proof -
  show s: "stream 1000 example_pcb = [Some 104, Some 105]"
    by (simp add: stream_def snd_queue_def example_fields seqs_def example_seq)
  show "snd_ok 1000 example_pcb"
    unfolding snd_ok_def s
    by (simp add: snd_queue_def example_fields ordered_def clens_def example_seq) (simp add: example_seg_def)
  have "mss_write ios example_pcb = 1460"
    by (simp add: mss_write_def example_fields TCPWND_MIN16_def ios_def Let_def min_def)
  then show "snd_tail ios 1000 example_pcb"
    unfolding snd_tail_def s
    by (simp add: example_fields example_seg_def LWIP_TCP_OPT_LENGTH_def is_set_def TCP_PSH_def TCP_FIN_def)
qed (simp add: example_fields)

definition example_env :: tenv where
  "example_env = \<lparr>tcp_ticks = 7, mem_ok = [], ip_errs = [], tcp_routes = (\<lambda>_ _ _. Some \<lparr>if_mtu = 1500, if_addr = 1\<rparr>),
     tx = [], in_input = False\<rparr>"

theorem tcp_write_appends_witness:
  "snd_ok 1000 example_pcb \<and> snd_tail ios 1000 example_pcb \<and>
   (\<exists>pcb' e' err. tcp_write ios example_pcb (Some (0, [1, 2, 3, 4, 5, 6, 7])) TCP_WRITE_FLAG_COPY example_env = Some (pcb', e', err) \<and>
    (if err = ERR_OK
     then snd_ok 1000 pcb' \<and> snd_tail ios 1000 pcb' \<and>
          stream 1000 pcb' = stream 1000 example_pcb @ map Some [1, 2, 3, 4, 5, 6, 7] \<and>
          snd_lbb pcb' = snd_lbb example_pcb + of_nat (length [1, 2, 3, 4, 5, 6, 7 :: u8]) \<and>
          snd_buf pcb' = tcpwnd ios (snd_buf example_pcb - of_nat (length [1, 2, 3, 4, 5, 6, 7 :: u8]))
     else pcb' = example_pcb \<and> err = ERR_CONN \<or> pcb' = tcp_set_flags TF_NAGLEMEMERR example_pcb \<and> err = ERR_MEM))"
  by (intro conjI example_ok(1,2), rule tcp_write_appends) (simp_all add: example_ok)



subsection \<open>Everything in the window is sent\<close>

lemma output_segment_flags:
  assumes "\<not> tcp_output_segment_busy s"
  shows "\<exists>pcb' p. tcp_output_segment c s netif pcb e = Some (pcb', ip_output_if p e) \<and> pk_data p = seg_data s \<and>
    pk_seqno p = seg_seqno s \<and> unsent pcb' = unsent pcb \<and> flags pcb' = flags pcb \<and> lastack pcb' = lastack pcb"
  unfolding tcp_output_segment_def Let_def seg_opts_len if_not_P[OF assms]
  by (simp only: simp_thms if_False) (intro exI conjI, rule refl, simp_all)

lemma nodelay_kept: "tcp_is_flag_set pcb TF_NODELAY \<Longrightarrow> tcp_is_flag_set (seg_sent s rest pcb) TF_NODELAY"
proof -
  assume n: "tcp_is_flag_set pcb TF_NODELAY"
  have "NOT (TF_ACK_DELAY OR TF_ACK_NOW) AND TF_NODELAY = TF_NODELAY"
    by (simp add: TF_ACK_DELAY_def TF_ACK_NOW_def TF_NODELAY_def)
  then have "(x AND NOT (TF_ACK_DELAY OR TF_ACK_NOW)) AND TF_NODELAY = x AND TF_NODELAY" for x
    by (simp only: and.assoc)
  then show ?thesis
    using n by (simp add: seg_sent_def Let_def tcp_clear_flags_def tcp_is_flag_set_def is_set_def del: bit.de_Morgan_disj)
qed

lemma nodelay_nagle: "tcp_is_flag_set pcb TF_NODELAY \<Longrightarrow> tcp_do_output_nagle c pcb"
  by (auto simp: tcp_do_output_nagle_def tcp_is_flag_set_def is_set_def bit.conj_disj_distrib or_eq_0_iff)

lemma output_loop_drains:
  assumes "unsent pcb = ss" "tcp_is_flag_set pcb TF_NODELAY" "ip_errs e = []" "list_all seg_ok ss"
    "list_all (\<lambda>s. in_window (lastack pcb) wnd s \<and> \<not> tcp_output_segment_busy s) ss"
  shows "\<exists>pcb' e' ps. output_loop c netif wnd ss pcb e = Some (pcb', e', ERR_OK) \<and> unsent pcb' = [] \<and> tx e' = tx e @ ps \<and>
    map pk_seqno ps = map seg_seqno ss \<and> map pk_data ps = map seg_data ss"
  using assms
proof (induction ss arbitrary: pcb e)
  case (Cons s rest)
  let ?s = "if state pcb \<noteq> SYN_SENT then seg_set_flag TCP_ACK s else s"
  have f: "\<not> tcp_output_segment_busy ?s" "seg_data ?s = seg_data s" "seg_seqno ?s = seg_seqno s"
    using Cons.prems(5) by (simp_all add: tcp_output_segment_busy_def seg_set_flag_def seg_data_def)
  obtain pcb1 p where o: "tcp_output_segment c ?s netif (pcb\<lparr>unsent := ?s # rest\<rparr>) e = Some (pcb1, ip_output_if p e)"
      "pk_data p = seg_data s" "pk_seqno p = seg_seqno s" "flags pcb1 = flags pcb" "lastack pcb1 = lastack pcb"
    using output_segment_flags[OF f(1), of c netif "pcb\<lparr>unsent := ?s # rest\<rparr>" e] f by auto
  let ?pcb2 = "seg_sent ?s rest pcb1" and ?e2 = "fst (ip_output_if p e)"
  have loop: "output_loop c netif wnd (s # rest) pcb e = output_loop c netif wnd rest ?pcb2 ?e2"
    using Cons.prems o(1) nodelay_nagle[OF Cons.prems(2)] by (simp add: Let_def seg_ok_def ip_output_if_def)
  have "lastack ?pcb2 = lastack pcb" "unsent ?pcb2 = rest" "tcp_is_flag_set ?pcb2 TF_NODELAY" "ip_errs ?e2 = []"
    using o(4,5) Cons.prems(2,3) nodelay_kept[of pcb1 ?s rest]
    by (simp_all add: seg_sent_def Let_def tcp_clear_flags_def ip_output_if_def tcp_is_flag_set_def)
  then obtain pcb' e' ps where "output_loop c netif wnd rest ?pcb2 ?e2 = Some (pcb', e', ERR_OK)" "unsent pcb' = []"
      "tx e' = tx ?e2 @ ps" "map pk_seqno ps = map seg_seqno rest" "map pk_data ps = map seg_data rest"
    using Cons.IH[of ?pcb2 ?e2] Cons.prems(4,5) by auto
  then show ?case
    using loop o(2,3) by (intro exI[of _ pcb'] exI[of _ e'] exI[of _ "p # ps"]) (simp add: ip_output_if_def)
qed simp




text \<open>C4. Output never stops at an assertion and invents nothing: every packet it sends carries bytes of the queued stream at
  their sequence numbers and ends inside the send and the congestion window, or carries no data; the stream stays as it was.\<close>

theorem tcp_output_in_window:
  assumes "snd_ok b pcb" "state pcb \<noteq> LISTEN"
  shows "\<exists>pcb' e' err ps. tcp_output c pcb e = Some (pcb', e', err) \<and> snd_ok b pcb' \<and> stream b pcb' = stream b pcb \<and>
    tx e' = tx e @ ps \<and> list_all (pkt_ok b (lastack pcb) (min (snd_wnd pcb) (cwnd pcb)) (stream b pcb)) ps"
  using tcp_output_ok[OF assms, of c e] by blast

theorem tcp_output_in_window_witness:
  "snd_ok 1000 example_pcb \<and>
   (\<exists>pcb' e' err ps. tcp_output ios example_pcb example_env = Some (pcb', e', err) \<and> snd_ok 1000 pcb' \<and>
     stream 1000 pcb' = stream 1000 example_pcb \<and> tx e' = tx example_env @ ps \<and> list_all (pkt_ok 1000 1000 4380 (stream 1000 example_pcb)) ps)"
  using tcp_output_in_window[OF example_ok(1), of ios example_env] example_ok(1) by (simp add: example_fields min_def)

end
