(* ===== verification/Tcp_Recv.thy ===== *)
theory Tcp_Recv
  imports Tcp_In Tcp_Send
begin

unbundle bit_operations_syntax

section \<open>The receiver: reassembly of the peer's stream\<close>

text \<open>
  The peer sends a stream \<open>S\<close>, bytes and at most one FIN at its end; the item at position \<open>p\<close> has the sequence
  number \<open>b + p\<close>, in 32 bits. Positions are natural numbers, so that streams longer than the sequence
  space are covered; what the code relies on is that the segments it gets are less than half the space away
  from what it expects next.
\<close>

subsection \<open>Positions and sequence numbers\<close>

lemma seq_lt_near:
  assumes "p < q + 2 ^ 31" "q < p + 2 ^ 31"
  shows "TCP_SEQ_LT (b + of_nat p) (b + of_nat q) \<longleftrightarrow> p < q"
proof -
  have e: "b + of_nat p - (b + of_nat q) = (of_nat p - of_nat q :: u32)"
    by simp
  show ?thesis
  proof (cases "q \<le> p")
    case True
    then have "(of_nat p - of_nat q :: u32) = of_nat (p - q)"
      by (simp add: of_nat_diff)
    then have "unat (of_nat p - of_nat q :: u32) = p - q"
      using assms by (simp add: unat_u32_of_nat)
    then show ?thesis
      unfolding seq_lt_iff e using True assms by simp
  next
    case False
    have w: "(of_nat p - of_nat q :: u32) = of_nat (2 ^ 32 + p - q)"
    proof -
      have "(of_nat (2 ^ 32 + p - q) :: u32) = of_nat (2 ^ 32 + p) - of_nat q"
        using assms by (intro of_nat_diff) simp
      then show ?thesis
        by simp
    qed
    have "2 ^ 31 \<le> 2 ^ 32 + p - q" "2 ^ 32 + p - q < 2 ^ 32"
      using False assms by simp_all
    then have "unat (of_nat p - of_nat q :: u32) = 2 ^ 32 + p - q"
      unfolding w unat_u32_of_nat by simp
    then show ?thesis
      unfolding seq_lt_iff e using False \<open>2 ^ 31 \<le> 2 ^ 32 + p - q\<close> by simp
  qed
qed

lemma seq_near:
  assumes "p < q + 2 ^ 31" "q < p + 2 ^ 31"
  shows "TCP_SEQ_LT (b + of_nat p) (b + of_nat q) \<longleftrightarrow> p < q" "TCP_SEQ_LEQ (b + of_nat p) (b + of_nat q) \<longleftrightarrow> p \<le> q"
    "TCP_SEQ_GT (b + of_nat p) (b + of_nat q) \<longleftrightarrow> q < p" "TCP_SEQ_GEQ (b + of_nat p) (b + of_nat q) \<longleftrightarrow> q \<le> p"
  using seq_lt_near[OF assms] seq_lt_near[OF assms(2,1)]
  by (auto simp: TCP_SEQ_LEQ_def TCP_SEQ_GT_def TCP_SEQ_GEQ_def)

lemma pos_diff: "q \<le> p \<Longrightarrow> b + of_nat p - (b + of_nat q) = (of_nat (p - q) :: u32)"
  by (simp add: of_nat_diff)

lemma pos_eq:
  assumes "p < q + 2 ^ 31" "q < p + 2 ^ 31"
  shows "b + of_nat p = (b + of_nat q :: u32) \<longleftrightarrow> p = q"
proof
  assume e: "b + of_nat p = (b + of_nat q :: u32)"
  have "\<not> TCP_SEQ_LT x x" for x
    by (simp add: seq_lt_iff)
  then show "p = q"
    using e seq_lt_near[OF assms, of b] seq_lt_near[OF assms(2,1), of b] by (metis linorder_neqE_nat)
qed simp

subsection \<open>Definitions\<close>

definition stream_ok :: "u8 option list \<Rightarrow> bool" where
  "stream_ok S = (None \<notin> set (butlast S))"

definition seg_at :: "u32 \<Rightarrow> u8 option list \<Rightarrow> nat \<Rightarrow> tcp_seg \<Rightarrow> bool" where
  "seg_at b S p s = (seg_seqno s = b + of_nat p \<and> unat (seg_len s) = length (seg_data s) \<and>
     \<not> is_set (seg_hdrflags s) TCP_SYN \<and> seg_seq s \<noteq> [] \<and> take (length (seg_seq s)) (drop p S) = seg_seq s)"

text \<open>The queue of out-of-sequence segments: slices of the stream, in order, apart, between two positions.\<close>

fun oos_ok :: "u32 \<Rightarrow> u8 option list \<Rightarrow> nat \<Rightarrow> nat \<Rightarrow> tcp_seg list \<Rightarrow> bool" where
  "oos_ok b S lo hi [] = True"
| "oos_ok b S lo hi (s # q) =
     (let p = lo + unat (seg_seqno s - (b + of_nat lo))
      in seg_at b S p s \<and> p + length (seg_seq s) \<le> hi \<and> oos_ok b S (p + length (seg_seq s)) hi q)"

subsection \<open>Slices\<close>

lemma seg_seq_nosyn:
  "\<not> is_set (seg_hdrflags s) TCP_SYN \<Longrightarrow>
   seg_seq s = map Some (seg_data s) @ (if is_set (seg_hdrflags s) TCP_FIN then [None] else [])"
  by (simp add: seg_seq_def)

lemma seg_at_facts:
  assumes "seg_at b S p s"
  shows "p + length (seg_seq s) \<le> length S" "TCP_TCPLEN s = of_nat (length (seg_seq s))"
    "seg_seq s = map Some (seg_data s) @ (if is_set (seg_hdrflags s) TCP_FIN then [None] else [])"
    "0 < length (seg_seq s)" "length (seg_seq s) \<le> 65536"
proof -
  have l: "unat (seg_len s) = length (seg_data s)"
    using assms by (simp add: seg_at_def)
  have "length (take (length (seg_seq s)) (drop p S)) = length (seg_seq s)"
    using assms by (simp add: seg_at_def)
  moreover show "0 < length (seg_seq s)"
    using assms by (simp add: seg_at_def)
  ultimately show "p + length (seg_seq s) \<le> length S"
    by (simp add: min_def split: if_splits del: length_greater_0_conv)
  show "TCP_TCPLEN s = of_nat (length (seg_seq s))"
    using l by (rule seg_seq_len0)
  show q: "seg_seq s = map Some (seg_data s) @ (if is_set (seg_hdrflags s) TCP_FIN then [None] else [])"
    using assms by (intro seg_seq_nosyn) (simp add: seg_at_def)
  show "length (seg_seq s) \<le> 65536"
    using l unat_u16_less[of "seg_len s"] by (simp add: q del: unat_u16_less)
qed

lemma seg_at_nth:
  assumes "seg_at b S p s" "k < length (seg_seq s)"
  shows "S ! (p + k) = seg_seq s ! k"
proof -
  have "seg_seq s ! k = take (length (seg_seq s)) (drop p S) ! k"
    using assms(1) by (simp add: seg_at_def)
  then show ?thesis
    using assms seg_at_facts(1)[OF assms(1)] by simp
qed

text \<open>A FIN is the last item, so a segment with FIN ends where the stream ends, and data ends before.\<close>

lemma stream_ok_None: "stream_ok S \<Longrightarrow> k < length S \<Longrightarrow> S ! k = None \<Longrightarrow> k = length S - 1"
  by (cases S rule: rev_cases) (fastforce simp: stream_ok_def nth_append in_set_conv_nth less_Suc_eq split: if_splits)+

lemma seg_at_fin:
  assumes "stream_ok S" "seg_at b S p s" "is_set (seg_hdrflags s) TCP_FIN"
  shows "p + length (seg_seq s) = length S" "length (seg_seq s) = length (seg_data s) + 1" "S ! (p + length (seg_data s)) = None"
proof -
  note f = seg_at_facts[OF assms(2)]
  show l: "length (seg_seq s) = length (seg_data s) + 1"
    using f(3) assms(3) by simp
  show n: "S ! (p + length (seg_data s)) = None"
    using seg_at_nth[OF assms(2), of "length (seg_data s)"] l f(3) assms(3) by (simp add: nth_append)
  show "p + length (seg_seq s) = length S"
    using stream_ok_None[OF assms(1) _ n] f(1) l by simp
qed

lemma seg_at_data:
  assumes "stream_ok S" "seg_at b S p s" "S ! k = None" "k < length S"
  shows "p + length (seg_data s) \<le> k"
proof (rule ccontr)
  assume a: "\<not> p + length (seg_data s) \<le> k"
  note f = seg_at_facts[OF assms(2)]
  have k: "k = length S - 1"
    using stream_ok_None assms by blast
  then have "p + length (seg_data s) = length S"
    using a f(1,3) assms(4) by (auto split: if_splits)
  then have nf: "\<not> is_set (seg_hdrflags s) TCP_FIN" and e: "k = p + (length (seg_data s) - 1)" "seg_data s \<noteq> []"
    using f(1,3,4) k assms(4) a by (cases "seg_data s"; auto split: if_splits)+
  have "S ! k = Some (last (seg_data s))"
    using seg_at_nth[OF assms(2), of "length (seg_data s) - 1"] f(3) nf e by (simp add: last_conv_nth)
  then show False
    using assms(3) by simp
qed


subsection \<open>The queue\<close>

lemma oos_ok_Cons:
  assumes "hi < lo + 2 ^ 32"
  shows "oos_ok b S lo hi (s # q) \<longleftrightarrow>
    (\<exists>p\<ge>lo. seg_at b S p s \<and> p + length (seg_seq s) \<le> hi \<and> oos_ok b S (p + length (seg_seq s)) hi q)"
proof -
  have "p = lo + unat (seg_seqno s - (b + of_nat lo))" if "lo \<le> p" "seg_at b S p s" "p + length (seg_seq s) \<le> hi" for p
  proof -
    have "seg_seqno s - (b + of_nat lo) = of_nat (p - lo)"
      using that by (simp add: seg_at_def of_nat_diff)
    moreover have "p - lo < 2 ^ 32"
      using that assms by simp
    ultimately show ?thesis
      using that(1) by (simp add: unat_u32_of_nat del: of_nat_diff)
  qed
  then have "(\<exists>p\<ge>lo. seg_at b S p s \<and> p + length (seg_seq s) \<le> hi \<and> oos_ok b S (p + length (seg_seq s)) hi q) \<longleftrightarrow>
      (\<exists>p. p = lo + unat (seg_seqno s - (b + of_nat lo)) \<and> seg_at b S p s \<and> p + length (seg_seq s) \<le> hi \<and>
           oos_ok b S (p + length (seg_seq s)) hi q)"
    by (metis le_add1)
  then show ?thesis
    by (simp add: Let_def)
qed

declare oos_ok.simps(2) [simp del]

lemma oos_ok_mono: "oos_ok b S lo hi q \<Longrightarrow> lo' \<le> lo \<Longrightarrow> hi \<le> hi' \<Longrightarrow> hi' < lo' + 2 ^ 32 \<Longrightarrow> oos_ok b S lo' hi' q"
proof (induction q arbitrary: lo lo')
  case (Cons s q)
  then obtain p where "p \<ge> lo" "seg_at b S p s" "p + length (seg_seq s) \<le> hi" "oos_ok b S (p + length (seg_seq s)) hi q"
    using oos_ok_Cons[of hi lo b S s q] by auto
  moreover have "oos_ok b S (p + length (seg_seq s)) hi' q"
    using calculation Cons by (intro Cons.IH[of "p + length (seg_seq s)"]) auto
  ultimately show ?case
    using Cons.prems oos_ok_Cons[of hi' lo' b S s q] by auto
qed simp

lemma oos_ok_join:
  "oos_ok b S lo m xs \<Longrightarrow> oos_ok b S m hi ys \<Longrightarrow> lo \<le> m \<Longrightarrow> m \<le> hi \<Longrightarrow> hi < lo + 2 ^ 32 \<Longrightarrow> oos_ok b S lo hi (xs @ ys)"
proof (induction xs arbitrary: lo)
  case Nil
  then show ?case
    by (simp add: oos_ok_mono)
next
  case (Cons s xs)
  then obtain p where p: "p \<ge> lo" "seg_at b S p s" "p + length (seg_seq s) \<le> m" "oos_ok b S (p + length (seg_seq s)) m xs"
    using oos_ok_Cons[of m lo b S s xs] by auto
  have "oos_ok b S (p + length (seg_seq s)) hi (xs @ ys)"
    using p Cons.prems by (intro Cons.IH) auto
  then show ?case
    using p Cons.prems oos_ok_Cons[of hi lo b S s "xs @ ys"] by auto
qed

lemma oos_ok_split:
  "oos_ok b S lo hi (xs @ ys) \<Longrightarrow> hi < lo + 2 ^ 32 \<Longrightarrow> lo \<le> hi \<Longrightarrow>
   \<exists>m. lo \<le> m \<and> m \<le> hi \<and> oos_ok b S lo m xs \<and> oos_ok b S m hi ys"
proof (induction xs arbitrary: lo)
  case Nil
  then show ?case
    by auto
next
  case (Cons s xs)
  then obtain p where p: "p \<ge> lo" "seg_at b S p s" "p + length (seg_seq s) \<le> hi" "oos_ok b S (p + length (seg_seq s)) hi (xs @ ys)"
    using oos_ok_Cons[of hi lo b S s "xs @ ys"] by auto
  then obtain m where "p + length (seg_seq s) \<le> m" "m \<le> hi" "oos_ok b S (p + length (seg_seq s)) m xs" "oos_ok b S m hi ys"
    using Cons.IH[of "p + length (seg_seq s)"] Cons.prems by auto
  then show ?case
    using p Cons.prems oos_ok_Cons[of m lo b S s xs] by (intro exI[of _ m]) auto
qed

lemma oos_ok_hd:
  assumes "oos_ok b S lo hi (s # q)" "hi < lo + 2 ^ 32"
  obtains p where "lo \<le> p" "seg_at b S p s" "p + length (seg_seq s) \<le> hi" "oos_ok b S (p + length (seg_seq s)) hi q"
  using assms oos_ok_Cons[of hi lo b S s q] by auto

subsection \<open>Cutting\<close>

lemma seg_trim_at:
  assumes "seg_at b S p s" "\<not> is_set (seg_hdrflags s) TCP_FIN" "0 < k" "k \<le> length (seg_data s)"
  shows "seg_at b S p (seg_trim (of_nat k) (of_nat k) s)" "length (seg_seq (seg_trim (of_nat k) (of_nat k) s)) = k"
    "seg_data (seg_trim (of_nat k) (of_nat k) s) = take k (seg_data s)"
    "seg_hdrflags (seg_trim (of_nat k) (of_nat k) s) = seg_hdrflags s"
proof -
  let ?s = "seg_trim (of_nat k) (of_nat k) s"
  have "k < 65536"
    using assms(1,4) unat_u16_less[of "seg_len s"] by (simp add: seg_at_def del: unat_u16_less)
  then have u: "unat (of_nat k :: u16) = k"
    by (simp add: unat_u16_of_nat)
  show d: "seg_data ?s = take k (seg_data s)"
    by (simp add: seg_trim_def seg_data_def u)
  show h: "seg_hdrflags ?s = seg_hdrflags s"
    by (simp add: seg_trim_def)
  have q: "seg_seq s = map Some (seg_data s)" "seg_seq ?s = map Some (take k (seg_data s))"
    using assms(1,2) d h by (simp_all add: seg_seq_nosyn seg_at_def)
  show l: "length (seg_seq ?s) = k"
    using assms(4) by (simp add: q)
  have "take k (drop p S) = take k (take (length (seg_seq s)) (drop p S))"
    using assms(4) by (simp add: q)
  also have "\<dots> = seg_seq ?s"
    using assms(1) by (simp add: seg_at_def q take_map)
  finally show "seg_at b S p ?s"
    using assms d h l u by (auto simp: seg_at_def seg_trim_def)
qed

lemma of_nat_u16: "(ucast (of_nat k :: u32) :: u16) = of_nat k"
  by (simp add: word_unat_eq_iff unat_ucast_u32_u16 unat_u32_of_nat unat_u16_of_nat mod_mod_cancel)

lemma seg_end: "seg_at b S p s \<Longrightarrow> seg_seqno s + ucast (seg_len s) = b + of_nat (p + length (seg_data s))"
proof -
  assume a: "seg_at b S p s"
  have "(ucast (seg_len s) :: u32) = of_nat (length (seg_data s))"
    using a unat_u16_less[of "seg_len s"] by (simp add: word_unat_eq_iff unat_u32_of_nat seg_at_def del: unat_u16_less)
  then show ?thesis
    using a by (simp add: seg_at_def)
qed

lemma seg_data_le: "seg_at b S p s \<Longrightarrow> length (seg_data s) \<le> length (seg_seq s)"
  by (simp add: seg_at_facts(3))


subsection \<open>Inserting into the queue\<close>

text \<open>A segment that reaches the end of the data of one with FIN may take the FIN over.\<close>

lemma take_fin:
  assumes S: "stream_ok S" and s: "seg_at b S p s" "\<not> is_set (seg_hdrflags s) TCP_FIN"
    and n: "seg_at b S pn n" "is_set (seg_hdrflags n) TCP_FIN" "pn + length (seg_data n) \<le> p + length (seg_data s)"
  shows "seg_at b S p (seg_set_flag TCP_FIN s)" "p + length (seg_seq (seg_set_flag TCP_FIN s)) = length S"
    "seg_data (seg_set_flag TCP_FIN s) = seg_data s" "is_set (seg_hdrflags (seg_set_flag TCP_FIN s)) TCP_FIN"
proof -
  let ?s = "seg_set_flag TCP_FIN s"
  note f = seg_at_fin[OF S n(1,2)]
  show d: "seg_data ?s = seg_data s"
    by (simp add: seg_set_flag_def seg_data_def)
  have h: "\<not> is_set (seg_hdrflags ?s) TCP_SYN" and fin: "is_set (seg_hdrflags ?s) TCP_FIN"
    using s(1) by (simp_all add: seg_at_def seg_set_flag_def is_set_def bit.conj_disj_distrib2 or_eq_0_iff TCP_FIN_def TCP_SYN_def)
  show "is_set (seg_hdrflags ?s) TCP_FIN"
    by (rule fin)
  have l: "pn + length (seg_data n) < length S"
    using f(1,2) by simp
  then have e: "p + length (seg_data s) = length S - 1"
    using seg_at_data[OF S s(1) f(3)] n(3) f(1,2) by simp
  have q: "seg_seq s = map Some (seg_data s)" "seg_seq ?s = map Some (seg_data s) @ [None]"
    using s h fin d by (simp_all add: seg_seq_nosyn seg_at_def)
  show "p + length (seg_seq ?s) = length S"
    using e l by (simp add: q)
  have "length (seg_data s) < length (drop p S)" "p \<le> length S"
    using e l by auto
  from take_Suc_conv_app_nth[OF this(1)] this(2)
  have "take (length (seg_data s) + 1) (drop p S) = take (length (seg_data s)) (drop p S) @ [S ! (p + length (seg_data s))]"
    by simp
  also have "\<dots> = seg_seq ?s"
    using s(1) f(3) e f(1,2) n(3) seg_at_data[OF S s(1) f(3) l] by (simp add: seg_at_def q)
  finally show "seg_at b S p ?s"
    using s(1) h d by (simp add: seg_at_def q) (simp add: seg_set_flag_def)
qed

lemma oos_covered_ok:
  assumes "stream_ok S" "seg_at b S p s" "\<not> is_set (seg_hdrflags s) TCP_FIN" "p + length (seg_seq s) \<le> hi"
    "oos_ok b S lo hi ns" "p \<le> lo" "lo \<le> hi" "hi < p + 2 ^ 30"
  obtains s' ns' where "oos_covered (b + of_nat p) s ns = (s', ns')" "seg_at b S p s'" "p + length (seg_seq s') \<le> hi"
    "oos_ok b S lo hi ns'" "seg_data s' = seg_data s" "is_set (seg_hdrflags s') TCP_FIN \<Longrightarrow> ns' = []"
    "ns' = ns \<or> oos_ok b S (lo + 1) hi ns'"
    "\<And>n ns2. ns' = n # ns2 \<Longrightarrow> \<not> TCP_SEQ_GEQ (b + of_nat p + ucast (seg_len s')) (seg_seqno n + ucast (seg_len n))"
  using assms
proof (induction ns arbitrary: s lo thesis)
  case Nil
  then show ?case
    by simp
next
  case (Cons n ns)
  obtain pn where pn: "lo \<le> pn" "seg_at b S pn n" "pn + length (seg_seq n) \<le> hi" "oos_ok b S (pn + length (seg_seq n)) hi ns"
    using Cons.prems by (elim oos_ok_hd) auto
  have e: "b + of_nat p + ucast (seg_len s) = b + of_nat (p + length (seg_data s))"
    using seg_end[OF Cons.prems(3)] Cons.prems(3) by (simp add: seg_at_def)
  have near: "p + length (seg_data s) < pn + length (seg_data n) + 2 ^ 31" "pn + length (seg_data n) < p + length (seg_data s) + 2 ^ 31"
    using Cons.prems pn seg_data_le[OF pn(2)] seg_data_le[OF Cons.prems(3)] by simp_all
  have geq: "TCP_SEQ_GEQ (b + of_nat p + ucast (seg_len s)) (seg_seqno n + ucast (seg_len n)) \<longleftrightarrow>
      pn + length (seg_data n) \<le> p + length (seg_data s)"
    unfolding e seg_end[OF pn(2)] by (rule seq_near(4)[OF near])
  show ?case
  proof (cases "pn + length (seg_data n) \<le> p + length (seg_data s)")
    case False
    then show ?thesis
      using Cons.prems(1)[of s "n # ns"] Cons.prems geq by auto
  next
    case True
    show ?thesis
    proof (cases "is_set (seg_hdrflags n) TCP_FIN")
      case fin: True
      note t = take_fin[OF Cons.prems(2,3,4) pn(2) fin True]
      have "ns = []"
      proof (cases ns)
        case c: (Cons x xs)
        have "hi < pn + length (seg_seq n) + 2 ^ 32"
          using pn(1) Cons.prems(7-9) by simp
        then obtain px where "pn + length (seg_seq n) \<le> px" "seg_at b S px x"
          using pn(4) oos_ok_Cons[of hi "pn + length (seg_seq n)" b S x xs] by (auto simp: c)
        then show ?thesis
          using seg_at_fin(1)[OF Cons.prems(2) pn(2) fin] seg_at_facts(1,4)[of b S px x] by linarith
      qed simp
      then show ?thesis
        using Cons.prems(1)[of "seg_set_flag TCP_FIN s" "[]"] t geq True fin seg_at_fin(1)[OF Cons.prems(2) pn(2) fin] pn(3) by simp
    next
      case nofin: False
      have l: "lo + 1 \<le> hi" "p \<le> lo + 1" "lo + 1 \<le> pn + length (seg_seq n)"
        using pn Cons.prems(7) seg_at_facts(4)[OF pn(2)] by linarith+
      then have o: "oos_ok b S (lo + 1) hi ns"
        using Cons.prems(7,9) by (intro oos_ok_mono[OF pn(4)]) auto
      show ?thesis
      proof (rule Cons.IH[OF _ Cons.prems(2-5) o l(2,1) Cons.prems(9)])
        fix s' ns'
        assume a: "oos_covered (b + of_nat p) s ns = (s', ns')" "seg_at b S p s'" "p + length (seg_seq s') \<le> hi"
          "oos_ok b S (lo + 1) hi ns'" "seg_data s' = seg_data s" "is_set (seg_hdrflags s') TCP_FIN \<Longrightarrow> ns' = []"
          "\<And>n ns2. ns' = n # ns2 \<Longrightarrow> \<not> TCP_SEQ_GEQ (b + of_nat p + ucast (seg_len s')) (seg_seqno n + ucast (seg_len n))"
        have "oos_covered (b + of_nat p) s (n # ns) = (s', ns')"
          using a(1) geq True nofin by simp
        moreover have "oos_ok b S lo hi ns'"
          using Cons.prems(7-9) by (intro oos_ok_mono[OF a(4)]) auto
        ultimately show thesis
          using Cons.prems(1) a by blast
      qed
    qed
  qed
qed


lemma fin_is_last:
  assumes "stream_ok S" "seg_at b S p s" "is_set (seg_hdrflags s) TCP_FIN" "oos_ok b S (p + length (seg_seq s)) hi q"
    "hi < p + 2 ^ 32"
  shows "q = []"
proof (cases q)
  case c: (Cons x xs)
  obtain px where "p + length (seg_seq s) \<le> px" "seg_at b S px x"
    using assms(4,5) oos_ok_Cons[of hi "p + length (seg_seq s)" b S x xs] by (auto simp: c)
  then show ?thesis
    using seg_at_fin(1)[OF assms(1-3)] seg_at_facts(1,4)[of b S px x] by linarith
qed simp

lemma oos_insert_ok:
  assumes S: "stream_ok S" and s: "seg_at b S p s" "p + length (seg_seq s) \<le> hi" and q: "oos_ok b S p hi ns"
    and w: "hi < p + 2 ^ 30"
    and hd: "\<And>n ns2. ns = n # ns2 \<Longrightarrow> seg_at b S p n \<Longrightarrow> length (seg_data n) \<le> length (seg_data s)"
  shows "oos_ok b S p hi (tcp_oos_insert_segment (b + of_nat p) s ns)"
proof -
  have one: "oos_ok b S p hi [x]" if "seg_at b S p x" "p + length (seg_seq x) \<le> hi" for x
    using that w by (simp add: oos_ok_Cons) blast
  show ?thesis
  proof (cases "is_set (seg_hdrflags s) TCP_FIN")
    case True
    then show ?thesis
      using one s by (simp add: tcp_oos_insert_segment_def)
  next
    case nofin: False
    have "p \<le> hi"
      using s(2) by simp
    obtain s' ns' where c: "oos_covered (b + of_nat p) s ns = (s', ns')" "seg_at b S p s'" "p + length (seg_seq s') \<le> hi"
      "oos_ok b S p hi ns'" "seg_data s' = seg_data s" "is_set (seg_hdrflags s') TCP_FIN \<Longrightarrow> ns' = []"
      "ns' = ns \<or> oos_ok b S (p + 1) hi ns'"
      "\<And>n ns2. ns' = n # ns2 \<Longrightarrow> \<not> TCP_SEQ_GEQ (b + of_nat p + ucast (seg_len s')) (seg_seqno n + ucast (seg_len n))"
      by (rule oos_covered_ok[OF S s(1) nofin s(2) q order.refl \<open>p \<le> hi\<close> w]) blast
    show ?thesis
    proof (cases ns')
      case Nil
      then show ?thesis
        using nofin c one by (simp add: tcp_oos_insert_segment_def)
    next
      case nn: (Cons n ns2)
      then have nofin': "\<not> is_set (seg_hdrflags s') TCP_FIN"
        using c(6) by auto
      obtain pn where pn: "p \<le> pn" "seg_at b S pn n" "pn + length (seg_seq n) \<le> hi" "oos_ok b S (pn + length (seg_seq n)) hi ns2"
        using c(4) w oos_ok_Cons[of hi p b S n ns2] by (auto simp: nn)
      have e: "b + of_nat p + ucast (seg_len s') = b + of_nat (p + length (seg_data s'))"
        using seg_end[OF c(2)] c(2) by (simp add: seg_at_def)
      have near: "p + length (seg_data s') < pn + 2 ^ 31" "pn < p + length (seg_data s') + 2 ^ 31"
          "p + length (seg_data s') < pn + length (seg_data n) + 2 ^ 31" "pn + length (seg_data n) < p + length (seg_data s') + 2 ^ 31"
        using pn c(3) w seg_data_le[OF pn(2)] seg_data_le[OF c(2)] by simp_all
      have longer: "p + length (seg_data s') < pn + length (seg_data n)"
        using c(8)[OF nn] unfolding e seg_end[OF pn(2)] seq_near(4)[OF near(3,4)] by simp
      have rest: "oos_ok b S pn hi (n # ns2)"
        using pn w oos_ok_Cons[of hi pn b S n ns2] by auto
      have pne: "pn \<noteq> p"
      proof
        assume "pn = p"
        then have "ns' \<noteq> ns"
          using hd[of n ns2] pn(2) longer c(5) nn by auto
        then obtain px where px: "p + 1 \<le> px" "seg_at b S px n" "px + length (seg_seq n) \<le> hi"
          using c(7) w oos_ok_Cons[of hi "p + 1" b S n ns2] by (auto simp: nn)
        then have "b + of_nat px = (b + of_nat p :: u32)"
          using pn(2) \<open>pn = p\<close> by (simp add: seg_at_def)
        then show False
          using px w pos_eq[of px p b] by auto
      qed
      have gt: "TCP_SEQ_GT (b + of_nat p + ucast (seg_len s')) (seg_seqno n) \<longleftrightarrow> pn < p + length (seg_data s')"
        using pn(2) unfolding e by (simp only: seg_at_def seq_near(3)[OF near(1,2)])
      have ins: "tcp_oos_insert_segment (b + of_nat p) s ns =
          (if pn < p + length (seg_data s')
           then seg_trim (ucast (seg_seqno n - (b + of_nat p))) (ucast (seg_seqno n - (b + of_nat p))) s' # n # ns2 else s' # n # ns2)"
        unfolding tcp_oos_insert_segment_def c(1) nn using nofin by (simp only: gt if_False prod.case list.case)
      show ?thesis
      proof (cases "pn < p + length (seg_data s')")
        case True
        have "seg_seqno n - (b + of_nat p) = of_nat (pn - p)"
          using pn(1,2) by (simp add: seg_at_def of_nat_diff)
        then have k: "(ucast (seg_seqno n - (b + of_nat p)) :: u16) = of_nat (pn - p)"
          by (simp only: of_nat_u16)
        have kk: "0 < pn - p" "pn - p \<le> length (seg_data s')"
          using True pn(1) pne by simp_all
        note t = seg_trim_at[OF c(2) nofin' kk]
        have "tcp_oos_insert_segment (b + of_nat p) s ns = seg_trim (of_nat (pn - p)) (of_nat (pn - p)) s' # n # ns2"
          using True unfolding ins k by simp
        moreover have "oos_ok b S p hi (seg_trim (of_nat (pn - p)) (of_nat (pn - p)) s' # n # ns2)"
          using t rest pn(1,3) w oos_ok_Cons[of hi p b S "seg_trim (of_nat (pn - p)) (of_nat (pn - p)) s'" "n # ns2"] by auto
        ultimately show ?thesis
          by simp
      next
        case False
        have "length (seg_seq s') = length (seg_data s')"
          using seg_at_facts(3)[OF c(2)] nofin' by simp
        then have "oos_ok b S p hi (s' # n # ns2)"
          using c(2,3) False w oos_ok_mono[OF rest, of "p + length (seg_seq s')" hi] oos_ok_Cons[of hi p b S s' "n # ns2"] by auto
        then show ?thesis
          using False unfolding ins by simp
      qed
    qed
  qed
qed


lemma trim_end_ok:
  assumes "seg_at b S pp s" "\<not> is_set (seg_hdrflags s) TCP_FIN" "pp < p" "p < pp + 2 ^ 30"
  defines "s' \<equiv> (if TCP_SEQ_GT (seg_seqno s + ucast (seg_len s)) (b + of_nat p)
                  then seg_trim (ucast (b + of_nat p - seg_seqno s)) (ucast (b + of_nat p - seg_seqno s)) s else s)"
  shows "seg_at b S pp s'" "pp + length (seg_seq s') \<le> p"
proof -
  have near: "pp + length (seg_data s) < p + 2 ^ 31" "p < pp + length (seg_data s) + 2 ^ 31"
    using seg_at_facts(5)[OF assms(1)] seg_data_le[OF assms(1)] assms(3,4) by simp_all
  have gt: "TCP_SEQ_GT (seg_seqno s + ucast (seg_len s)) (b + of_nat p) \<longleftrightarrow> p < pp + length (seg_data s)"
    unfolding seg_end[OF assms(1)] by (rule seq_near(3)[OF near])
  have "b + of_nat p - seg_seqno s = of_nat (p - pp)"
    using assms(1,3) by (simp add: seg_at_def of_nat_diff)
  then have k: "(ucast (b + of_nat p - seg_seqno s) :: u16) = of_nat (p - pp)"
    by (simp only: of_nat_u16)
  have "seg_at b S pp s' \<and> pp + length (seg_seq s') \<le> p"
  proof (cases "p < pp + length (seg_data s)")
    case True
    then have "0 < p - pp" "p - pp \<le> length (seg_data s)"
      using assms(3) by simp_all
    note t = seg_trim_at[OF assms(1,2) this]
    have "s' = seg_trim (of_nat (p - pp)) (of_nat (p - pp)) s"
      using True unfolding s'_def gt k by simp
    then show ?thesis
      using t(1,2) assms(3) by simp
  next
    case False
    then show ?thesis
      using assms(1) seg_at_facts(3)[OF assms(1)] assms(2) unfolding s'_def gt by simp
  qed
  then show "seg_at b S pp s'" "pp + length (seg_seq s') \<le> p"
    by simp_all
qed

lemma oos_ConsI:
  "seg_at b S p s \<Longrightarrow> lo \<le> p \<Longrightarrow> p + length (seg_seq s) \<le> hi \<Longrightarrow> hi < lo + 2 ^ 32 \<Longrightarrow>
   oos_ok b S (p + length (seg_seq s)) hi q \<Longrightarrow> oos_ok b S lo hi (s # q)"
  by (simp add: oos_ok_Cons) blast

lemma oos_one: "seg_at b S p s \<Longrightarrow> lo \<le> p \<Longrightarrow> p + length (seg_seq s) \<le> hi \<Longrightarrow> hi < lo + 2 ^ 32 \<Longrightarrow> oos_ok b S lo hi [s]"
  by (simp add: oos_ok_Cons) blast

definition walk_inv :: "u32 \<Rightarrow> u8 option list \<Rightarrow> nat \<Rightarrow> nat \<Rightarrow> nat \<Rightarrow> tcp_seg list \<Rightarrow> bool" where
  "walk_inv b S lo p m pre = (oos_ok b S lo m pre \<and> lo \<le> m \<and>
     (pre \<noteq> [] \<longrightarrow> (\<exists>pp. lo \<le> pp \<and> pp < p \<and> seg_at b S pp (last pre) \<and> pp + length (seg_seq (last pre)) \<le> m \<and>
        oos_ok b S lo pp (butlast pre))))"

lemma walk_inv_step:
  assumes "walk_inv b S lo p m pre" "m \<le> pn" "pn < p" "seg_at b S pn n" "pn + length (seg_seq n) < lo + 2 ^ 32"
  shows "walk_inv b S lo p (pn + length (seg_seq n)) (pre @ [n])"
proof -
  have p: "oos_ok b S lo m pre" "lo \<le> m"
    using assms(1) by (simp_all add: walk_inv_def)
  have "oos_ok b S lo pn pre"
    using p assms by (intro oos_ok_mono[OF p(1)]) auto
  moreover have "oos_ok b S lo (pn + length (seg_seq n)) (pre @ [n])"
    using p assms by (intro oos_ok_join[OF \<open>oos_ok b S lo pn pre\<close>] oos_one[of b S pn]) auto
  moreover have "lo \<le> pn"
    using p(2) assms(2) by simp
  ultimately show ?thesis
    using assms(2-4) unfolding walk_inv_def by (intro conjI impI exI[of _ pn]) simp_all
qed

lemma oos_walk_ok:
  assumes S: "stream_ok S" and s: "seg_at b S p (inseg i)" "in_seqno i = b + of_nat p" "p + length (seg_seq (inseg i)) \<le> hi"
    and tl: "unat (in_tcplen i) = length (seg_seq (inseg i))" and edge: "rcv_nxt pcb + rcv_wnd pcb = b + of_nat hi"
    and lo: "lo \<le> p" "hi < lo + 2 ^ 30" "0 < lo"
  shows "walk_inv b S lo p m pre \<Longrightarrow> oos_ok b S m hi q \<Longrightarrow> m \<le> hi \<Longrightarrow>
    \<exists>q' e'. oos_walk i pcb pre q e = Some (in_tcplen i, q', e') \<and> oos_ok b S lo hi q'"
proof (induction q arbitrary: pre m)
  case Nil
  then have "oos_ok b S lo hi pre"
    using lo by (intro oos_ok_mono[of b S lo m pre lo hi]) (auto simp: walk_inv_def)
  then show ?case
    by simp
next
  case (Cons n ns)
  have pre: "oos_ok b S lo m pre" "lo \<le> m"
    using Cons.prems(1) by (simp_all add: walk_inv_def)
  obtain pn where pn: "m \<le> pn" "seg_at b S pn n" "pn + length (seg_seq n) \<le> hi" "oos_ok b S (pn + length (seg_seq n)) hi ns"
    using Cons.prems(2) pre(2) lo oos_ok_Cons[of hi m b S n ns] by auto
  have near: "p < pn + 2 ^ 31" "pn < p + 2 ^ 31"
    using s(3) pn pre(2) lo by simp_all
  have sn: "seg_seqno n = b + of_nat pn"
    using pn(2) by (simp add: seg_at_def)
  have eq: "in_seqno i = seg_seqno n \<longleftrightarrow> p = pn" and lt: "TCP_SEQ_LT (in_seqno i) (seg_seqno n) \<longleftrightarrow> p < pn"
      and gt: "TCP_SEQ_GT (in_seqno i) (seg_seqno n) \<longleftrightarrow> pn < p"
    unfolding s(2) sn using pos_eq[OF near] seq_near[OF near] by simp_all
  have keep: "oos_ok b S lo hi (pre @ n # ns)"
    using pre Cons.prems(2,3) lo by (intro oos_ok_join) auto
  have insert: "oos_ok b S lo hi (pre2 @ tcp_oos_insert_segment (in_seqno i) (inseg i) (n # ns))"
    if "oos_ok b S lo p pre2" "p < pn \<or> p = pn \<and> seg_len n < seg_len (inseg i)" for pre2
  proof (rule oos_ok_join[OF that(1)])
    have "oos_ok b S p hi (n # ns)"
      using that(2) pn lo oos_ok_Cons[of hi p b S n ns] by auto
    then show "oos_ok b S p hi (tcp_oos_insert_segment (in_seqno i) (inseg i) (n # ns))"
      unfolding s(2)
    proof (rule oos_insert_ok[OF S s(1,3)])
      show "hi < p + 2 ^ 30"
        using lo by simp
      fix x xs
      assume x: "n # ns = x # xs" "seg_at b S p x"
      then have "p = pn"
        using sn pos_eq[OF near, of b] by (auto simp: seg_at_def)
      then show "length (seg_data x) \<le> length (seg_data (inseg i))"
        using that(2) x s(1) pn(2) by (simp add: seg_at_def word_less_nat_alt)
    qed
  qed (use s(3) lo in auto)
  show ?case
  proof (cases "p = pn")
    case True
    have "oos_ok b S lo p pre"
      using pn(1) pre True lo s(3) by (intro oos_ok_mono[OF pre(1)]) auto
    then show ?thesis
      using True eq keep insert by (auto simp: tcp_seg_copy_def Let_def)
  next
    case ne: False
    show ?thesis
    proof (cases "p < pn")
      case True
      show ?thesis
      proof (cases "pre = []")
        case e: True
        have "oos_ok b S lo p []"
          by simp
        from insert[OF this] show ?thesis
          using True ne eq lt keep e by (auto simp: tcp_seg_copy_def Let_def)
      next
        case f: False
        then obtain pp where pp: "lo \<le> pp" "pp < p" "seg_at b S pp (last pre)" "pp + length (seg_seq (last pre)) \<le> m"
            "oos_ok b S lo pp (butlast pre)"
          using Cons.prems(1) by (auto simp: walk_inv_def)
        have nofin: "\<not> is_set (seg_hdrflags (last pre)) TCP_FIN"
        proof
          assume "is_set (seg_hdrflags (last pre)) TCP_FIN"
          then show False
            using seg_at_fin(1)[OF S pp(3)] pp(4) pn(1) seg_at_facts(1,4)[OF pn(2)] by linarith
        qed
        have btw: "TCP_SEQ_BETWEEN (in_seqno i) (seg_seqno (last pre) + 1) (seg_seqno n - 1)"
        proof -
          have "seg_seqno (last pre) + 1 = b + of_nat (pp + 1)" "seg_seqno n - 1 = b + of_nat (pn - 1)"
            using pp(3) sn True by (auto simp: seg_at_def of_nat_diff)
          moreover have "pp + 1 \<le> p" "p \<le> pn - 1" "p < pp + 1 + 2 ^ 31" "pp + 1 < p + 2 ^ 31" "p < pn - 1 + 2 ^ 31" "pn - 1 < p + 2 ^ 31"
            using pp True near lo pn s(3) by simp_all
          ultimately show ?thesis
            unfolding TCP_SEQ_BETWEEN_def s(2) by (simp only: seq_near)
        qed
        define prev where "prev = (if TCP_SEQ_GT (seg_seqno (last pre) + ucast (seg_len (last pre))) (in_seqno i)
            then seg_trim (ucast (in_seqno i - seg_seqno (last pre))) (ucast (in_seqno i - seg_seqno (last pre))) (last pre) else last pre)"
        have "p < pp + 2 ^ 30"
          using pp(1) lo s(3) by simp
        note t = trim_end_ok[OF pp(3) nofin pp(2) this, folded s(2), folded prev_def]
        have "oos_ok b S lo p (butlast pre @ [prev])"
          using t pp lo s(3) by (intro oos_ok_join[OF pp(5)] oos_one) auto
        from insert[OF this] True have "oos_ok b S lo hi (butlast pre @ [prev] @ tcp_oos_insert_segment (in_seqno i) (inseg i) (n # ns))"
          by simp
        then show ?thesis
          using True ne eq lt btw keep f by (auto simp: tcp_seg_copy_def Let_def prev_def)
      qed
    next
      case False
      then have g: "pn < p"
        using ne by simp
      have btw: "\<not> TCP_SEQ_BETWEEN (in_seqno i) (seg_seqno (last pre) + 1) (seg_seqno n - 1)"
      proof -
        have "0 < pn"
          using pre(2) pn(1) lo by simp
        then have "seg_seqno n - 1 = b + of_nat (pn - 1)"
          using sn by (auto simp: of_nat_diff)
        moreover have "p < pn - 1 + 2 ^ 31" "pn - 1 < p + 2 ^ 31" "\<not> p \<le> pn - 1"
          using g near lo pn s(3) pre(2) seg_at_facts(1)[OF s(1)] by simp_all
        ultimately show ?thesis
          unfolding TCP_SEQ_BETWEEN_def s(2) by (simp only: seq_near) simp
      qed
      show ?thesis
      proof (cases "ns = []")
        case True
        have "oos_ok b S lo hi (pre @ [n', inseg i])" if "seg_at b S pn n'" "pn + length (seg_seq n') \<le> p" for n'
        proof -
          have "oos_ok b S pn hi [n', inseg i]"
            using that s(1,3) pre(2) pn(1) lo by (intro oos_ConsI[OF that(1)] oos_one[OF s(1)]) simp_all
          then have "oos_ok b S m hi [n', inseg i]"
            by (rule oos_ok_mono) (use pre pn lo in simp_all)
          then show ?thesis
            using pre pn(1,3) lo by (intro oos_ok_join[OF pre(1)]) auto
        qed
        moreover have "\<not> TCP_SEQ_GT (ucast (in_tcplen i) + in_seqno i) (rcv_nxt pcb + rcv_wnd pcb)"
        proof -
          have "(ucast (in_tcplen i) :: u32) = of_nat (length (seg_seq (inseg i)))"
            using tl by (metis of_nat_unat)
          then have "ucast (in_tcplen i) + in_seqno i = b + of_nat (p + length (seg_seq (inseg i)))"
            unfolding s(2) by simp
          moreover have "p + length (seg_seq (inseg i)) < hi + 2 ^ 31" "hi < p + length (seg_seq (inseg i)) + 2 ^ 31"
            using s(3) lo by simp_all
          ultimately show ?thesis
            unfolding edge using s(3) by (simp only: seq_near)
        qed
        moreover have "p < pn + 2 ^ 30"
          using pn(1) pre(2) lo s(3) by simp
        ultimately have "\<exists>q'. oos_append i pcb pre n (inseg i) = Some (in_tcplen i, q') \<and> oos_ok b S lo hi q'"
          if "\<not> is_set (seg_hdrflags n) TCP_FIN"
          using trim_end_ok[OF pn(2) that g, folded s(2)] unfolding oos_append_def Let_def by simp
        moreover have "oos_walk i pcb pre [n] e =
           (if is_set (seg_hdrflags n) TCP_FIN \<or> \<not> alloc_ok e
            then Some (in_tcplen i, pre @ [n], if is_set (seg_hdrflags n) TCP_FIN then e else alloc_next e)
            else map_option (\<lambda>(tl, q). (tl, q, alloc_next e)) (oos_append i pcb pre n (inseg i)))"
          using ne eq gt lt g btw by (simp add: tcp_seg_copy_def)
        ultimately show ?thesis
          using keep unfolding True by (cases "is_set (seg_hdrflags n) TCP_FIN"; cases "alloc_ok e") auto
      next
        case more: False
        have "walk_inv b S lo p (pn + length (seg_seq n)) (pre @ [n])"
          using pn lo pre(2) by (intro walk_inv_step[OF Cons.prems(1) _ g]) auto
        from Cons.IH[OF this pn(4,3)] show ?thesis
          using more ne eq lt g btw False by simp
      qed
    qed
  qed
qed



subsection \<open>In-sequence data\<close>

lemma ucast_tcplen:
  assumes "seg_at b S p s" "length (seg_seq s) < 65536"
  shows "unat (ucast (TCP_TCPLEN s) :: u16) = length (seg_seq s)" "(ucast (ucast (TCP_TCPLEN s) :: u16) :: u32) = of_nat (length (seg_seq s))"
proof -
  show u: "unat (ucast (TCP_TCPLEN s) :: u16) = length (seg_seq s)"
    using assms(2) by (simp add: seg_at_facts(2)[OF assms(1)] of_nat_u16 unat_u16_of_nat)
  show "(ucast (ucast (TCP_TCPLEN s) :: u16) :: u32) = of_nat (length (seg_seq s))"
    unfolding u[symmetric] by simp
qed

lemma drop_covered_eq:
  assumes "stream_ok S" "seg_at b S p s" "\<not> is_set (seg_hdrflags s) TCP_FIN" "hi < lo + 2 ^ 32"
  shows "oos_ok b S lo hi ns \<Longrightarrow> drop_covered (b + of_nat p) (ucast (TCP_TCPLEN s)) s ns =
    (let r = oos_covered (b + of_nat p) s ns in (ucast (TCP_TCPLEN (fst r)), r))"
  using assms(4)
proof (induction ns arbitrary: lo)
  case (Cons n ns)
  obtain pn where pn: "lo \<le> pn" "seg_at b S pn n" "pn + length (seg_seq n) \<le> hi" "oos_ok b S (pn + length (seg_seq n)) hi ns"
    using Cons.prems oos_ok_Cons[of hi lo b S n ns] by auto
  have "length (seg_seq s) < 65536"
    using assms(2,3) unat_u16_less[of "seg_len s"] by (simp add: seg_at_facts(3)[OF assms(2)] seg_at_def del: unat_u16_less)
  then have e: "(ucast (ucast (TCP_TCPLEN s) :: u16) :: u32) = ucast (seg_len s)"
    using ucast_tcplen(2)[OF assms(2)] seg_end[OF assms(2)] assms(2,3) by (simp add: seg_at_facts(3)[OF assms(2)] seg_at_def)
  have syn: "\<not> is_set (seg_hdrflags s) TCP_SYN"
    using assms(2) by (simp add: seg_at_def)
  show ?case
  proof (cases "is_set (seg_hdrflags n) TCP_FIN")
    case True
    then have "ns = []"
      using fin_is_last[OF assms(1) pn(2) True pn(4)] pn(1) Cons.prems(2) by simp
    then show ?thesis
      using True e syn by (simp add: Let_def)
  next
    case False
    have "hi < pn + length (seg_seq n) + 2 ^ 32"
      using pn(1) Cons.prems(2) by simp
    from Cons.IH[OF pn(4) this] show ?thesis
      using False e by (simp add: Let_def)
  qed
qed (simp add: Let_def)

lemma short: "seg_at b S p s \<Longrightarrow> length (seg_data s) < 65535 \<Longrightarrow> length (seg_seq s) < 65536"
  by (simp add: seg_at_facts(3))

lemma inseq_ooseq_ok:
  assumes S: "stream_ok S" and s: "seg_at b S n s" "length (seg_data s) < 65535" "n + length (seg_seq s) \<le> hi"
    and i: "in_seqno i = b + of_nat n" and q: "oos_ok b S (n + 1) hi q" and w: "hi < n + 2 ^ 30"
  obtains s' q' where "inseq_ooseq i (ucast (TCP_TCPLEN s)) s q = Some (ucast (TCP_TCPLEN s'), s', q')" "seg_at b S n s'"
    "length (seg_seq s') < 65536" "n + length (seg_seq s') \<le> hi" "oos_ok b S (n + length (seg_seq s')) hi q'"
    "length (seg_seq s') < length (seg_seq s) \<Longrightarrow> \<exists>x xs. q' = x # xs \<and> seg_at b S (n + length (seg_seq s')) x \<and>
       length (seg_seq s) \<le> length (seg_seq s') + length (seg_seq x)"
proof (cases "q = [] \<or> is_set (seg_hdrflags s) TCP_FIN")
  case True
  then show ?thesis
    using that[of s "[]"] s(1,3) short[OF s(1,2)] by (auto simp: inseq_ooseq_def)
next
  case False
  then have nofin: "\<not> is_set (seg_hdrflags s) TCP_FIN"
    by simp
  have lo: "n + 1 \<le> hi"
    using s(3) seg_at_facts(4)[OF s(1)] by linarith
  obtain t ns where c: "oos_covered (b + of_nat n) s q = (t, ns)" "seg_at b S n t" "n + length (seg_seq t) \<le> hi"
    "oos_ok b S (n + 1) hi ns" "seg_data t = seg_data s" "is_set (seg_hdrflags t) TCP_FIN \<Longrightarrow> ns = []"
    "\<And>x xs. ns = x # xs \<Longrightarrow> \<not> TCP_SEQ_GEQ (b + of_nat n + ucast (seg_len t)) (seg_seqno x + ucast (seg_len x))"
    by (rule oos_covered_ok[OF S s(1) nofin s(3) q le_add1 lo w]) blast
  have w32: "hi < n + 1 + 2 ^ 32"
    using w by simp
  have io: "inseq_ooseq i (ucast (TCP_TCPLEN s)) s q = (case ns of [] \<Rightarrow> Some (ucast (TCP_TCPLEN t), t, []) | x # xs \<Rightarrow>
       if TCP_SEQ_GT (in_seqno i + ucast (ucast (TCP_TCPLEN t) :: u16)) (seg_seqno x)
       then let s = inseq_cut (seg_seqno x - in_seqno i) t; tcplen = ucast (TCP_TCPLEN s)
            in if in_seqno i + ucast (tcplen :: u16) = seg_seqno x then Some (tcplen, s, x # xs) else None
       else Some (ucast (TCP_TCPLEN t), t, x # xs))"
    unfolding inseq_ooseq_def i drop_covered_eq[OF S s(1) nofin w32 q] c(1) using False by (simp add: Let_def split: list.split)
  have st: "length (seg_seq t) < 65536"
    using c(2,5) s(2) by (intro short) auto
  have ls: "length (seg_seq s) = length (seg_data s)"
    using nofin by (simp add: seg_at_facts(3)[OF s(1)])
  show ?thesis
  proof (cases ns)
    case Nil
    then show ?thesis
      using that[of t "[]"] io c(2,3) st ls c(5) seg_data_le[OF c(2)] by simp
  next
    case nn: (Cons x xs)
    then have nofin': "\<not> is_set (seg_hdrflags t) TCP_FIN"
      using c(6) by auto
    have lt: "length (seg_seq t) = length (seg_data s)"
      using nofin' by (simp add: seg_at_facts(3)[OF c(2)] c(5))
    obtain px where px: "n + 1 \<le> px" "seg_at b S px x" "px + length (seg_seq x) \<le> hi" "oos_ok b S (px + length (seg_seq x)) hi xs"
      using c(4) w oos_ok_Cons[of hi "n + 1" b S x xs] by (auto simp: nn)
    have near: "n + length (seg_data s) < px + 2 ^ 31" "px < n + length (seg_data s) + 2 ^ 31"
        "n + length (seg_data t) < px + length (seg_data x) + 2 ^ 31" "px + length (seg_data x) < n + length (seg_data t) + 2 ^ 31"
      using px c(3) lt w seg_data_le[OF px(2)] seg_data_le[OF c(2)] by (simp_all add: c(5))
    have e: "b + of_nat n + ucast (seg_len t) = b + of_nat (n + length (seg_data t))"
      using seg_end[OF c(2)] c(2) by (simp add: seg_at_def)
    have longer: "n + length (seg_data s) < px + length (seg_data x)"
      using c(7)[OF nn] unfolding e seg_end[OF px(2)] seq_near(4)[OF near(3,4)] by (simp add: c(5))
    have rest: "oos_ok b S px hi (x # xs)"
      using px w by (intro oos_ConsI) auto
    have "in_seqno i + ucast (ucast (TCP_TCPLEN t) :: u16) = b + of_nat (n + length (seg_data s))"
      using ucast_tcplen(2)[OF c(2) st] i lt by simp
    then have gt: "TCP_SEQ_GT (in_seqno i + ucast (ucast (TCP_TCPLEN t) :: u16)) (seg_seqno x) \<longleftrightarrow> px < n + length (seg_data s)"
      using px(2) by (simp only: seg_at_def seq_near(3)[OF near(1,2)])
    show ?thesis
    proof (cases "px < n + length (seg_data s)")
      case cut: True
      have "seg_seqno x - in_seqno i = of_nat (px - n)"
        using px(1,2) i by (simp add: seg_at_def of_nat_diff)
      then have k: "(ucast (seg_seqno x - in_seqno i) :: u16) = of_nat (px - n)"
        by (simp only: of_nat_u16)
      define t' where "t' = seg_trim (of_nat (px - n)) (of_nat (px - n)) t"
      have ic: "inseq_cut (seg_seqno x - in_seqno i) t = t'"
        using c(2) unfolding inseq_cut_def k t'_def by (simp add: Let_def seg_at_def)
      have kk: "0 < px - n" "px - n \<le> length (seg_data t)"
        using cut px(1) c(5) by simp_all
      note t = seg_trim_at[OF c(2) nofin' kk, folded t'_def]
      have st': "length (seg_seq t') < 65536"
        using t(2) kk c(5) s(2) by simp
      have "in_seqno i + ucast (ucast (TCP_TCPLEN t') :: u16) = seg_seqno x"
        unfolding ucast_tcplen(2)[OF t(1) st'] t(2) using px(1,2) i by (simp add: seg_at_def of_nat_diff)
      then have "inseq_ooseq i (ucast (TCP_TCPLEN s)) s q = Some (ucast (TCP_TCPLEN t'), t', x # xs)"
        unfolding io nn using gt cut by (simp add: ic Let_def)
      moreover have "n + length (seg_seq t') = px"
        using t(2) px(1) by simp
      ultimately show ?thesis
        using that t(1) st' px rest longer ls seg_data_le[OF px(2)] by auto
    next
      case nocut: False
      have "inseq_ooseq i (ucast (TCP_TCPLEN s)) s q = Some (ucast (TCP_TCPLEN t), t, x # xs)"
        unfolding io nn using gt nocut by simp
      moreover have "oos_ok b S (n + length (seg_seq t)) hi (x # xs)"
        using rest by (rule oos_ok_mono) (use nocut lt w in simp_all)
      ultimately show ?thesis
        using that c(2,3) st lt ls by auto
    qed
  qed
qed



subsection \<open>The receiver's invariant\<close>

text \<open>
  \<open>n\<close> items of the stream have been taken, the window ends at position \<open>hi\<close>, and what has been announced to
  the peer is not ahead of it. Without window scaling windows are 16-bit.
\<close>

definition rcv_wnd_ok :: "tcp_cfg \<Rightarrow> u32 \<Rightarrow> nat \<Rightarrow> nat \<Rightarrow> tcp_pcb \<Rightarrow> bool" where
  "rcv_wnd_ok c b n hi pcb = (rcv_nxt pcb = b + of_nat n \<and> n + unat (rcv_wnd pcb) = hi \<and> hi < n + 2 ^ 30 \<and>
     (LWIP_WND_SCALE c \<or> rcv_wnd pcb \<le> 0xFFFF) \<and> rcv_ann_wnd pcb \<le> rcv_wnd pcb \<and>
     unat (rcv_nxt pcb + rcv_wnd pcb - rcv_ann_right_edge pcb) < 2 ^ 30)"

definition rcv_ok :: "tcp_cfg \<Rightarrow> u32 \<Rightarrow> u8 option list \<Rightarrow> nat \<Rightarrow> nat \<Rightarrow> tcp_pcb \<Rightarrow> bool" where
  "rcv_ok c b S n hi pcb = (rcv_wnd_ok c b n hi pcb \<and> n \<le> length S \<and> oos_ok b S (n + 1) hi (ooseq pcb))"

fun bytes :: "u8 option list \<Rightarrow> u8 list" where
  "bytes [] = []"
| "bytes (Some x # xs) = x # bytes xs"
| "bytes (None # xs) = bytes xs"

definition delivered :: "tin \<Rightarrow> u8 list" where
  "delivered i = (case recv_data i of None \<Rightarrow> [] | Some d \<Rightarrow> d)"

lemma bytes_append [simp]: "bytes (xs @ ys) = bytes xs @ bytes ys"
  by (induction xs rule: bytes.induct) auto

lemma bytes_map [simp]: "bytes (map Some d) = d"
  by (induction d) auto

lemma bytes_seg: "seg_at b S p s \<Longrightarrow> bytes (seg_seq s) = seg_data s"
  by (simp add: seg_at_facts(3))

text \<open>All but the fields of the receiving side.\<close>

definition snd_part :: "tcp_pcb \<Rightarrow> tcp_pcb" where
  "snd_part pcb = pcb\<lparr>rcv_nxt := 0, rcv_wnd := 0, rcv_ann_wnd := 0, rcv_ann_right_edge := 0, ooseq := [], state := CLOSED, flags := 0\<rparr>"

lemma snd_part_simps [simp]:
  "snd_part (pcb\<lparr>rcv_nxt := x\<rparr>) = snd_part pcb" "snd_part (pcb\<lparr>rcv_wnd := x\<rparr>) = snd_part pcb"
  "snd_part (pcb\<lparr>rcv_ann_wnd := x\<rparr>) = snd_part pcb" "snd_part (pcb\<lparr>rcv_ann_right_edge := x\<rparr>) = snd_part pcb"
  "snd_part (pcb\<lparr>ooseq := q\<rparr>) = snd_part pcb" "snd_part (pcb\<lparr>state := st\<rparr>) = snd_part pcb"
  "snd_part (pcb\<lparr>flags := f\<rparr>) = snd_part pcb"
  by (simp_all add: snd_part_def)

lemma seq_gt_iff: "TCP_SEQ_GT a b \<longleftrightarrow> 2 ^ 31 \<le> unat (b - a)"
  by (simp only: TCP_SEQ_GT_def seq_lt_iff[symmetric] TCP_SEQ_LT_def)

lemma update_ann_ok:
  assumes "unat (rcv_wnd pcb) < 2 ^ 30" "LWIP_WND_SCALE c \<or> rcv_wnd pcb \<le> 0xFFFF"
    "unat (rcv_nxt pcb + rcv_wnd pcb - rcv_ann_right_edge pcb) < 2 ^ 30"
  obtains w k where "tcp_update_rcv_ann_wnd c pcb = Some (pcb\<lparr>rcv_ann_wnd := w\<rparr>, k)" "w \<le> rcv_wnd pcb"
proof -
  define d where "d = rcv_nxt pcb + rcv_wnd pcb - rcv_ann_right_edge pcb"
  have le: "rcv_ann_right_edge pcb - rcv_nxt pcb \<le> rcv_wnd pcb" if "\<not> TCP_SEQ_GT (rcv_nxt pcb) (rcv_ann_right_edge pcb)"
  proof -
    have e: "rcv_ann_right_edge pcb - rcv_nxt pcb = rcv_wnd pcb - d"
      by (simp add: d_def)
    have "\<not> 2 ^ 31 \<le> unat (rcv_wnd pcb - d)"
      using that unfolding seq_gt_iff e .
    then have "d \<le> rcv_wnd pcb"
      using assms(1,3) unfolding d_def[symmetric] by (simp add: unat_sub_if' word_le_nat_alt split: if_splits)
    then show ?thesis
      unfolding e by (rule word_sub_le)
  qed
  have "tcpwnd c (rcv_ann_right_edge pcb - rcv_nxt pcb) \<le> rcv_wnd pcb"
    if "\<not> TCP_SEQ_GT (rcv_nxt pcb) (rcv_ann_right_edge pcb)"
    using le[OF that] by (simp add: tcpwnd_def) (metis order.trans word_and_le1 word_and_le2)
  moreover have "LWIP_WND_SCALE c \<or> rcv_ann_right_edge pcb - rcv_nxt pcb \<le> 0xFFFF"
    if "\<not> TCP_SEQ_GT (rcv_nxt pcb) (rcv_ann_right_edge pcb)"
    using le[OF that] assms(2) by auto
  ultimately obtain w k where "tcp_update_rcv_ann_wnd c pcb = Some (pcb\<lparr>rcv_ann_wnd := w\<rparr>, k)" "w \<le> rcv_wnd pcb"
  proof -
    let ?e = "rcv_nxt pcb + rcv_wnd pcb" and ?r = "rcv_ann_right_edge pcb" and ?n = "rcv_nxt pcb"
    assume a: "\<not> TCP_SEQ_GT ?n ?r \<Longrightarrow> tcpwnd c (?r - ?n) \<le> rcv_wnd pcb"
      "\<not> TCP_SEQ_GT ?n ?r \<Longrightarrow> LWIP_WND_SCALE c \<or> ?r - ?n \<le> 0xFFFF"
      and t: "\<And>w k. tcp_update_rcv_ann_wnd c pcb = Some (pcb\<lparr>rcv_ann_wnd := w\<rparr>, k) \<Longrightarrow> w \<le> rcv_wnd pcb \<Longrightarrow> thesis"
    consider "TCP_SEQ_GEQ ?e (?r + min (TCP_WND c div 2) (ucast (mss pcb)))"
      | "\<not> TCP_SEQ_GEQ ?e (?r + min (TCP_WND c div 2) (ucast (mss pcb)))" "TCP_SEQ_GT ?n ?r"
      | "\<not> TCP_SEQ_GEQ ?e (?r + min (TCP_WND c div 2) (ucast (mss pcb)))" "\<not> TCP_SEQ_GT ?n ?r"
      by blast
    then show thesis
    proof cases
      case 1
      then show ?thesis
        by (intro t[of "rcv_wnd pcb" "?e - ?r"]) (simp_all only: tcp_update_rcv_ann_wnd_def Let_def if_True order.refl)
    next
      case 2
      then show ?thesis
        by (intro t[of 0 0]) (simp_all only: tcp_update_rcv_ann_wnd_def Let_def if_True if_False word_zero_le)
    next
      case 3
      have "tcp_update_rcv_ann_wnd c pcb = Some (pcb\<lparr>rcv_ann_wnd := tcpwnd c (?r - ?n)\<rparr>, 0)"
        using 3 a(2)[OF 3(2)] unfolding tcp_update_rcv_ann_wnd_def Let_def by (auto simp only: if_True if_False simp_thms)
      then show ?thesis
        using t a(1)[OF 3(2)] by blast
    qed
  qed
  then show thesis
    using that by blast
qed

lemma wnd_step:
  assumes ok: "rcv_wnd_ok c b n hi pcb" and k: "n + k \<le> hi"
    and q: "rcv_nxt q = rcv_nxt pcb + of_nat k" "rcv_wnd q = rcv_wnd pcb - of_nat k" "rcv_ann_right_edge q = rcv_ann_right_edge pcb"
  obtains w j where "tcp_update_rcv_ann_wnd c q = Some (q\<lparr>rcv_ann_wnd := w\<rparr>, j)" "rcv_wnd_ok c b (n + k) hi (q\<lparr>rcv_ann_wnd := w\<rparr>)"
    "of_nat k \<le> rcv_wnd pcb"
proof -
  have kw: "k \<le> unat (rcv_wnd pcb)" "unat (rcv_wnd pcb) < 2 ^ 30"
    using ok k by (simp_all add: rcv_wnd_ok_def)
  then have u: "unat (of_nat k :: u32) = k"
    by (simp add: unat_u32_of_nat)
  have le: "of_nat k \<le> rcv_wnd pcb"
    using kw u by (simp add: word_le_nat_alt)
  then have uw: "unat (rcv_wnd q) = unat (rcv_wnd pcb) - k"
    unfolding q(2) by (simp add: unat_sub u)
  then have dec: "rcv_wnd q \<le> rcv_wnd pcb"
    by (simp add: word_le_nat_alt)
  have edge: "rcv_nxt q + rcv_wnd q = rcv_nxt pcb + rcv_wnd pcb"
    by (simp add: q)
  have w3: "unat (rcv_wnd q) < 2 ^ 30" "LWIP_WND_SCALE c \<or> rcv_wnd q \<le> 0xFFFF"
      "unat (rcv_nxt q + rcv_wnd q - rcv_ann_right_edge q) < 2 ^ 30"
    using ok uw kw dec unfolding edge q(3) by (auto simp: rcv_wnd_ok_def)
  from update_ann_ok[OF w3] obtain w j where w: "tcp_update_rcv_ann_wnd c q = Some (q\<lparr>rcv_ann_wnd := w\<rparr>, j)" "w \<le> rcv_wnd q" .
  have "rcv_wnd_ok c b (n + k) hi (q\<lparr>rcv_ann_wnd := w\<rparr>)"
    using ok k q(1) w(2) uw w3 unfolding rcv_wnd_ok_def by auto
  then show thesis
    using that w(1) le by blast
qed

subsection \<open>Taking segments out of the queue\<close>

lemma take_split: "i \<le> j \<Longrightarrow> take j (drop n S) = take i (drop n S) @ take (j - i) (drop (n + i) S)"
  using take_add[of i "j - i" "drop n S"] by (simp add: add.commute)

lemma seg_bytes:
  assumes "seg_at b S n s" "n + length (seg_seq s) \<le> m"
  shows "bytes (take (m - n) (drop n S)) = seg_data s @ bytes (take (m - (n + length (seg_seq s))) (drop (n + length (seg_seq s)) S))"
proof -
  have "take (m - n) (drop n S) = seg_seq s @ take (m - n - length (seg_seq s)) (drop (n + length (seg_seq s)) S)"
    using assms take_split[of "length (seg_seq s)" "m - n" n S] by (simp add: seg_at_def)
  then show ?thesis
    by (simp add: bytes_seg[OF assms(1)])
qed

lemma fin_iff:
  assumes "stream_ok S" "seg_at b S n s"
  shows "is_set (seg_hdrflags s) TCP_FIN \<longleftrightarrow> n + length (seg_seq s) = length S \<and> None \<in> set S"
proof
  assume f: "is_set (seg_hdrflags s) TCP_FIN"
  have "n + length (seg_data s) < length S"
    using seg_at_fin(1,2)[OF assms f] by simp
  then have "None \<in> set S"
    using seg_at_fin(3)[OF assms f] nth_mem by metis
  then show "n + length (seg_seq s) = length S \<and> None \<in> set S"
    using seg_at_fin(1)[OF assms f] by simp
next
  assume a: "n + length (seg_seq s) = length S \<and> None \<in> set S"
  then obtain k where k: "k < length S" "S ! k = None"
    by (auto simp: in_set_conv_nth)
  then have "k = length S - 1"
    using stream_ok_None assms(1) by blast
  then have "n + length (seg_data s) < n + length (seg_seq s)"
    using seg_at_data[OF assms k(2,1)] a k(1) by simp
  then show "is_set (seg_hdrflags s) TCP_FIN"
    by (simp add: seg_at_facts(3)[OF assms(2)] split: if_splits)
qed

lemma delivered_simps [simp]:
  "delivered (take_data s i) = delivered i @ seg_data s" "recv_flags (take_data s i) = recv_flags i"
  "delivered (got_fin i) = delivered i" "recv_flags (got_fin i) = recv_flags i OR TF_GOT_FIN"
  "delivered (i\<lparr>in_seqno := sq\<rparr>) = delivered i"
  by (auto simp: delivered_def take_data_def got_fin_def split: option.split)

lemma is_set_or_same: "is_set (x OR TF_GOT_FIN) TF_GOT_FIN"
  by (simp add: is_set_def bit.conj_disj_distrib2 TF_GOT_FIN_def or_eq_0_iff)


definition taken :: "tcp_cfg \<Rightarrow> u32 \<Rightarrow> u8 option list \<Rightarrow> nat \<Rightarrow> nat \<Rightarrow> nat \<Rightarrow> tin \<times> tcp_pcb \<Rightarrow> tin \<times> tcp_pcb \<Rightarrow> bool" where
  "taken c b S hi n n' x y = (case (x, y) of ((i, pcb), (i', pcb')) \<Rightarrow>
     n \<le> n' \<and> rcv_ok c b S n' hi pcb' \<and> delivered i' = delivered i @ bytes (take (n' - n) (drop n S)) \<and>
     (is_set (recv_flags i') TF_GOT_FIN \<longleftrightarrow> is_set (recv_flags i) TF_GOT_FIN \<or> (n < n' \<and> n' = length S \<and> None \<in> set S)) \<and>
     snd_part pcb' = snd_part pcb \<and> (state pcb' = state pcb \<or> state pcb = ESTABLISHED \<and> state pcb' = CLOSE_WAIT))"

lemma rcv_wnd_ok_cong [simp]:
  "rcv_wnd_ok c b n hi (pcb\<lparr>ooseq := q\<rparr>) = rcv_wnd_ok c b n hi pcb"
  "rcv_wnd_ok c b n hi (pcb\<lparr>state := st\<rparr>) = rcv_wnd_ok c b n hi pcb"
  "rcv_wnd_ok c b n hi (pcb\<lparr>flags := f\<rparr>) = rcv_wnd_ok c b n hi pcb"
  by (simp_all add: rcv_wnd_ok_def)

lemma taken_stop:
  assumes "rcv_wnd_ok c b n hi pcb" "n \<le> length S" "oos_ok b S n hi q" "\<And>s ss. q = s # ss \<Longrightarrow> seg_seqno s \<noteq> rcv_nxt pcb"
  shows "taken c b S hi n n (i, pcb) (i, pcb\<lparr>ooseq := q\<rparr>)"
proof -
  have hi: "hi < n + 2 ^ 30" "rcv_nxt pcb = b + of_nat n"
    using assms(1) by (simp_all add: rcv_wnd_ok_def)
  have "oos_ok b S (n + 1) hi q"
  proof (cases q)
    case c: (Cons s ss)
    obtain p where p: "n \<le> p" "seg_at b S p s" "p + length (seg_seq s) \<le> hi" "oos_ok b S (p + length (seg_seq s)) hi ss"
      using assms(3) hi oos_ok_Cons[of hi n b S s ss] by (auto simp: c)
    have "p \<noteq> n"
      using assms(4)[OF c] p(2) hi(2) by (auto simp: seg_at_def)
    then show ?thesis
      unfolding c using p hi by (intro oos_ConsI[OF p(2)]) auto
  qed simp
  then show ?thesis
    using assms(1,2) by (simp add: taken_def rcv_ok_def)
qed

lemma taken_seg:
  assumes S: "stream_ok S" and s: "seg_at b S n s" and t: "taken c b S hi (n + length (seg_seq s)) n' (j, q) (i', pcb')"
    and j: "delivered j = delivered i @ seg_data s"
      "is_set (recv_flags j) TF_GOT_FIN \<longleftrightarrow> is_set (recv_flags i) TF_GOT_FIN \<or> is_set (seg_hdrflags s) TCP_FIN"
    and q: "snd_part q = snd_part pcb" "state q = state pcb \<or> state pcb = ESTABLISHED \<and> state q = CLOSE_WAIT"
  shows "taken c b S hi n n' (i, pcb) (i', pcb')"
proof -
  let ?k = "length (seg_seq s)"
  have le: "n + ?k \<le> n'" "0 < ?k" "n' \<le> length S" and ok: "rcv_ok c b S n' hi pcb'"
    using t seg_at_facts(4)[OF s] by (simp_all add: taken_def rcv_ok_def)
  have "n < n'"
    using le(1,2) by linarith
  have "delivered i' = delivered i @ bytes (take (n' - n) (drop n S))"
    using t j(1) by (simp add: taken_def seg_bytes[OF s le(1)])
  moreover have "is_set (recv_flags i') TF_GOT_FIN \<longleftrightarrow> is_set (recv_flags i) TF_GOT_FIN \<or> (n < n' \<and> n' = length S \<and> None \<in> set S)"
    using t j(2) le(1,3) \<open>n < n'\<close> fin_iff[OF S s] by (auto simp: taken_def)
  ultimately show ?thesis
    using t q \<open>n < n'\<close> ok by (auto simp: taken_def)
qed

lemma dequeue_ok:
  assumes S: "stream_ok S"
  shows "rcv_wnd_ok c b n hi pcb \<Longrightarrow> n \<le> length S \<Longrightarrow> oos_ok b S n hi q \<Longrightarrow>
    \<exists>i' pcb' n'. dequeue c q i pcb = Some (i', pcb') \<and> taken c b S hi n n' (i, pcb) (i', pcb') \<and>
      (q \<noteq> [] \<longrightarrow> seg_at b S n (hd q) \<longrightarrow> n + length (seg_seq (hd q)) \<le> n')"
proof (induction q arbitrary: n i pcb)
  case Nil
  then show ?case
    using taken_stop[of c b n hi pcb S "[]" i] by auto
next
  case (Cons s q)
  have hi: "hi < n + 2 ^ 30" "rcv_nxt pcb = b + of_nat n"
    using Cons.prems(1) by (simp_all add: rcv_wnd_ok_def)
  obtain p where p: "n \<le> p" "seg_at b S p s" "p + length (seg_seq s) \<le> hi" "oos_ok b S (p + length (seg_seq s)) hi q"
    using Cons.prems(3) hi oos_ok_Cons[of hi n b S s q] by auto
  have eq: "seg_seqno s = rcv_nxt pcb \<longleftrightarrow> p = n"
    using p hi pos_eq[of p n b] by (auto simp: seg_at_def)
  show ?case
  proof (cases "p = n")
    case False
    then show ?thesis
      using eq p(2) hi taken_stop[OF Cons.prems, of i] by (auto simp: seg_at_def)
  next
    case True
    let ?k = "length (seg_seq s)"
    define i1 where "i1 = take_data s (i\<lparr>in_seqno := seg_seqno s\<rparr>)"
    define i2 where "i2 = (if is_set (seg_hdrflags s) TCP_FIN then got_fin i1 else i1)"
    have tl: "TCP_TCPLEN s = of_nat ?k"
      by (rule seg_at_facts(2)[OF p(2)])
    let ?q = "pcb\<lparr>rcv_nxt := rcv_nxt pcb + TCP_TCPLEN s, rcv_wnd := rcv_wnd pcb - TCP_TCPLEN s\<rparr>"
    obtain w j where w: "tcp_update_rcv_ann_wnd c ?q = Some (?q\<lparr>rcv_ann_wnd := w\<rparr>, j)"
        "rcv_wnd_ok c b (n + ?k) hi (?q\<lparr>rcv_ann_wnd := w\<rparr>)" "of_nat ?k \<le> rcv_wnd pcb"
      by (rule wnd_step[OF Cons.prems(1), of ?k ?q]) (use p(3) True tl in simp_all)
    define q1 where "q1 = ?q\<lparr>rcv_ann_wnd := w\<rparr>"
    define q2 where "q2 = (if is_set (seg_hdrflags s) TCP_FIN \<and> state q1 = ESTABLISHED then q1\<lparr>state := CLOSE_WAIT\<rparr> else q1)"
    have d: "dequeue c (s # q) i pcb = dequeue c q i2 q2"
      using eq True w(1,3) tl by (simp add: Let_def i1_def i2_def q1_def q2_def)
    have "n + ?k \<le> length S"
      using seg_at_facts(1)[OF p(2)] True by simp
    moreover have "rcv_wnd_ok c b (n + ?k) hi q2"
      using w(2) by (simp add: q2_def q1_def)
    ultimately obtain i' pcb' n' where r: "dequeue c q i2 q2 = Some (i', pcb')" "taken c b S hi (n + ?k) n' (i2, q2) (i', pcb')"
      using Cons.IH[of "n + ?k" q2 i2] p(4) True by auto
    have le: "n + ?k \<le> n'" "0 < ?k" "n' \<le> length S"
      using r(2) seg_at_facts(4)[OF p(2)] by (simp_all add: taken_def rcv_ok_def)
    have "taken c b S hi n n' (i, pcb) (i', pcb')"
      by (rule taken_seg[OF S _ r(2)])
        (use p(2) True is_set_or_same in \<open>auto simp: i2_def i1_def q2_def q1_def\<close>)
    then show ?thesis
      using d r(1) le by auto
  qed
qed


text \<open>The segment that is in sequence, and what it makes available.\<close>

lemma receive_inseq_ok:
  assumes S: "stream_ok S" and ok: "rcv_ok c b S n hi pcb" and s: "seg_at b S n (inseg i)" "length (seg_data (inseg i)) < 65535"
      "n + length (seg_seq (inseg i)) \<le> hi"
    and i: "in_seqno i = b + of_nat n" "recv_data i = None"
  shows "\<exists>i' pcb' n'. receive_inseq c i pcb = Some (i', pcb') \<and> taken c b S hi n n' (i, pcb) (i', pcb') \<and>
    n + length (seg_seq (inseg i)) \<le> n'"
proof -
  let ?s = "inseg i"
  have w: "rcv_wnd_ok c b n hi pcb" and hi: "hi < n + 2 ^ 30" "n + unat (rcv_wnd pcb) = hi" "rcv_nxt pcb = b + of_nat n"
      and q: "oos_ok b S (n + 1) hi (ooseq pcb)"
    using ok unfolding rcv_ok_def rcv_wnd_ok_def by blast+
  have "unat (ucast (ucast (TCP_TCPLEN ?s) :: u16) :: u32) \<le> unat (rcv_wnd pcb)"
    using ucast_tcplen(1)[OF s(1) short[OF s(1,2)]] s(3) hi by simp
  then have iw: "inseq_window i pcb = Some (ucast (TCP_TCPLEN ?s), ?s)"
    by (simp add: inseq_window_def Let_def word_less_nat_alt)
  obtain s' q' where io: "inseq_ooseq i (ucast (TCP_TCPLEN ?s)) ?s (ooseq pcb) = Some (ucast (TCP_TCPLEN s'), s', q')" "seg_at b S n s'"
    "length (seg_seq s') < 65536" "n + length (seg_seq s') \<le> hi" "oos_ok b S (n + length (seg_seq s')) hi q'"
    "length (seg_seq s') < length (seg_seq ?s) \<Longrightarrow> \<exists>x xs. q' = x # xs \<and> seg_at b S (n + length (seg_seq s')) x \<and>
       length (seg_seq ?s) \<le> length (seg_seq s') + length (seg_seq x)"
    by (rule inseq_ooseq_ok[OF S s i(1) q hi(1)]) blast
  let ?k = "length (seg_seq s')"
  have tl: "(ucast (ucast (TCP_TCPLEN s') :: u16) :: u32) = of_nat ?k"
    by (rule ucast_tcplen(2)[OF io(2,3)])
  let ?q = "pcb\<lparr>ooseq := q', rcv_nxt := in_seqno i + of_nat ?k, rcv_wnd := rcv_wnd pcb - of_nat ?k\<rparr>"
  obtain wn j where u: "tcp_update_rcv_ann_wnd c ?q = Some (?q\<lparr>rcv_ann_wnd := wn\<rparr>, j)"
      "rcv_wnd_ok c b (n + ?k) hi (?q\<lparr>rcv_ann_wnd := wn\<rparr>)" "of_nat ?k \<le> rcv_wnd pcb"
    by (rule wnd_step[OF w, of ?k ?q]) (use io(4) i(1) hi(3) in simp_all)
  define j1 where "j1 = i\<lparr>inseg := s', in_tcplen := ucast (TCP_TCPLEN s'),
      recv_data := (if seg_data s' = [] then recv_data i else Some (seg_data s'))\<rparr>"
  define j2 where "j2 = (if is_set (seg_hdrflags s') TCP_FIN then got_fin j1 else j1)"
  obtain i' pcb' n' where r: "dequeue c q' j2 (?q\<lparr>rcv_ann_wnd := wn\<rparr>) = Some (i', pcb')"
      "taken c b S hi (n + ?k) n' (j2, ?q\<lparr>rcv_ann_wnd := wn\<rparr>) (i', pcb')"
      "q' \<noteq> [] \<longrightarrow> seg_at b S (n + ?k) (hd q') \<longrightarrow> n + ?k + length (seg_seq (hd q')) \<le> n'"
    using dequeue_ok[OF S u(2) _ io(5), of j2] seg_at_facts(1)[OF io(2)] by blast
  have "receive_inseq c i pcb = Some (i', tcp_ack pcb')"
    using iw io(1) u r(1) tl unfolding receive_inseq_def by (cases "is_set (seg_hdrflags s') TCP_FIN") (simp_all add: Let_def j2_def flip: j1_def)
  moreover have "taken c b S hi n n' (i, pcb) (i', pcb')"
    by (rule taken_seg[OF S io(2) r(2)]) (use i(2) is_set_or_same in \<open>auto simp: j2_def j1_def delivered_def got_fin_def\<close>)
  then have "taken c b S hi n n' (i, pcb) (i', tcp_ack pcb')"
    by (simp add: taken_def rcv_ok_def tcp_ack_def tcp_ack_now_def tcp_set_flags_def tcp_clear_flags_def)
  moreover have "n + length (seg_seq ?s) \<le> n'"
  proof (cases "?k < length (seg_seq ?s)")
    case True
    then show ?thesis
      using io(6) r(3) by auto
  next
    case False
    then show ?thesis
      using r(2) by (simp add: taken_def)
  qed
  ultimately show ?thesis
    by blast
qed


subsection \<open>A segment arrives\<close>

lemma front_ok:
  assumes "seg_at b S p s" "p < n" "n < p + length (seg_seq s)" "length (seg_data s) < 65535"
  defines "s' \<equiv> s\<lparr>seg_len := seg_len s - of_nat (n - p), seg_p := [(None, drop (n - p) (seg_data s))], seg_seqno := b + of_nat n\<rparr>"
  shows "seg_at b S n s'" "n + length (seg_seq s') = p + length (seg_seq s)" "length (seg_data s') < 65535" "n - p \<le> length (seg_data s)"
proof -
  note f = seg_at_facts[OF assms(1)]
  show l: "n - p \<le> length (seg_data s)"
    using assms(2,3) f(3) by (auto split: if_splits)
  have d: "seg_data s' = drop (n - p) (seg_data s)" and h: "seg_hdrflags s' = seg_hdrflags s"
    by (simp_all add: s'_def seg_data_def)
  have q: "seg_seq s' = drop (n - p) (seg_seq s)"
    using assms(1) l by (simp add: seg_seq_nosyn seg_at_def d h f(3) drop_map)
  show e: "n + length (seg_seq s') = p + length (seg_seq s)"
    using assms(2,3) by (simp add: q)
  show "length (seg_data s') < 65535"
    using assms(4) by (simp add: d)
  have u: "unat (of_nat (n - p) :: u16) = n - p"
    using l assms(4) by (simp add: unat_u16_of_nat)
  then have "of_nat (n - p) \<le> seg_len s"
    using l assms(1) by (simp add: word_le_nat_alt seg_at_def)
  then have "unat (seg_len s - of_nat (n - p)) = length (seg_data s')"
    using assms(1) u by (simp only: d unat_sub seg_at_def length_drop)
  then have "unat (seg_len s') = length (seg_data s')"
    by (simp only: s'_def) simp
  moreover have "take (length (seg_seq s')) (drop n S) = seg_seq s'"
  proof -
    have "drop (n - p) (take (length (seg_seq s)) (drop p S)) = seg_seq s'"
      using assms(1) by (simp add: q seg_at_def)
    then show ?thesis
      using assms(2) by (simp add: drop_take q)
  qed
  moreover have "seg_seq s' \<noteq> []"
    using e assms(3) by auto
  ultimately show "seg_at b S n s'"
    using assms(1) h by (simp add: seg_at_def) (simp add: s'_def)
qed

lemma trim_front_ok:
  assumes s: "seg_at b S p (inseg i)" "length (seg_data (inseg i)) < 65535"
    and i: "in_seqno i = b + of_nat p" "unat (in_tcplen i) = length (seg_seq (inseg i))"
    and n: "rcv_nxt pcb = b + of_nat n" "n < p + 2 ^ 30" "p < n + 2 ^ 30"
  shows "p < n \<Longrightarrow> n < p + length (seg_seq (inseg i)) \<Longrightarrow> \<exists>s'. trim_front i pcb = Some (i\<lparr>inseg := s', in_seqno := b + of_nat n\<rparr>, pcb) \<and>
      seg_at b S n s' \<and> n + length (seg_seq s') = p + length (seg_seq (inseg i)) \<and> length (seg_data s') < 65535"
    "p + length (seg_seq (inseg i)) \<le> n \<Longrightarrow> trim_front i pcb = Some (i, tcp_ack_now pcb)"
    "n \<le> p \<Longrightarrow> trim_front i pcb = Some (i, pcb)"
proof -
  let ?s = "inseg i"
  let ?k = "length (seg_seq ?s)"
  have k: "0 < ?k" "?k \<le> 65536"
    using seg_at_facts(4,5)[OF s(1)] .
  have tl: "(ucast (in_tcplen i) :: u32) = of_nat ?k"
    using i(2) by (metis of_nat_unat)
  have e: "in_seqno i + 1 = b + of_nat (p + 1)" "in_seqno i + ucast (in_tcplen i) - 1 = b + of_nat (p + ?k - 1)"
    using k(1) by (simp_all add: i(1) tl of_nat_diff del: length_greater_0_conv)
  have near: "n < p + 1 + 2 ^ 31" "p + 1 < n + 2 ^ 31" "n < p + ?k - 1 + 2 ^ 31" "p + ?k - 1 < n + 2 ^ 31" "p < n + 2 ^ 31" "n < p + 2 ^ 31"
    using n(2,3) k by simp_all
  have btw: "TCP_SEQ_BETWEEN (rcv_nxt pcb) (in_seqno i + 1) (in_seqno i + ucast (in_tcplen i) - 1) \<longleftrightarrow> p < n \<and> n < p + ?k"
    unfolding TCP_SEQ_BETWEEN_def e n(1) seq_near(4)[OF near(1,2)] seq_near(2)[OF near(3,4)] using k(1) by linarith
  have lt: "TCP_SEQ_LT (in_seqno i) (rcv_nxt pcb) \<longleftrightarrow> p < n"
    unfolding i(1) n(1) by (rule seq_near(1)[OF near(5,6)])
  show "trim_front i pcb = Some (i, tcp_ack_now pcb)" if "p + ?k \<le> n"
    using that k(1) unfolding trim_front_def btw lt by (simp del: length_greater_0_conv)
  show "trim_front i pcb = Some (i, pcb)" if "n \<le> p"
    using that unfolding trim_front_def btw lt by simp
  show "\<exists>s'. trim_front i pcb = Some (i\<lparr>inseg := s', in_seqno := b + of_nat n\<rparr>, pcb) \<and>
      seg_at b S n s' \<and> n + length (seg_seq s') = p + ?k \<and> length (seg_data s') < 65535" if a: "p < n" "n < p + ?k"
  proof -
    note f = front_ok[OF s(1) a s(2)]
    have "b + of_nat n - in_seqno i = of_nat (n - p)"
      using a(1) by (simp add: i(1) of_nat_diff)
    moreover have "unat (of_nat (n - p) :: u16) = n - p" "unat (of_nat (n - p) :: u32) = n - p"
      using f(4) s(2) by (simp_all add: unat_u16_of_nat unat_u32_of_nat)
    moreover have "(of_nat (n - p) :: u32) < 0xFFFF"
      using f(4) s(2) \<open>unat (of_nat (n - p) :: u32) = n - p\<close> by (simp add: word_less_nat_alt)
    ultimately have "trim_front i pcb = Some (i\<lparr>inseg := ?s\<lparr>seg_len := seg_len ?s - of_nat (n - p),
        seg_p := [(None, drop (n - p) (seg_data ?s))], seg_seqno := b + of_nat n\<rparr>, in_seqno := b + of_nat n\<rparr>, pcb)"
      using a f(4) unfolding trim_front_def btw unfolding n(1) Let_def by (simp add: of_nat_u16 del: of_nat_diff)
    then show ?thesis
      using f(1-3) by blast
  qed
qed

lemma empty_ack_upd:
  "tcp_send_empty_ack c pcb e = (pcb', e', err) \<Longrightarrow>
   \<exists>f r. pcb' = pcb\<lparr>rcv_ann_right_edge := r, flags := f\<rparr> \<and> (r = rcv_ann_right_edge pcb \<or> r = rcv_nxt pcb + rcv_ann_wnd pcb)"
proof (cases "alloc_ok e")
  case False
  assume "tcp_send_empty_ack c pcb e = (pcb', e', err)"
  then have "pcb' = pcb\<lparr>rcv_ann_right_edge := rcv_ann_right_edge pcb, flags := flags pcb OR (TF_ACK_DELAY OR TF_ACK_NOW)\<rparr>"
    using False by (simp add: tcp_send_empty_ack_def tcp_output_alloc_header_def tcp_output_alloc_header_common_def tcp_set_flags_def)
  then show ?thesis
    by blast
next
  case True
  assume "tcp_send_empty_ack c pcb e = (pcb', e', err)"
  then have "pcb' = pcb\<lparr>rcv_ann_right_edge := rcv_nxt pcb + rcv_ann_wnd pcb, flags := flags pcb'\<rparr>"
    using True by (auto simp: tcp_send_empty_ack_def tcp_output_alloc_header_def tcp_output_alloc_header_common_def
      tcp_set_flags_def tcp_clear_flags_def split: prod.splits)
  then show ?thesis
    by blast
qed

lemma empty_ack_rcv:
  assumes "tcp_send_empty_ack c pcb e = (pcb', e', err)"
  shows "snd_part pcb' = snd_part pcb" "ooseq pcb' = ooseq pcb" "state pcb' = state pcb" "rcv_nxt pcb' = rcv_nxt pcb"
    "rcv_wnd_ok c b n hi pcb \<Longrightarrow> rcv_wnd_ok c b n hi pcb'"
proof -
  obtain f r where p: "pcb' = pcb\<lparr>rcv_ann_right_edge := r, flags := f\<rparr>"
      and r: "r = rcv_ann_right_edge pcb \<or> r = rcv_nxt pcb + rcv_ann_wnd pcb"
    using empty_ack_upd[OF assms] by auto
  show "snd_part pcb' = snd_part pcb" "ooseq pcb' = ooseq pcb" "state pcb' = state pcb" "rcv_nxt pcb' = rcv_nxt pcb"
    by (simp_all add: p)
  show "rcv_wnd_ok c b n hi pcb'" if ok: "rcv_wnd_ok c b n hi pcb"
  proof -
    have "unat (rcv_wnd pcb - rcv_ann_wnd pcb) \<le> unat (rcv_wnd pcb)" "unat (rcv_wnd pcb) < 2 ^ 30"
      using ok by (auto simp: rcv_wnd_ok_def unat_sub)
    then have "unat (rcv_nxt pcb + rcv_wnd pcb - r) < 2 ^ 30"
      using r ok unfolding rcv_wnd_ok_def by auto
    then show ?thesis
      using ok by (simp add: rcv_wnd_ok_def p)
  qed
qed


lemma rcv_ok_ooseq: "rcv_ok c b S n hi pcb \<Longrightarrow> oos_ok b S (n + 1) hi q \<Longrightarrow> rcv_ok c b S n hi (pcb\<lparr>ooseq := q\<rparr>)"
  by (simp add: rcv_ok_def)

lemma empty_ack_taken:
  assumes "rcv_ok c b S n hi q" "snd_part q = snd_part pcb" "state q = state pcb" "delivered i' = delivered i" "recv_flags i' = recv_flags i"
  shows "\<exists>pcb' e'. (case tcp_send_empty_ack c q e of (pcb, e, _) \<Rightarrow> Some (i', pcb, e)) = Some (i', pcb', e') \<and>
    taken c b S hi n n (i, pcb) (i', pcb')"
proof -
  obtain pcb' e' err where r: "tcp_send_empty_ack c q e = (pcb', e', err)"
    by (cases "tcp_send_empty_ack c q e")
  show ?thesis
    using empty_ack_rcv[OF r] assms by (auto simp: r taken_def rcv_ok_def)
qed

lemma receive_data_ok:
  assumes S: "stream_ok S" and ok: "rcv_ok c b S n hi pcb" and st: "state pcb < CLOSE_WAIT"
    and s: "seg_at b S p (inseg i)" "length (seg_data (inseg i)) < 65535"
    and i: "in_seqno i = b + of_nat p" "unat (in_tcplen i) = length (seg_seq (inseg i))" "recv_data i = None"
    and n: "n < p + 2 ^ 30" "p + length (seg_seq (inseg i)) \<le> hi"
  shows "\<exists>i' pcb' e' n'. receive_data c i pcb e = Some (i', pcb', e') \<and> taken c b S hi n n' (i, pcb) (i', pcb') \<and>
    (p \<le> n \<longrightarrow> p + length (seg_seq (inseg i)) \<le> n') \<and> (n < p \<longrightarrow> n' = n)"
proof -
  let ?k = "length (seg_seq (inseg i))"
  have w: "rcv_wnd_ok c b n hi pcb" and hi: "hi < n + 2 ^ 30" "n + unat (rcv_wnd pcb) = hi" "rcv_nxt pcb = b + of_nat n"
      and q: "oos_ok b S (n + 1) hi (ooseq pcb)"
    using ok unfolding rcv_ok_def rcv_wnd_ok_def by blast+
  have k: "0 < ?k" "?k \<le> 65536"
    using seg_at_facts(4,5)[OF s(1)] .
  have pn: "p < n + 2 ^ 30"
    using n(2) hi(1) by simp
  have tl: "0 < in_tcplen i"
    using k(1) i(2) by (simp add: word_less_nat_alt)
  have edge: "rcv_nxt pcb + rcv_wnd pcb = b + of_nat hi"
    using hi(2) unfolding hi(3) by (metis add.assoc of_nat_add of_nat_unat ucast_id)
  have btw: "TCP_SEQ_BETWEEN (b + of_nat x) (rcv_nxt pcb) (rcv_nxt pcb + rcv_wnd pcb - 1) \<longleftrightarrow> n \<le> x"
    if "x < hi" "n < x + 2 ^ 30" for x
  proof -
    have e: "b + of_nat hi - 1 = (b + of_nat (hi - 1) :: u32)"
      using that by (simp add: of_nat_diff)
    have near: "x < n + 2 ^ 31" "n < x + 2 ^ 31" "x < hi - 1 + 2 ^ 31" "hi - 1 < x + 2 ^ 31"
      using that hi(1) by simp_all
    show ?thesis
      unfolding TCP_SEQ_BETWEEN_def edge e unfolding hi(3) seq_near(4)[OF near(1,2)] seq_near(2)[OF near(3,4)] using that(1) by auto
  qed
  note front = trim_front_ok[OF s i(1,2) hi(3) n(1) pn]
  note rd = receive_data_def[of c i pcb e]
  consider "p + ?k \<le> n" | "p < n" "n < p + ?k" | "p = n" | "n < p"
    by linarith
  then show ?thesis
  proof cases
    case 1
    have "p < hi"
      using n(2) k(1) by linarith
    moreover have "\<not> n \<le> p"
      using 1 k(1) by linarith
    ultimately have "receive_data c i pcb e = (case tcp_send_empty_ack c (tcp_ack_now pcb) e of (pcb, e, _) \<Rightarrow> Some (i, pcb, e))"
      using rd front(2)[OF 1] tl st btw[of p] n(1) i(1) by (simp add: Let_def tcp_ack_now_def tcp_set_flags_def)
    moreover have "rcv_ok c b S n hi (tcp_ack_now pcb)" "snd_part (tcp_ack_now pcb) = snd_part pcb" "state (tcp_ack_now pcb) = state pcb"
      using ok by (simp_all add: rcv_ok_def tcp_ack_now_def tcp_set_flags_def)
    note ea = empty_ack_taken[OF this refl refl, of i e]
    ultimately show ?thesis
      using ea 1 \<open>\<not> n \<le> p\<close> by auto
  next
    case 2
    then obtain s' where t: "trim_front i pcb = Some (i\<lparr>inseg := s', in_seqno := b + of_nat n\<rparr>, pcb)"
      "seg_at b S n s'" "n + length (seg_seq s') = p + ?k" "length (seg_data s') < 65535"
      using front(1) by auto
    let ?i = "i\<lparr>inseg := s', in_seqno := b + of_nat n\<rparr>"
    obtain i' pcb' n' where r: "receive_inseq c ?i pcb = Some (i', pcb')" "taken c b S hi n n' (?i, pcb) (i', pcb')" "p + ?k \<le> n'"
      using receive_inseq_ok[OF S ok, of ?i] t n(2) i(3) by auto
    have "receive_data c i pcb e = Some (i', pcb', e)"
      using rd t(1) tl st btw[of n] hi 2 n(2) r(1) by simp
    moreover have "taken c b S hi n n' (i, pcb) (i', pcb')"
      using r(2) by (simp add: taken_def delivered_def)
    ultimately show ?thesis
      using r(3) 2 by auto
  next
    case 3
    obtain i' pcb' n' where r: "receive_inseq c i pcb = Some (i', pcb')" "taken c b S hi n n' (i, pcb) (i', pcb')" "n + ?k \<le> n'"
      using receive_inseq_ok[OF S ok, of i] s n(2) i 3 by auto
    have "n < hi"
      using 3 n(2) k(1) by linarith
    then have "receive_data c i pcb e = Some (i', pcb', e)"
      using rd front(3) tl st btw[of n] hi(3) 3 r(1) i(1) by simp
    then show ?thesis
      using r 3 by auto
  next
    case 4
    have "p < hi"
      using n(2) k(1) by linarith
    then have b4: "n + 1 \<le> p" "p < hi" "n \<le> p" "b + of_nat n \<noteq> (b + of_nat p :: u32)"
      using 4 pn pos_eq[of n p b] by auto
    show ?thesis
    proof (cases "ooseq pcb")
      case Nil
      define q' where "q' = (if alloc_ok e then [inseg i] else [])"
      have "receive_data c i pcb e = (case tcp_send_empty_ack c (pcb\<lparr>ooseq := q'\<rparr>) (alloc_next e) of (pcb, e, _) \<Rightarrow> Some (i, pcb, e))"
        using rd front(3)[OF b4(3)] tl st btw[of p] b4 hi(3) i(1) n(1) Nil by (simp add: Let_def tcp_seg_copy_def q'_def)
      moreover have "oos_ok b S (n + 1) hi q'"
        using oos_one[OF s(1) b4(1) n(2)] hi(1) by (simp add: q'_def)
      note ea = empty_ack_taken[OF rcv_ok_ooseq[OF ok this], of pcb i i "alloc_next e"]
      ultimately show ?thesis
        using ea 4 by auto
    next
      case (Cons x xs)
      have "hi < n + 1 + 2 ^ 30" "0 < n + 1" "n + 1 \<le> hi" "walk_inv b S (n + 1) p (n + 1) []"
        using hi(1) b4 by (simp_all add: walk_inv_def)
      from oos_walk_ok[OF S s(1) i(1) n(2) i(2) edge b4(1) this(1,2,4) q this(3), of e]
      obtain q' e' where r: "oos_walk i pcb [] (ooseq pcb) e = Some (in_tcplen i, q', e')" "oos_ok b S (n + 1) hi q'"
        by auto
      have "receive_data c i pcb e =
          (case tcp_send_empty_ack c (pcb\<lparr>ooseq := q'\<rparr>) e' of (pcb, e, _) \<Rightarrow> Some (i\<lparr>in_tcplen := in_tcplen i\<rparr>, pcb, e))"
        using rd front(3)[OF b4(3)] tl st btw[of p] b4 hi(3) i(1) n(1) r(1) Cons by (simp add: Let_def)
      then show ?thesis
        using empty_ack_taken[OF rcv_ok_ooseq[OF ok r(2)], of pcb i i e'] 4 by auto
    qed
  qed
qed



text \<open>Sequence numbers wrap inside the stream, the end of it has come early, and the start comes again.\<close>

definition example_in :: "u32 \<Rightarrow> u8 \<Rightarrow> u8 list \<Rightarrow> tcp_seg" where
  "example_in sq fl d = \<lparr>seg_p = [(None, d)], seg_len = of_nat (length d), oversize_left = 0, seg_flags = 0, seg_seqno = sq,
     seg_hdrflags = fl, seg_ref = 1\<rparr>"

definition example_rcv :: tcp_pcb where
  "example_rcv = (init_pcb ios 64 0 0)\<lparr>state := ESTABLISHED, rcv_nxt := 0xFFFFFFFF, rcv_wnd := 2000, rcv_ann_wnd := 2000,
     rcv_ann_right_edge := 1999, ooseq := [example_in 1 (TCP_ACK OR TCP_FIN) [4]]\<rparr>"

definition example_tin :: tin where
  "example_tin = \<lparr>inseg = example_in 0xFFFFFFFE TCP_ACK [1, 2, 3], in_seqno = 0xFFFFFFFE, in_ackno = 0, in_wnd = 0, in_flags = TCP_ACK,
     in_tcplen = 3, in_opts = [], in_past = 0, recv_acked = 0, recv_flags = 0, recv_data = None\<rparr>"

lemma example_rcv_ok:
  fixes S :: "u8 option list"
  defines "S \<equiv> [Some 1, Some 2, Some 3, Some 4, None]"
  shows "stream_ok S" "rcv_ok ios 0xFFFFFFFE S 1 2001 example_rcv" "state example_rcv < CLOSE_WAIT"
    "seg_at 0xFFFFFFFE S 0 (inseg example_tin)" "length (seg_data (inseg example_tin)) = 3" "seg_seq (inseg example_tin) = [Some 1, Some 2, Some 3]"
proof -
  have f: "\<not> is_set TCP_ACK TCP_SYN" "\<not> is_set TCP_ACK TCP_FIN" "\<not> is_set (TCP_ACK OR TCP_FIN) TCP_SYN" "is_set (TCP_ACK OR TCP_FIN) TCP_FIN"
    by (simp_all add: is_set_def TCP_ACK_def TCP_SYN_def TCP_FIN_def)
  have s: "seg_seq (example_in sq fl d) = map Some d @ (if is_set fl TCP_FIN then [None] else [])" if "\<not> is_set fl TCP_SYN" for sq fl d
    using that by (simp add: seg_seq_nosyn example_in_def seg_data_def)
  show "stream_ok S"
    by (simp add: S_def stream_ok_def)
  show "seg_seq (inseg example_tin) = [Some 1, Some 2, Some 3]" "length (seg_data (inseg example_tin)) = 3"
    using f by (simp_all add: example_tin_def s) (simp add: example_in_def seg_data_def)
  then show "seg_at 0xFFFFFFFE S 0 (inseg example_tin)"
    using f by (simp add: seg_at_def S_def) (simp add: example_tin_def example_in_def)
  show "state example_rcv < CLOSE_WAIT"
    by (simp add: example_rcv_def less_tcp_state_def)
  have "seg_at 0xFFFFFFFE S 3 (example_in 1 (TCP_ACK OR TCP_FIN) [4])"
    using f s by (simp add: seg_at_def S_def) (simp add: example_in_def seg_data_def)
  then have "oos_ok 0xFFFFFFFE S (1 + 1) 2001 (ooseq example_rcv)"
    unfolding example_rcv_def by simp (rule oos_one[of _ _ 3], use f s in simp_all)
  moreover have "rcv_wnd_ok ios 0xFFFFFFFE 1 2001 example_rcv"
    by (simp add: rcv_wnd_ok_def example_rcv_def init_pcb_def ios_def)
  ultimately show "rcv_ok ios 0xFFFFFFFE S 1 2001 example_rcv"
    unfolding rcv_ok_def by (simp add: S_def)
qed


end
