(* ===== verification/Tcp_Ack.thy ===== *)
theory Tcp_Ack
  imports Tcp_Recv
begin

unbundle bit_operations_syntax

section \<open>The sender: what an acknowledgement does\<close>

subsection \<open>The segments an acknowledgement covers\<close>

lemma contig_disjoint:
  assumes "contig b Q" "list_all seg_ok Q" "length (seqs Q) < 2 ^ 32" "x \<in> set Q"
  shows "off b x + length (seg_seq x) \<le> length (seqs Q)" "y \<in> set Q \<Longrightarrow> off b x < off b y \<Longrightarrow> off b x + length (seg_seq x) \<le> off b y"
proof -
  obtain A B where Q: "Q = A @ x # B"
    using split_list assms(4) by metis
  have ok: "list_all seg_ok A" "seg_ok x" "list_all seg_ok B"
    using assms(2) by (simp_all add: Q)
  have x: "off b x = length (seqs A)"
    using assms(1,3) ok(1) by (simp add: Q contig_append tcplens off_def unat_u32_of_nat)
  then show "off b x + length (seg_seq x) \<le> length (seqs Q)"
    by (simp add: Q)
  have cA: "contig b A" "contig (b + of_nat (length (seqs A) + length (seg_seq x))) B"
    using assms(1) ok by (simp_all add: Q contig_append tcplens seg_seq_len add.assoc)
  have A: "off b z < length (seqs A)" if "z \<in> set A" for z
    using contig_ordered[OF cA(1) ok(1), of b 0] assms(3) that by (simp add: Q)
  have B: "length (seqs A) + length (seg_seq x) \<le> off b z" if "z \<in> set B" for z
    using contig_ordered[OF cA(2) ok(3) refl] assms(3) that by (simp add: Q)
  show "off b x + length (seg_seq x) \<le> off b y" if "y \<in> set Q" "off b x < off b y"
    using that A[of y] B[of y] x by (auto simp: Q)
qed

definition acked :: "u32 \<Rightarrow> tcp_seg \<Rightarrow> bool" where
  "acked a s = TCP_SEQ_LEQ (seg_seqno s + TCP_TCPLEN s) a"

lemma acked_iff:
  assumes "snd_ok b pcb" "s \<in> set (unacked pcb @ unsent pcb)" "k \<le> length (stream b pcb)"
  shows "acked (b + of_nat k) s \<longleftrightarrow> off b s + length (seg_seq s) \<le> k"
proof -
  have s: "s \<in> set (snd_queue b pcb)" "seg_ok s"
    using assms(1,2) by (auto simp: snd_queue_def snd_ok_def list.pred_set)
  have "off b s + length (seg_seq s) \<le> length (stream b pcb)" "length (stream b pcb) < 2 ^ 31"
    using contig_disjoint(1)[of b "snd_queue b pcb" s] assms(1) s(1) queue_ordered(3)[OF assms(1)] by (simp_all add: snd_ok_def stream_def)
  then have "off b s + length (seg_seq s) < 2 ^ 31" "k < 2 ^ 31"
    using assms(3) by simp_all
  moreover have "seg_seqno s + TCP_TCPLEN s = b + of_nat (off b s + length (seg_seq s))"
    by (simp add: seg_seq_len[OF s(2)] seqno_off[of s b])
  ultimately show ?thesis
    unfolding acked_def by (simp only: seq_leq_off)
qed

lemma dropWhile_filter:
  assumes "sorted_wrt (\<lambda>x y. P y \<longrightarrow> P x) xs"
  shows "dropWhile P xs = filter (\<lambda>x. \<not> P x) xs" "takeWhile P xs = filter P xs"
  using assms by (induction xs) (auto simp: filter_empty_conv filter_id_conv)

lemma acked_prefix:
  assumes ok: "snd_ok b pcb" and k: "k \<le> length (stream b pcb)" and xs: "ordered b xs" "set xs \<subseteq> set (unacked pcb @ unsent pcb)"
  shows "dropWhile (acked (b + of_nat k)) xs = filter (\<lambda>s. \<not> acked (b + of_nat k) s) xs"
    "takeWhile (acked (b + of_nat k)) xs = filter (acked (b + of_nat k)) xs"
proof -
  have mono: "acked (b + of_nat k) x" if "acked (b + of_nat k) y" "off b x < off b y" "x \<in> set xs" "y \<in> set xs" for x y
  proof -
    have m: "x \<in> set (unacked pcb @ unsent pcb)" "y \<in> set (unacked pcb @ unsent pcb)"
      using that xs(2) by auto
    then have q: "x \<in> set (snd_queue b pcb)" "y \<in> set (snd_queue b pcb)"
      by (simp_all add: snd_queue_def)
    have "off b x + length (seg_seq x) \<le> off b y"
      using contig_disjoint(2)[of b "snd_queue b pcb" x y] ok q that(2) queue_ordered(3)[OF ok] by (simp add: snd_ok_def stream_def)
    then show ?thesis
      using that(1) acked_iff[OF ok m(1) k] acked_iff[OF ok m(2) k] by simp
  qed
  have "sorted_wrt (\<lambda>x y. off b x < off b y) xs"
    using xs(1) by (simp add: ordered_def sorted_wrt_map)
  then have "sorted_wrt (\<lambda>x y. acked (b + of_nat k) y \<longrightarrow> acked (b + of_nat k) x) xs"
  proof (rule sorted_wrt_mono_rel[rotated])
    fix x y
    assume "x \<in> set xs" "y \<in> set xs" "off b x < off b y"
    then show "acked (b + of_nat k) y \<longrightarrow> acked (b + of_nat k) x"
      using mono by blast
  qed
  from dropWhile_filter[OF this] show "dropWhile (acked (b + of_nat k)) xs = filter (\<lambda>s. \<not> acked (b + of_nat k) s) xs"
    "takeWhile (acked (b + of_nat k)) xs = filter (acked (b + of_nat k)) xs" .
qed


lemma off_shift: "j \<le> off b s \<Longrightarrow> off (b + of_nat j) s = off b s - j"
proof -
  assume j: "j \<le> off b s"
  then have "j < 2 ^ 32"
    unfolding off_def by (rule order.strict_trans1) (use unsigned_less[of "seg_seqno s - b"] in simp)
  then have u: "unat (of_nat j :: u32) = j"
    by (simp add: unat_u32_of_nat)
  have e: "seg_seqno s - (b + of_nat j) = (seg_seqno s - b) - of_nat j"
    by simp
  show ?thesis
    unfolding off_def e using j u by (subst unat_sub) (simp_all add: word_le_nat_alt off_def)
qed

lemma ordered_shift: "ordered b xs \<Longrightarrow> \<forall>s\<in>set xs. j \<le> off b s \<Longrightarrow> ordered (b + of_nat j) xs"
  unfolding ordered_def sorted_wrt_map by (erule sorted_wrt_mono_rel[rotated]) (auto simp: off_shift intro: diff_less_mono)

lemma sublist_ordered: "ordered b xs \<Longrightarrow> ordered b (dropWhile P xs)"
  by (simp add: ordered_def sorted_wrt_map sorted_wrt_dropWhile)

lemma sum_mset_map: "mset xs = mset ys \<Longrightarrow> sum_list (map f xs) = sum_list (map f ys)" for f :: "'a \<Rightarrow> nat"
  by (metis mset_map sum_mset_sum_list)

lemma bytes_seqs: "list_all seg_ok ss \<Longrightarrow> length (bytes (seqs ss)) = sum_list (map (\<lambda>s. unat (seg_len s)) ss)"
  by (induction ss) (auto simp: seg_seq_def seg_ok_def)

lemma ack_queues:
  assumes ok: "snd_ok b pcb" and k: "k \<le> length (stream b pcb)"
  defines "P \<equiv> acked (b + of_nat k)"
  assumes q: "unacked q = dropWhile P (unacked pcb)" "unsent q = dropWhile P (unsent pcb)"
    "unat (snd_queuelen q) = clens (unacked q @ unsent q)"
  obtains j where "j \<le> k" "snd_ok (b + of_nat j) q" "stream (b + of_nat j) q = drop j (stream b pcb)"
    "length (bytes (take j (stream b pcb))) = sum_list (map (\<lambda>s. unat (seg_len s)) (takeWhile P (unacked pcb) @ takeWhile P (unsent pcb)))"
proof -
  define Q where "Q = snd_queue b pcb"
  note O = queue_ordered[OF ok, folded Q_def]
  have c: "contig b Q" "ordered b (unacked pcb)" "ordered b (unsent pcb)" and st: "stream b pcb = seqs Q" "length (seqs Q) < 2 ^ 31"
    using ok by (simp_all add: snd_ok_def Q_def stream_def)
  have setQ: "set Q = set (unacked pcb @ unsent pcb)"
    by (simp add: Q_def snd_queue_def)
  note A = acked_prefix[OF ok k, folded P_def]
  have dQ: "dropWhile P Q = filter (\<lambda>s. \<not> P s) Q" "takeWhile P Q = filter P Q"
    using A[OF O(1)] setQ by auto
  have dq: "unacked q @ unsent q = filter (\<lambda>s. \<not> P s) (unacked pcb @ unsent pcb)"
    using A(1)[OF c(2)] A(1)[OF c(3)] q by auto
  have tq: "takeWhile P (unacked pcb) @ takeWhile P (unsent pcb) = filter P (unacked pcb @ unsent pcb)"
    using A(2)[OF c(2)] A(2)[OF c(3)] by auto
  let ?A = "takeWhile P Q" and ?B = "dropWhile P Q"
  define j where "j = length (seqs ?A)"
  have Qab: "Q = ?A @ ?B"
    by simp
  have okAB: "list_all seg_ok ?A" "list_all seg_ok ?B"
    using O(3) Qab by (metis list_all_append)+
  have sAB: "seqs Q = seqs ?A @ seqs ?B"
    by (subst (1) Qab) (rule seqs_append)
  have cB: "contig (b + of_nat j) ?B"
    using c(1) okAB(1) by (subst (asm) Qab) (simp only: contig_append tcplens j_def)
  have jk: "j \<le> k"
  proof (cases ?A rule: rev_cases)
    case (snoc A x)
    have "x \<in> set Q" "P x"
      using snoc set_takeWhileD[of x P Q] by auto
    then have "off b x + length (seg_seq x) \<le> k"
      using acked_iff[OF ok _ k] setQ by (simp add: P_def)
    moreover have "off b x = length (seqs A)"
    proof -
      have "contig b (A @ x # ?B)"
        using c(1) Qab snoc by simp
      moreover have "list_all seg_ok A" "length (seqs A) < 2 ^ 32"
        using okAB(1) st(2) sAB by (simp_all add: snoc)
      ultimately show ?thesis
        by (simp add: contig_append tcplens off_def unat_u32_of_nat)
    qed
    ultimately show ?thesis
      by (simp add: j_def snoc)
  qed (simp add: j_def)
  have mB: "mset (unacked q @ unsent q) = mset ?B"
    unfolding dq dQ(1) by (simp add: Q_def snd_queue_def)
  have jB: "j \<le> off b s" if "s \<in> set ?B" for s
    using contig_ordered[OF cB okAB(2) refl] st(2) that by (simp add: sAB j_def)
  have setq: "set (unacked q) \<subseteq> set ?B" "set (unsent q) \<subseteq> set ?B"
    using mset_eq_setD[OF mB] by auto
  have oB: "ordered (b + of_nat j) ?B"
    using contig_ordered[OF cB okAB(2), of "b + of_nat j" 0] st(2) by (simp add: sAB)
  have sq: "snd_queue (b + of_nat j) q = ?B"
    unfolding snd_queue_def by (rule queue_sorted_unique[OF mB oB])
  have s': "stream (b + of_nat j) q = drop j (stream b pcb)"
    unfolding stream_def sq Q_def[symmetric] sAB by (simp add: j_def)
  have "ordered (b + of_nat j) (unacked q)" "ordered (b + of_nat j) (unsent q)"
    using setq jB ordered_shift[OF sublist_ordered[OF c(2)], of P j] ordered_shift[OF sublist_ordered[OF c(3)], of P j]
    unfolding q(1,2) by blast+
  moreover have "list_all seg_ok (unacked q @ unsent q)"
    using okAB(2) list_all_mset[OF mB] by simp
  ultimately have ok': "snd_ok (b + of_nat j) q"
    using cB st q(3) by (simp add: snd_ok_def sq s')
  have "take j (stream b pcb) = seqs ?A"
    unfolding st(1) sAB by (simp add: j_def)
  then have "length (bytes (take j (stream b pcb))) = sum_list (map (\<lambda>s. unat (seg_len s)) ?A)"
    using bytes_seqs[OF okAB(1)] by simp
  also have "\<dots> = sum_list (map (\<lambda>s. unat (seg_len s)) (takeWhile P (unacked pcb) @ takeWhile P (unsent pcb)))"
    unfolding tq dQ(2) by (rule sum_mset_map) (simp add: Q_def snd_queue_def)
  finally show thesis
    using that jk ok' s' by blast
qed


lemma unat_tcpwnd: "unat (tcpwnd c x) = (if LWIP_WND_SCALE c then unat x else unat x mod 2 ^ 16)"
proof -
  have "x AND 0xFFFFFFFF = x"
    by (metis and.right_neutral minus_1_eq_u32)
  moreover have "unat (x AND 0xFFFF) = unat x mod 2 ^ 16"
    using unat_take_mask[of x 16] by (simp add: mask_eq_exp_minus_1)
  ultimately show ?thesis
    by (simp add: tcpwnd_def TCPWND_MAX_def)
qed

lemma tcpwnd_add [simp]: "tcpwnd c (tcpwnd c x + y) = tcpwnd c (x + y)" "tcpwnd c (tcpwnd c x) = tcpwnd c x" "tcpwnd c 0 = 0"
proof -
  have m: "(a mod 2 ^ 16 + b) mod 2 ^ 32 mod 2 ^ 16 = (a + b) mod 2 ^ 32 mod (2 ^ 16 :: nat)" for a b
    by (simp add: mod_mod_cancel mod_add_left_eq)
  show "tcpwnd c (tcpwnd c x + y) = tcpwnd c (x + y)"
    unfolding word_unat_eq_iff unat_tcpwnd using m[of "unat x" "unat y"] by (simp add: unat_word_ariths unat_tcpwnd)
qed (simp_all add: word_unat_eq_iff unat_tcpwnd)

lemma tcpwnd_add2 [simp]: "tcpwnd c (y + tcpwnd c x) = tcpwnd c (y + x)"
  using tcpwnd_add(1)[of c x y] by (simp add: add.commute)

lemma free_acked_ok:
  assumes "list_all seg_ok ss" "clens (ss @ other) = unat ql"
  shows "\<exists>ql'. free_acked c a other ss ql (tcpwnd c x) =
      Some (dropWhile (acked a) ss, ql', tcpwnd c (x + of_nat (sum_list (map (\<lambda>s. unat (seg_len s)) (takeWhile (acked a) ss))))) \<and>
    unat ql' = clens (dropWhile (acked a) ss @ other)"
  using assms
proof (induction ss arbitrary: ql x)
  case (Cons s ss)
  show ?case
  proof (cases "acked a s")
    case False
    then show ?thesis
      using Cons.prems by (simp add: acked_def)
  next
    case True
    have "length (seg_p s) \<le> unat ql"
      using Cons.prems(2) by (simp add: clens_def)
    then have cl: "unat (pbuf_clen_seg s) = length (seg_p s)"
      using unat_u16_less[of ql] by (simp add: pbuf_clen_seg_def unat_u16_of_nat del: unat_u16_less)
    then have le: "pbuf_clen_seg s \<le> ql"
      using \<open>length (seg_p s) \<le> unat ql\<close> by (simp add: word_le_nat_alt)
    then have rest: "unat (ql - pbuf_clen_seg s) = clens (ss @ other)"
      using Cons.prems(2) by (simp add: unat_sub cl clens_def)
    then have "ss = [] \<Longrightarrow> other = [] \<Longrightarrow> ql - pbuf_clen_seg s = 0"
      by (simp add: clens_def unat_eq_0)
    moreover have "(ucast (seg_len s) :: u32) = of_nat (unat (seg_len s))"
      by simp
    moreover obtain ql' where "free_acked c a other ss (ql - pbuf_clen_seg s) (tcpwnd c (x + ucast (seg_len s))) =
        Some (dropWhile (acked a) ss, ql', tcpwnd c (x + ucast (seg_len s) + of_nat (sum_list (map (\<lambda>s. unat (seg_len s)) (takeWhile (acked a) ss)))))"
        "unat ql' = clens (dropWhile (acked a) ss @ other)"
      using Cons.IH[of "ql - pbuf_clen_seg s" "x + ucast (seg_len s)"] Cons.prems(1) rest by auto
    ultimately show ?thesis
      using True le by (auto simp: Let_def add.assoc simp flip: acked_def)
  qed
qed simp


subsection \<open>A new acknowledgement\<close>

lemma ack_cwnd_queues [simp]:
  "unacked (ack_cwnd c a pcb) = unacked pcb" "unsent (ack_cwnd c a pcb) = unsent pcb" "snd_queuelen (ack_cwnd c a pcb) = snd_queuelen pcb"
  "snd_buf (ack_cwnd c a pcb) = snd_buf pcb" "lastack (ack_cwnd c a pcb) = lastack pcb" "snd_lbb (ack_cwnd c a pcb) = snd_lbb pcb"
  "state (ack_cwnd c a pcb) = state pcb" "snd_nxt (ack_cwnd c a pcb) = snd_nxt pcb" "unsent_oversize (ack_cwnd c a pcb) = unsent_oversize pcb"
  "rto_end (ack_cwnd c a pcb) = rto_end pcb" "nrtx (ack_cwnd c a pcb) = nrtx pcb" "dupacks (ack_cwnd c a pcb) = dupacks pcb"
  by (simp_all add: ack_cwnd_def Let_def)

lemma ack_new_ok:
  assumes ok: "snd_ok b pcb" and k: "in_ackno i = b + of_nat k" "k \<le> length (stream b pcb)" and ra: "recv_acked i = 0"
  obtains i' pcb' j where "ack_new c i pcb = Some (i', pcb')" "j \<le> k" "snd_ok (b + of_nat j) pcb'"
    "stream (b + of_nat j) pcb' = drop j (stream b pcb)"
    "unacked pcb' = dropWhile (acked (in_ackno i)) (unacked pcb)" "unsent pcb' = dropWhile (acked (in_ackno i)) (unsent pcb)"
    "lastack pcb' = in_ackno i" "recv_acked i' = tcpwnd c (of_nat (length (bytes (take j (stream b pcb)))))"
    "snd_buf pcb' = tcpwnd c (snd_buf pcb + recv_acked i')" "snd_lbb pcb' = snd_lbb pcb" "state pcb' = state pcb" "snd_nxt pcb' = snd_nxt pcb"
    "rtime pcb' = (if unacked pcb' = [] then -1 else 0)" "nrtx pcb' = 0" "i' = i\<lparr>recv_acked := recv_acked i'\<rparr>"
proof -
  define p0 where "p0 = (if tcp_is_flag_set pcb TF_INFR
      then (tcp_clear_flags TF_INFR pcb)\<lparr>cwnd := ssthresh pcb, bytes_acked := 0\<rparr> else pcb)"
  define p1 where "p1 = ack_cwnd c (tcpwnd c (in_ackno i - lastack p0))
      (p0\<lparr>nrtx := 0, rto := s16 (rtt_sa p0 div 8 + rtt_sv p0), dupacks := 0, lastack := in_ackno i\<rparr>)"
  have f: "unacked p1 = unacked pcb" "unsent p1 = unsent pcb" "snd_queuelen p1 = snd_queuelen pcb" "snd_buf p1 = snd_buf pcb"
      "lastack p1 = in_ackno i" "snd_lbb p1 = snd_lbb pcb" "state p1 = state pcb" "snd_nxt p1 = snd_nxt pcb" "nrtx p1 = 0"
    by (simp_all add: p1_def p0_def tcp_clear_flags_def)
  let ?P = "acked (in_ackno i)"
  let ?l = "\<lambda>ss. sum_list (map (\<lambda>s. unat (seg_len s)) ss)"
  have s: "list_all seg_ok (unacked pcb)" "list_all seg_ok (unsent pcb)" "clens (unacked pcb @ unsent pcb) = unat (snd_queuelen pcb)"
    using ok by (simp_all add: snd_ok_def)
  obtain q1 where q1: "free_acked c (in_ackno i) (unsent pcb) (unacked pcb) (snd_queuelen pcb) (tcpwnd c 0) =
      Some (dropWhile ?P (unacked pcb), q1, tcpwnd c (0 + of_nat (?l (takeWhile ?P (unacked pcb)))))"
      "unat q1 = clens (dropWhile ?P (unacked pcb) @ unsent pcb)"
    using free_acked_ok[OF s(1,3)] by blast
  have "clens (unsent pcb @ dropWhile ?P (unacked pcb)) = unat q1"
    unfolding q1(2) by (rule clens_mset) simp
  then obtain q2 where q2: "free_acked c (in_ackno i) (dropWhile ?P (unacked pcb)) (unsent pcb) q1 (tcpwnd c (of_nat (?l (takeWhile ?P (unacked pcb))))) =
      Some (dropWhile ?P (unsent pcb), q2, tcpwnd c (of_nat (?l (takeWhile ?P (unacked pcb))) + of_nat (?l (takeWhile ?P (unsent pcb)))))"
      "unat q2 = clens (dropWhile ?P (unsent pcb) @ dropWhile ?P (unacked pcb))"
    using free_acked_ok[OF s(2)] by blast
  define ra' where "ra' = tcpwnd c (of_nat (?l (takeWhile ?P (unacked pcb))) + of_nat (?l (takeWhile ?P (unsent pcb))))"
  define p2 where "p2 = p1\<lparr>snd_queuelen := q1, unacked := dropWhile ?P (unacked pcb), snd_queuelen := q2, unsent := dropWhile ?P (unsent pcb)\<rparr>"
  define p3 where "p3 = p2\<lparr>rtime := (if unacked p2 = [] then -1 else 0), polltmr := 0,
      unsent_oversize := (if unsent p2 = [] then 0 else unsent_oversize p2), snd_buf := tcpwnd c (snd_buf p2 + ra')\<rparr>"
  define p1' where "p1' = p1\<lparr>snd_queuelen := q1, unacked := dropWhile ?P (unacked pcb)\<rparr>"
  define i1 where "i1 = i\<lparr>recv_acked := tcpwnd c (of_nat (?l (takeWhile ?P (unacked pcb))))\<rparr>"
  have a1: "tcp_free_acked_segments c (\<lambda>ss. unacked_update (\<lambda>_. ss)) (unacked p1) (unsent p1) i p1 = Some (i1, p1')"
    using q1(1) by (simp add: tcp_free_acked_segments_def f ra i1_def p1'_def)
  have a2: "tcp_free_acked_segments c (\<lambda>ss. unsent_update (\<lambda>_. ss)) (unsent p1') (unacked p1') i1 p1' = Some (i\<lparr>recv_acked := ra'\<rparr>, p2)"
    using q2(1) by (simp add: tcp_free_acked_segments_def f i1_def p1'_def p2_def ra'_def)
  have r: "recv_acked (i\<lparr>recv_acked := ra'\<rparr>) = ra'"
    by simp
  have "\<exists>B. ack_new c i pcb = Some (i\<lparr>recv_acked := ra'\<rparr>, if B then tcp_clear_flags TF_RTO p3 else p3)"
    unfolding ack_new_def Let_def p0_def[symmetric] p1_def[symmetric] a1 bind.bind_lunit prod.case a2 r p3_def[symmetric]
    by (rule exI) (rule refl)
  then obtain pcb' where p4: "ack_new c i pcb = Some (i\<lparr>recv_acked := ra'\<rparr>, pcb')" "pcb' = p3 \<or> pcb' = tcp_clear_flags TF_RTO p3"
    by (metis (full_types))
  have g: "unacked pcb' = dropWhile ?P (unacked pcb)" "unsent pcb' = dropWhile ?P (unsent pcb)" "snd_queuelen pcb' = q2"
      "snd_buf pcb' = tcpwnd c (snd_buf pcb + ra')" "lastack pcb' = in_ackno i" "snd_lbb pcb' = snd_lbb pcb" "state pcb' = state pcb"
      "snd_nxt pcb' = snd_nxt pcb" "nrtx pcb' = 0" "rtime pcb' = (if unacked pcb' = [] then -1 else 0)"
    using p4(2) f by (auto simp: p3_def p2_def tcp_clear_flags_def)
  have "unat (snd_queuelen pcb') = clens (unacked pcb' @ unsent pcb')"
    unfolding g(1-3) q2(2) by (rule clens_mset) simp
  from ack_queues[OF ok k(2), folded k(1), OF g(1,2) this] obtain j where j: "j \<le> k" "snd_ok (b + of_nat j) pcb'"
    "stream (b + of_nat j) pcb' = drop j (stream b pcb)"
    "length (bytes (take j (stream b pcb))) = ?l (takeWhile ?P (unacked pcb) @ takeWhile ?P (unsent pcb))" .
  have "ra' = tcpwnd c (of_nat (length (bytes (take j (stream b pcb)))))"
    by (simp add: ra'_def j(4))
  then show thesis
    using that[OF p4(1) j(1-3) g(1,2,5)] g by simp
qed


lemma snd_ok_perm:
  assumes ok: "snd_ok b p" and m: "mset (unacked q @ unsent q) = mset (unacked p @ unsent p)"
    and o: "ordered b (unacked q)" "ordered b (unsent q)" and l: "snd_queuelen q = snd_queuelen p"
  shows "snd_ok b q" "stream b q = stream b p"
proof -
  have "snd_queue b q = snd_queue b p"
    unfolding snd_queue_def[of b q] by (rule queue_sorted_unique) (use m queue_ordered(1)[OF ok] in \<open>simp_all add: snd_queue_def\<close>)
  then show s: "stream b q = stream b p"
    by (simp add: stream_def)
  show "snd_ok b q"
    using ok o l s list_all_mset[OF m] clens_mset[OF m] \<open>snd_queue b q = snd_queue b p\<close> by (simp add: snd_ok_def)
qed

lemma rexmit_ok:
  assumes ok: "snd_ok b pcb"
  shows "snd_ok b (fst (tcp_rexmit pcb))" "stream b (fst (tcp_rexmit pcb)) = stream b pcb"
proof -
  have "snd_ok b (fst (tcp_rexmit pcb)) \<and> stream b (fst (tcp_rexmit pcb)) = stream b pcb"
  proof (cases "unacked pcb = [] \<or> tcp_output_segment_busy (hd (unacked pcb))")
    case True
    then show ?thesis
      using ok by (auto simp: tcp_rexmit_def split: list.split)
  next
    case False
    then obtain s rest where u: "unacked pcb = s # rest" "\<not> tcp_output_segment_busy s"
      by (cases "unacked pcb") auto
    let ?q = "fst (tcp_rexmit pcb)"
    have q: "unacked ?q = rest" "unsent ?q = ins_sorted s (unsent pcb)" "snd_queuelen ?q = snd_queuelen pcb"
      using u by (simp_all add: tcp_rexmit_def Let_def)
    have "distinct (map (off b) (snd_queue b pcb))"
      using queue_ordered(1)[OF ok] by (auto simp: ordered_def strict_sorted_iff)
    then have "distinct (map (off b) (unacked pcb @ unsent pcb))"
      by (metis distinct_map mset_eq_imp_distinct_iff mset_map mset_sort snd_queue_def)
    then have d: "off b s \<notin> off b ` set (unsent pcb)"
      by (auto simp: u)
    have "set (snd_queue b pcb) = set (unacked pcb @ unsent pcb)"
      by (simp add: snd_queue_def)
    then have b: "\<forall>x\<in>set (s # unsent pcb). off b x < 2 ^ 31"
      using queue_ordered(2)[OF ok] u by auto
    have "ordered b rest" "ordered b (unsent pcb)"
      using ok u by (simp_all add: snd_ok_def ordered_def)
    moreover have "ordered b (ins_sorted s (unsent pcb))"
      using ordered_ins_sorted \<open>ordered b (unsent pcb)\<close> b d by blast
    ultimately show ?thesis
      using snd_ok_perm[OF ok, of ?q] q u by simp
  qed
  then show "snd_ok b (fst (tcp_rexmit pcb))" "stream b (fst (tcp_rexmit pcb)) = stream b pcb"
    by simp_all
qed


lemma rexmit_fast_ok:
  assumes "snd_ok b pcb"
  shows "snd_ok b (tcp_rexmit_fast c pcb)" "stream b (tcp_rexmit_fast c pcb) = stream b pcb"
proof -
  obtain q err where r: "tcp_rexmit pcb = (q, err)"
    by (cases "tcp_rexmit pcb")
  have "snd_ok b q" "stream b q = stream b pcb"
    using rexmit_ok[OF assms] by (simp_all add: r)
  moreover have "tcp_rexmit_fast c pcb = pcb \<or> unacked (tcp_rexmit_fast c pcb) = unacked q \<and>
      unsent (tcp_rexmit_fast c pcb) = unsent q \<and> snd_queuelen (tcp_rexmit_fast c pcb) = snd_queuelen q"
    by (simp add: tcp_rexmit_fast_def r Let_def tcp_set_flags_def)
  ultimately show "snd_ok b (tcp_rexmit_fast c pcb)" "stream b (tcp_rexmit_fast c pcb) = stream b pcb"
    using assms snd_ok_cong[of "tcp_rexmit_fast c pcb" q b] by auto
qed

lemma same_queues_ack_window:
  "unacked (ack_window c i pcb) = unacked pcb" "unsent (ack_window c i pcb) = unsent pcb"
  "snd_queuelen (ack_window c i pcb) = snd_queuelen pcb" "lastack (ack_window c i pcb) = lastack pcb" "snd_nxt (ack_window c i pcb) = snd_nxt pcb"
  "snd_buf (ack_window c i pcb) = snd_buf pcb" "state (ack_window c i pcb) = state pcb"
  by (simp_all add: ack_window_def Let_def)

lemma same_queues_ack_rtt:
  "unacked (ack_rtt i pcb e) = unacked pcb" "unsent (ack_rtt i pcb e) = unsent pcb" "snd_queuelen (ack_rtt i pcb e) = snd_queuelen pcb"
  "lastack (ack_rtt i pcb e) = lastack pcb" "snd_nxt (ack_rtt i pcb e) = snd_nxt pcb" "snd_buf (ack_rtt i pcb e) = snd_buf pcb"
  "state (ack_rtt i pcb e) = state pcb"
  by (simp_all add: ack_rtt_def Let_def)

text \<open>C3. A new acknowledgement takes exactly the segments it covers out of the queue, gives their bytes back to the
  send buffer, and leaves the rest of the stream queued.\<close>

theorem receive_ack_frees:
  assumes ok: "snd_ok b pcb" and fl: "is_set (in_flags i) TCP_ACK" "recv_acked i = 0"
    and a: "lastack pcb = b + of_nat l" "in_ackno i = b + of_nat k" "snd_nxt pcb = b + of_nat m" "l < k" "k \<le> m" "m \<le> length (stream b pcb)"
  shows "\<exists>i' pcb' j. receive_ack c i pcb e = Some (i', pcb', e) \<and> j \<le> k \<and> snd_ok (b + of_nat j) pcb' \<and>
    stream (b + of_nat j) pcb' = drop j (stream b pcb) \<and>
    (\<forall>s\<in>set (unacked pcb' @ unsent pcb'). k < off b s + length (seg_seq s)) \<and>
    lastack pcb' = in_ackno i \<and> snd_buf pcb' = tcpwnd c (snd_buf pcb + of_nat (length (bytes (take j (stream b pcb)))))"
proof -
  let ?w = "ack_window c i pcb"
  have w: "snd_ok b ?w" "stream b ?w = stream b pcb"
    using ok snd_ok_cong[of ?w pcb b] by (simp_all add: same_queues_ack_window)
  have lt: "length (stream b pcb) < 2 ^ 31"
    using ok by (simp add: snd_ok_def)
  have "l < 2 ^ 31" "k < 2 ^ 31" "l + 1 < 2 ^ 31" "m < 2 ^ 31"
    using a lt by simp_all
  then have new: "\<not> TCP_SEQ_LEQ (in_ackno i) (lastack pcb)" "TCP_SEQ_BETWEEN (in_ackno i) (lastack pcb + 1) (snd_nxt pcb)"
    using a(4,5) seq_between_off[of k "l + 1" m b] unfolding a(1-3) by (simp_all add: seq_leq_off ac_simps)
  have "k \<le> length (stream b ?w)"
    using a w by simp
  then obtain i' pcb' j where r: "ack_new c i ?w = Some (i', pcb')" "j \<le> k" "snd_ok (b + of_nat j) pcb'"
    "stream (b + of_nat j) pcb' = drop j (stream b ?w)"
    "unacked pcb' = dropWhile (acked (in_ackno i)) (unacked ?w)" "unsent pcb' = dropWhile (acked (in_ackno i)) (unsent ?w)"
    "lastack pcb' = in_ackno i" "recv_acked i' = tcpwnd c (of_nat (length (bytes (take j (stream b ?w)))))"
    "snd_buf pcb' = tcpwnd c (snd_buf ?w + recv_acked i')"
    by (rule ack_new_ok[OF w(1) a(2) _ fl(2)]) blast
  have "k < off b s + length (seg_seq s)" if "s \<in> set (unacked pcb' @ unsent pcb')" for s
  proof -
    have o: "ordered b (unacked pcb)" "ordered b (unsent pcb)" "k \<le> length (stream b pcb)"
      using ok a by (simp_all add: snd_ok_def)
    have "\<not> acked (b + of_nat k) s" "s \<in> set (unacked pcb @ unsent pcb)"
      using that r(5,6) acked_prefix(1)[OF ok o(3,1)] acked_prefix(1)[OF ok o(3,2)] by (auto simp: same_queues_ack_window a(2))
    then show ?thesis
      using acked_iff[OF ok _ o(3)] by simp
  qed
  moreover have "receive_ack c i pcb e = Some (i', ack_rtt i' pcb' e, e)"
    using fl new r(1) by (simp add: receive_ack_def Let_def same_queues_ack_window)
  moreover have "snd_ok (b + of_nat j) (ack_rtt i' pcb' e)" "stream (b + of_nat j) (ack_rtt i' pcb' e) = drop j (stream b pcb)"
    using r(3,4) w(2) snd_ok_cong[of "ack_rtt i' pcb' e" pcb' "b + of_nat j"] by (simp_all add: same_queues_ack_rtt)
  moreover have "snd_buf pcb' = tcpwnd c (snd_buf pcb + of_nat (length (bytes (take j (stream b pcb)))))"
    using r(8,9) w(2) by (simp add: same_queues_ack_window)
  ultimately show ?thesis
    using r(2,7) by (auto simp: same_queues_ack_rtt)
qed


text \<open>Two segments are unacknowledged, and the acknowledgement ends in the middle of the second.\<close>

definition example_acks :: tcp_pcb where
  "example_acks = example_pcb\<lparr>unacked := [example_seg, example_in 1002 TCP_ACK [1, 2, 3]], unsent := [], snd_queuelen := 2, snd_nxt := 1005\<rparr>"

definition example_ack :: tin where
  "example_ack = example_tin\<lparr>in_ackno := 1003\<rparr>"

lemma example_acks_ok: "snd_ok 1000 example_acks" "stream 1000 example_acks = [Some 104, Some 105, Some 1, Some 2, Some 3]"
proof -
  have s: "seg_seq (example_in 1002 TCP_ACK [1, 2, 3]) = [Some 1, Some 2, Some 3]"
    by (simp add: seg_seq_def example_in_def seg_data_def is_set_def TCP_ACK_def TCP_SYN_def TCP_FIN_def)
  have ok: "seg_ok (example_in 1002 TCP_ACK [1, 2, 3])"
    using s by (simp add: seg_ok_def) (simp add: example_in_def seg_data_def is_set_def TCP_ACK_def TCP_SYN_def TCP_RST_def)
  have l: "TCP_TCPLEN example_seg = 2" "seg_seqno example_seg = 1000" "length (seg_p example_seg) = 1"
    using seg_seq_len[OF example_seq(2)] by (simp_all add: example_seq) (simp_all add: example_seg_def)
  have "contig 1000 (unacked example_acks @ unsent example_acks)" "list_all seg_ok (unacked example_acks @ unsent example_acks)"
      "length (seqs (unacked example_acks @ unsent example_acks)) < 2 ^ 31"
      "clens (unacked example_acks @ unsent example_acks) = unat (snd_queuelen example_acks)"
    using ok s l example_seq by (simp_all add: example_acks_def clens_def) (simp_all add: example_in_def)
  from snd_ok_inorder[OF this] show "snd_ok 1000 example_acks" "stream 1000 example_acks = [Some 104, Some 105, Some 1, Some 2, Some 3]"
    using s example_seq by (simp_all add: example_acks_def)
qed

theorem receive_ack_frees_witness:
  "snd_ok 1000 example_acks \<and>
   (\<exists>i' pcb' j. receive_ack ios example_ack example_acks example_env = Some (i', pcb', example_env) \<and> j \<le> 3 \<and>
      stream (1000 + of_nat j) pcb' = drop j [Some 104, Some 105, Some 1, Some 2, Some 3] \<and> lastack pcb' = 1003)"
proof -
  have e: "is_set (in_flags example_ack) TCP_ACK" "recv_acked example_ack = 0" "in_ackno example_ack = 1000 + of_nat 3"
      "lastack example_acks = 1000 + of_nat 0" "snd_nxt example_acks = 1000 + of_nat 5"
    by (simp_all add: example_ack_def example_tin_def example_acks_def example_fields is_set_def TCP_ACK_def)
  have n: "(0 :: nat) < 3" "(3 :: nat) \<le> 5" "5 \<le> length (stream 1000 example_acks)"
    by (simp_all add: example_acks_ok)
  from receive_ack_frees[OF example_acks_ok(1) e(1,2,4,3,5) n, of ios example_env] show ?thesis
    using example_acks_ok e(3) by auto
qed

end
