(* ===== verification/Spec2Isabelle.thy ===== *)
theory Spec2Isabelle
  imports Inet_Chksum Ip4_Addr Sys_Timeouts Pbuf_Memory Tcp_Ack
begin

text \<open>
  \<^bold>\<open>TunForge: a verification library for its TCP/IP stack.\<close>

  \<^bold>\<open>The program.\<close> TunForge terminates TCP connections that arrive as IP packets on a TUN interface. Its
  stack is lwIP (\<open>src/Sources/Lwip\<close>), compiled without an operating system, with IPv4 and TCP and
  without UDP, ICMP and ARP; an Objective-C layer (\<open>src/Sources/TunForgeCore\<close>) owns the connections and
  calls the raw API of lwIP. Packets live in chains of buffers (\<open>pbuf.c\<close>) that come from a heap (\<open>mem.c\<close>)
  and from pools (\<open>memp.c\<close>); timers run from one list (\<open>timeouts.c\<close>); \<open>tcp_out.c\<close> queues and sends segments,
  \<open>tcp_in.c\<close> takes them apart; checksums are in \<open>inet_chksum.c\<close>, addresses in \<open>ip4_addr.c\<close>, byte order and
  string helpers in \<open>def.c\<close>.

  \<^bold>\<open>The theories.\<close>
  \<^item> \<open>Lwip_Prelude\<close>: machine types as words, error codes, alignment, shared lemmas.
  \<^item> \<open>Lwip_Def\<close> (\<open>def.c\<close>), \<open>Inet_Chksum\<close> (\<open>inet_chksum.c\<close>), \<open>Ip4_Addr\<close> (\<open>ip4_addr.c\<close>), \<open>Sys_Timeouts\<close> (\<open>timeouts.c\<close>):
    the functions of these files, with their specifications.
  \<^item> \<open>Lwip_Mem\<close> (\<open>mem.c\<close>) and \<open>Lwip_Memp\<close> (\<open>memp.c\<close>): the heap and the pools as states, and the proofs that
    they implement first fit on a list of blocks and a bag of free elements.
  \<^item> \<open>Lwip_Pbuf\<close> (\<open>pbuf.c\<close>): every operation on packet buffers, on a store of buffers above heap and pools;
    \<open>Pbuf_Memory\<close>: the ownership invariant and the properties.
  \<^item> \<open>Tcp_Defs\<close> (\<open>tcp.h\<close>, \<open>tcpbase.h\<close>, \<open>priv/tcp_priv.h\<close>, \<open>prot/tcp.h\<close>, the two platform configurations):
    control blocks, segments, sequence numbers.
  \<^item> \<open>Tcp_Out\<close> (\<open>tcp_out.c\<close>) and \<open>Tcp_Send\<close>: what is queued and sent.
  \<^item> \<open>Tcp_In\<close> (\<open>tcp_in.c\<close>) and \<open>Tcp_Recv\<close>: what is received, and that the peer's stream is put together again.

  \<^bold>\<open>Correspondence.\<close> Definitions carry the names of the C functions; a loop is a recursive function of its
  own next to them. A failed \<open>LWIP_ASSERT\<close> is \<open>None\<close>, so a theorem that gives \<open>Some\<close> shows that no assertion
  fires; error codes are values. Fixed-width integers are words, or naturals where the width does not
  matter, with the wrap-around written out. Loops that C leaves open are \<open>partial_function (option)\<close>, and the
  theorems show that they return; there is no fuel.

  \<^bold>\<open>Not modelled.\<close> The parts that the configuration compiles out (IPv6, UDP, DNS, DHCP, ARP, ICMP, IGMP,
  sockets, PPP, the applications), pure I/O (clock, logging, the TUN device), the lists of control blocks and
  the timers of \<open>tcp.c\<close>, the IP layer below TCP, which is an argument of the TCP model, and the Objective-C
  layer.
\<close>

end
